(* ===== verification/Prelude.thy ===== *)
theory Prelude
  imports Main "HOL-Library.Word" "HOL-Library.Monad_Syntax"
begin

text \<open>
  The shared ground of the development: names for the machine integers of
  \<^verbatim>\<open>inc/types.h\<close>, byte buffers (C arrays of \<^verbatim>\<open>uchar\<close>) with bounded reads and
  writes, the little-endian integer views the kernel takes of them, and the list
  facts the component theories rely on.

  Every kernel operation that can fail to return (it panics, or it sleeps until
  another process acts) is a function into \<^typ>\<open>'a option\<close>, where \<^term>\<open>None\<close>
  stands for not returning; error codes that C returns are ordinary values.
\<close>

unbundle bit_operations_syntax

type_synonym u8 = "8 word"
type_synonym u16 = "16 word"
type_synonym u32 = "32 word"
type_synonym u64 = "64 word"
type_synonym bytes = "u8 list"

named_theorems buf_simps \<open>reads of byte buffers after writes\<close>

section \<open>Byte buffers\<close>

text \<open>\<open>get_bytes xs off n\<close> is the range \<open>[off, off + n)\<close> of a buffer;
  \<open>put_bytes xs off ys\<close> is \<^verbatim>\<open>memmove(xs + off, ys, length ys)\<close>.\<close>

definition get_bytes :: "'a list \<Rightarrow> nat \<Rightarrow> nat \<Rightarrow> 'a list" where
  "get_bytes xs off n = take n (drop off xs)"

definition put_bytes :: "'a list \<Rightarrow> nat \<Rightarrow> 'a list \<Rightarrow> 'a list" where
  "put_bytes xs off ys = take off xs @ ys @ drop (off + length ys) xs"

text \<open>The checked forms: a range that leaves the buffer is outside what C defines,
  and the access has no result.\<close>

definition load_bytes :: "'a list \<Rightarrow> nat \<Rightarrow> nat \<Rightarrow> 'a list option" where
  "load_bytes xs off n =
     (if off + n \<le> length xs then Some (get_bytes xs off n) else None)"

definition store_bytes :: "'a list \<Rightarrow> nat \<Rightarrow> 'a list \<Rightarrow> 'a list option" where
  "store_bytes xs off ys =
     (if off + length ys \<le> length xs then Some (put_bytes xs off ys) else None)"

section \<open>Little-endian integers\<close>

definition le16_of :: "bytes \<Rightarrow> u16" where
  "le16_of d = ucast (d ! 0) OR push_bit 8 (ucast (d ! 1))"

definition le32_of :: "bytes \<Rightarrow> u32" where
  "le32_of d = ucast (d ! 0) OR push_bit 8 (ucast (d ! 1)) OR
     push_bit 16 (ucast (d ! 2)) OR push_bit 24 (ucast (d ! 3))"

definition le64_of :: "bytes \<Rightarrow> u64" where
  "le64_of d = ucast (le32_of d) OR push_bit 32 (ucast (le32_of (drop 4 d)))"

definition bytes_of_le16 :: "u16 \<Rightarrow> bytes" where
  "bytes_of_le16 v = [ucast v, ucast (drop_bit 8 v)]"

definition bytes_of_le32 :: "u32 \<Rightarrow> bytes" where
  "bytes_of_le32 v =
     [ucast v, ucast (drop_bit 8 v), ucast (drop_bit 16 v), ucast (drop_bit 24 v)]"

definition bytes_of_le64 :: "u64 \<Rightarrow> bytes" where
  "bytes_of_le64 v = map (\<lambda>i. ucast (drop_bit (i * 8) v)) [0..<8]"

section \<open>Facts on buffers\<close>

lemma length_get_bytes [simp]:
  "off + n \<le> length xs \<Longrightarrow> length (get_bytes xs off n) = n"
  by (simp add: get_bytes_def)

lemma length_put_bytes [simp]:
  "off + length ys \<le> length xs \<Longrightarrow> length (put_bytes xs off ys) = length xs"
  by (simp add: put_bytes_def)

lemma get_bytes_nth:
  "off + n \<le> length xs \<Longrightarrow> i < n \<Longrightarrow> get_bytes xs off n ! i = xs ! (off + i)"
  by (simp add: get_bytes_def)

lemma put_bytes_nth:
  "off + length ys \<le> length xs \<Longrightarrow> i < length xs \<Longrightarrow>
     put_bytes xs off ys ! i =
       (if off \<le> i \<and> i < off + length ys then ys ! (i - off) else xs ! i)"
  by (auto simp: put_bytes_def nth_append min_def)

lemma get_put_same [buf_simps]:
  "off + length ys \<le> length xs \<Longrightarrow> n = length ys \<Longrightarrow>
     get_bytes (put_bytes xs off ys) off n = ys"
  by (simp add: get_bytes_def put_bytes_def)

lemma get_put_disjoint [buf_simps]:
  assumes "off + length ys \<le> length xs" "off' + n \<le> length xs"
    and "off' + n \<le> off \<or> off + length ys \<le> off'"
  shows "get_bytes (put_bytes xs off ys) off' n = get_bytes xs off' n"
  using assms by (intro nth_equalityI) (auto simp: get_bytes_nth put_bytes_nth)

lemma get_bytes_all [simp]: "get_bytes xs 0 (length xs) = xs"
  by (simp add: get_bytes_def)

lemma put_bytes_all [simp]: "length ys = length xs \<Longrightarrow> put_bytes xs 0 ys = ys"
  by (simp add: put_bytes_def)

lemma put_get_same [simp]: "off + n \<le> length xs \<Longrightarrow> put_bytes xs off (get_bytes xs off n) = xs"
  by (intro nth_equalityI) (auto simp: put_bytes_nth get_bytes_nth)

lemma store_bytes_Some [simp]:
  "off + length ys \<le> length xs \<Longrightarrow> store_bytes xs off ys = Some (put_bytes xs off ys)"
  by (simp add: store_bytes_def)

lemma store_bytes_length: "store_bytes xs off ys = Some zs \<Longrightarrow> length zs = length xs"
  by (auto simp: store_bytes_def split: if_splits)

lemma load_bytes_Some [simp]:
  "off + n \<le> length xs \<Longrightarrow> load_bytes xs off n = Some (get_bytes xs off n)"
  by (simp add: load_bytes_def)

section \<open>Facts on little-endian integers\<close>

lemma length_bytes_of_le [simp]:
  "length (bytes_of_le16 v) = 2" "length (bytes_of_le32 w) = 4" "length (bytes_of_le64 x) = 8"
  by (simp_all add: bytes_of_le16_def bytes_of_le32_def bytes_of_le64_def)

lemma le16_round_trip [simp]: "le16_of (bytes_of_le16 v) = v"
  unfolding le16_of_def bytes_of_le16_def
  by (rule bit_word_eqI) (auto simp: bit_simps)

lemma le32_round_trip [simp]: "le32_of (bytes_of_le32 v) = v"
proof (rule bit_word_eqI)
  fix n assume "n < LENGTH(32)"
  then consider "n < 8" | "8 \<le> n" "n < 16" | "16 \<le> n" "n < 24" | "24 \<le> n" "n < 32"
    by fastforce
  then show "bit (le32_of (bytes_of_le32 v)) n = bit v n"
    by cases (auto simp: le32_of_def bytes_of_le32_def bit_simps)
qed

lemma byte_of_low_half:
  "k \<le> 24 \<Longrightarrow> (ucast (drop_bit k (ucast (v :: u64) :: u32)) :: u8) = ucast (drop_bit k v)"
  by (rule bit_word_eqI) (simp add: bit_simps)

lemma bytes_of_le64_split:
  "bytes_of_le64 v = bytes_of_le32 (ucast v) @ bytes_of_le32 (ucast (drop_bit 32 v))"
  using byte_of_low_half [of 0 v] byte_of_low_half [of 0 "drop_bit 32 v"]
  by (simp add: bytes_of_le64_def bytes_of_le32_def upt_rec byte_of_low_half)

lemma le32_of_append [simp]: "4 \<le> length d \<Longrightarrow> le32_of (d @ e) = le32_of d"
  by (auto simp: le32_of_def nth_append)

lemma le64_round_trip [simp]: "le64_of (bytes_of_le64 v) = v"
proof (rule bit_word_eqI)
  fix n assume n: "n < LENGTH(64)"
  show "bit (le64_of (bytes_of_le64 v)) n = bit v n"
    using n by (cases "n < 32") (auto simp: le64_of_def bytes_of_le64_split bit_simps)
qed

section \<open>Facts on machine words\<close>

lemma unat_lt:
  "unat (a :: u8) < 256" "unat (b :: u16) < 65536" "unat (c :: u32) < 4294967296"
  "unat (d :: u64) < 18446744073709551616"
  using unsigned_less [of a] unsigned_less [of b] unsigned_less [of c] unsigned_less [of d]
  by simp_all

lemma unat_of_nat_small [simp]:
  "i < 4294967296 \<Longrightarrow> unat (of_nat i :: u32) = i"
  "j < 18446744073709551616 \<Longrightarrow> unat (of_nat j :: u64) = j"
  by (simp_all add: unat_of_nat)

lemma unat_ucast_up [simp]:
  "unat (ucast (n :: u32) :: u64) = unat n"
  "unat (ucast (m :: u16) :: u64) = unat m"
  "unat (ucast (m :: u16) :: u32) = unat m"
  "unat (ucast (k :: u8) :: u32) = unat k"
  "unat (ucast (k :: u8) :: u64) = unat k"
  using unat_lt(3) [of n] unat_lt(2) [of m] unat_lt(1) [of k]
  by (simp_all add: unsigned_ucast_eq take_bit_nat_eq_self)

lemma unat_minus_1_u64: "unat (- 1 :: u64) = 18446744073709551615"
  by (simp add: unsigned_minus_1_eq_mask mask_eq_exp_minus_1)

lemma and_not_mask_split: "(x :: 'a :: len word) = take_bit n x + (x AND NOT (mask n))"
proof -
  have "take_bit n x AND (x AND NOT (mask n)) = 0"
    by (rule bit_word_eqI) (auto simp: bit_simps)
  then have "take_bit n x + (x AND NOT (mask n)) = take_bit n x OR (x AND NOT (mask n))"
    by (rule disjunctive_add_eq_or)
  also have "\<dots> = x" by (rule bit_word_eqI) (auto simp: bit_simps)
  finally show ?thesis by simp
qed

lemma unat_and_not_mask:
  "unat ((x :: 'a :: len word) AND NOT (mask n)) = unat x div 2 ^ n * 2 ^ n"
proof -
  have "x AND NOT (mask n) = x - take_bit n x"
    using and_not_mask_split [of x n] by (metis add_diff_cancel_left')
  moreover have t: "unat (take_bit n x) = unat x mod 2 ^ n"
    by (subst unsigned_take_bit_eq) (simp add: take_bit_eq_mod)
  moreover have "take_bit n x \<le> x" by (simp add: word_le_nat_alt t)
  ultimately show ?thesis
    by (simp add: unat_sub minus_mod_eq_div_mult)
qed

lemma unat_page_mask: "unat ((x :: u64) AND NOT (4096 - 1)) = unat x div 4096 * 4096"
  using unat_and_not_mask [of x 12] by (simp add: mask_eq_exp_minus_1)

lemma sint_of_nat_small: "n < 2147483648 \<Longrightarrow> sint (of_nat n :: u32) = int n"
  by (simp add: signed_of_nat signed_take_bit_int_eq_self)

section \<open>Counters\<close>

text \<open>The values of a 32-bit counter that runs up to a bound.\<close>

definition upto32 :: "u32 \<Rightarrow> u32 list" where
  "upto32 n = map of_nat [0..<unat n]"

lemma length_upto32 [simp]: "length (upto32 n) = unat n"
  by (simp add: upto32_def)

section \<open>Overflow guards\<close>

text \<open>The guards \<^verbatim>\<open>a > ~0 - b\<close> and \<^verbatim>\<open>a > ~0 / b\<close> of the 64-bit code are exact: they hold
  when the sum, or the product, does not fit.\<close>

lemma u64_add_guard: "(a :: u64) > NOT 0 - b \<longleftrightarrow> 2 ^ 64 \<le> unat a + unat b"
  using unat_lt(4) [of b] by (simp add: word_less_nat_alt unat_sub word_le_nat_alt unat_minus_1_u64, linarith)

lemma u64_add_guard2:
  assumes "unat b + unat c < 2 ^ 64"
  shows "(a :: u64) > NOT 0 - b - c \<longleftrightarrow> 2 ^ 64 \<le> unat a + unat b + unat c"
proof -
  have "NOT 0 - b - c = NOT 0 - (b + c)" by simp
  moreover have "unat (b + c) = unat b + unat c" using assms by (simp add: unat_plus_if')
  ultimately show ?thesis using u64_add_guard [of "b + c" a] by (simp only: add.assoc)
qed

lemma u64_mul_guard: "b \<noteq> 0 \<Longrightarrow> (a :: u64) > NOT 0 div b \<longleftrightarrow> 2 ^ 64 \<le> unat a * unat b"
proof -
  assume "b \<noteq> 0"
  then have "0 < unat b" by (simp add: unat_gt_0)
  then have "18446744073709551615 div unat b < unat a \<longleftrightarrow> 18446744073709551615 < unat a * unat b"
    by (simp add: div_less_iff_less_mult)
  then show ?thesis by (simp add: word_less_nat_alt unat_div_distrib unat_minus_1_u64, linarith)
qed

lemma unat_mult_u32: "unat (ucast (a :: u32) * ucast (b :: u32) :: u64) = unat a * unat b"
proof -
  have "unat a * unat b \<le> 4294967295 * 4294967295"
    using unat_lt(3) [of a] unat_lt(3) [of b] by (intro mult_le_mono) simp_all
  then show ?thesis by (subst unat_mult_lem [THEN iffD1]) simp_all
qed

end
