(* ===== verification/Strings.thy ===== *)
theory Strings
  imports Prelude
begin

text \<open>
  \<^verbatim>\<open>lib/string.c\<close>, the byte and string routines linked into both the kernel and user
  programs, over a flat memory of \<open>2^64\<close> bytes.  Pointers are 64-bit words, so the
  pointer increments of the loops wrap where the machine wraps, and a routine that
  writes returns the new memory.  Loops over NUL-terminated strings have no bound in
  the source and are partial.
\<close>

type_synonym mem = "u64 \<Rightarrow> u8"

section \<open>Memory blocks\<close>

fun memcmp :: "mem \<Rightarrow> u64 \<Rightarrow> u64 \<Rightarrow> nat \<Rightarrow> int" where
  "memcmp m s1 s2 0 = 0"
| "memcmp m s1 s2 (Suc n) =
     (if m s1 \<noteq> m s2 then uint (m s1) - uint (m s2) else memcmp m (s1 + 1) (s2 + 1) n)"

text \<open>\<^verbatim>\<open>memset\<close> is one \<^verbatim>\<open>rep stosb\<close>; the fill value is the low byte of \<open>c\<close>.\<close>

fun memset :: "mem \<Rightarrow> u64 \<Rightarrow> u32 \<Rightarrow> nat \<Rightarrow> mem" where
  "memset m dst c 0 = m"
| "memset m dst c (Suc n) = memset (m(dst := ucast c)) (dst + 1) c n"

fun memcpy :: "mem \<Rightarrow> u64 \<Rightarrow> u64 \<Rightarrow> nat \<Rightarrow> mem" where
  "memcpy m d s 0 = m"
| "memcpy m d s (Suc n) = memcpy (m(d := m s)) (d + 1) (s + 1) n"

fun memmove_down :: "mem \<Rightarrow> u64 \<Rightarrow> u64 \<Rightarrow> nat \<Rightarrow> mem" where
  "memmove_down m d s 0 = m"
| "memmove_down m d s (Suc n) = memmove_down (m(d - 1 := m (s - 1))) (d - 1) (s - 1) n"

definition memmove :: "mem \<Rightarrow> u64 \<Rightarrow> u64 \<Rightarrow> nat \<Rightarrow> mem" where
  "memmove m dst src n =
     (if src < dst \<and> src + of_nat n > dst
      then memmove_down m (dst + of_nat n) (src + of_nat n) n
      else memcpy m dst src n)"

section \<open>Strings\<close>

fun strncmp :: "mem \<Rightarrow> u64 \<Rightarrow> u64 \<Rightarrow> nat \<Rightarrow> int" where
  "strncmp m p q 0 = 0"
| "strncmp m p q (Suc n) =
     (if m p \<noteq> 0 \<and> m p = m q then strncmp m (p + 1) (q + 1) n
      else uint (m p) - uint (m q))"

partial_function (option) strcmp :: "mem \<Rightarrow> u64 \<Rightarrow> u64 \<Rightarrow> int option" where
  "strcmp m p q =
     (if m p \<noteq> 0 \<and> m p = m q then strcmp m (p + 1) (q + 1)
      else Some (uint (m p) - uint (m q)))"

text \<open>\<^verbatim>\<open>strncpy\<close>: the count is a \<^verbatim>\<open>size_t\<close> and both loops test \<^verbatim>\<open>n-- > 0\<close>, so the
  failing test of the first loop still decrements the count.\<close>

function strncpy_copy :: "mem \<Rightarrow> u64 \<Rightarrow> u64 \<Rightarrow> u64 \<Rightarrow> mem \<times> u64 \<times> u64" where
  "strncpy_copy m s t n =
     (if n = 0 then (m, s, n - 1)
      else let c = m t; m' = m(s := c)
           in if c \<noteq> 0 then strncpy_copy m' (s + 1) (t + 1) (n - 1)
              else (m', s + 1, n - 1))"
  by pat_completeness auto
termination
  by (relation "measure (\<lambda>(m, s, t, n). unat n)") (auto simp: unat_gt_0 unat_minus_one)

function strncpy_pad :: "mem \<Rightarrow> u64 \<Rightarrow> u64 \<Rightarrow> mem" where
  "strncpy_pad m s n = (if n = 0 then m else strncpy_pad (m(s := 0)) (s + 1) (n - 1))"
  by pat_completeness auto
termination
  by (relation "measure (\<lambda>(m, s, n). unat n)") (auto simp: unat_gt_0 unat_minus_one)

declare strncpy_copy.simps [simp del] strncpy_pad.simps [simp del]

definition strncpy :: "mem \<Rightarrow> u64 \<Rightarrow> u64 \<Rightarrow> u64 \<Rightarrow> mem" where
  "strncpy m s t n = (let (m', s', n') = strncpy_copy m s t n in strncpy_pad m' s' n')"

text \<open>\<^verbatim>\<open>safestrcpy\<close>: the count is an \<^verbatim>\<open>int\<close>; \<open>k\<close> is \<open>n - 1\<close>, the number of times
  the guard \<^verbatim>\<open>--n > 0\<close> can hold.\<close>

fun safestrcpy_copy :: "mem \<Rightarrow> u64 \<Rightarrow> u64 \<Rightarrow> nat \<Rightarrow> mem \<times> u64" where
  "safestrcpy_copy m s t 0 = (m, s)"
| "safestrcpy_copy m s t (Suc k) =
     (let c = m t; m' = m(s := c)
      in if c \<noteq> 0 then safestrcpy_copy m' (s + 1) (t + 1) k else (m', s + 1))"

definition safestrcpy :: "mem \<Rightarrow> u64 \<Rightarrow> u64 \<Rightarrow> int \<Rightarrow> mem" where
  "safestrcpy m s t n =
     (if n \<le> 0 then m
      else let (m', s') = safestrcpy_copy m s t (nat n - 1) in m'(s' := 0))"

partial_function (option) strlen_from :: "mem \<Rightarrow> u64 \<Rightarrow> u64 \<Rightarrow> u64 option" where
  "strlen_from m s len = (if m s \<noteq> 0 then strlen_from m (s + 1) (len + 1) else Some len)"

definition strlen :: "mem \<Rightarrow> u64 \<Rightarrow> u64 option" where
  "strlen m s = strlen_from m s 0"

text \<open>\<^verbatim>\<open>strchr\<close> returns the pointer to the first match before the NUL, or \<^verbatim>\<open>NULL\<close>.\<close>

partial_function (option) strchr :: "mem \<Rightarrow> u64 \<Rightarrow> u8 \<Rightarrow> u64 option option" where
  "strchr m p c =
     (if m p \<noteq> 0 then (if m p = c then Some (Some p) else strchr m (p + 1) c)
      else Some None)"

section \<open>Ranges of memory\<close>

definition mem_range :: "mem \<Rightarrow> u64 \<Rightarrow> nat \<Rightarrow> bytes" where
  "mem_range m a n = map (\<lambda>i. m (a + of_nat i)) [0..<n]"

text \<open>The string a routine bounded by \<open>n\<close> sees at \<open>p\<close>: the bytes before the first NUL.\<close>

definition cstr_upto :: "mem \<Rightarrow> u64 \<Rightarrow> nat \<Rightarrow> bytes" where
  "cstr_upto m p n = takeWhile (\<lambda>c. c \<noteq> 0) (mem_range m p n)"

definition in_range :: "u64 \<Rightarrow> nat \<Rightarrow> u64 \<Rightarrow> bool" where
  "in_range a n x \<longleftrightarrow> unat (x - a) < n"

lemma in_rangeE:
  assumes "in_range a n x"
  obtains i where "i < n" "x = a + of_nat i"
proof -
  have "x = a + of_nat (unat (x - a))" by simp
  with assms that show ?thesis by (auto simp: in_range_def)
qed

lemma in_range_offset [simp]: "i < 2 ^ 64 \<Longrightarrow> in_range a n (a + of_nat i) \<longleftrightarrow> i < n"
  by (simp add: in_range_def)

lemma unat_minus_Suc: "x \<noteq> (d :: u64) \<Longrightarrow> unat (x - (d + 1)) = unat (x - d) - 1"
  by (simp add: diff_diff_eq [symmetric] unat_minus_one)

lemma in_range_Suc:
  assumes "n < 2 ^ 64"
  shows "in_range d (Suc n) x \<longleftrightarrow> x = d \<or> in_range (d + 1) n x"
proof (cases "x = d")
  case False
  then have "0 < unat (x - d)" by (simp add: unat_gt_0)
  with False show ?thesis by (auto simp: in_range_def unat_minus_Suc)
qed (simp add: in_range_def)

lemma in_range_top:
  assumes "n < 2 ^ 64"
  shows "in_range d (Suc n) x \<longleftrightarrow> x = d + of_nat n \<or> in_range d n x"
proof -
  have "x = d + of_nat n \<longleftrightarrow> x - d = of_nat n" by (auto simp: algebra_simps)
  also have "\<dots> \<longleftrightarrow> unat (x - d) = n"
    using assms by (simp add: word_unat_eq_iff)
  finally show ?thesis by (auto simp: in_range_def)
qed

lemma mem_range_Suc: "mem_range m a (Suc n) = m a # mem_range m (a + 1) n"
  by (simp add: mem_range_def upt_conv_Cons map_Suc_upt [symmetric] add.assoc del: upt_Suc)

lemma length_mem_range [simp]: "length (mem_range m a n) = n"
  by (simp add: mem_range_def)

lemma cstr_upto_Suc:
  "cstr_upto m p (Suc n) = (if m p \<noteq> 0 then m p # cstr_upto m (p + 1) n else [])"
  by (simp add: cstr_upto_def mem_range_Suc)

lemma cstr_upto_0 [simp]: "cstr_upto m p 0 = []"
  by (simp add: cstr_upto_def mem_range_def)

section \<open>Block copies\<close>

text \<open>A forward copy is right unless the destination starts inside the source, a
  backward copy unless the source starts inside the destination.\<close>

lemma memcpy_forward:
  assumes "n \<le> 2 ^ 64" and "d = s \<or> n \<le> unat (d - s)"
  shows "memcpy m d s n x = (if in_range d n x then m (s + (x - d)) else m x)"
  using assms
proof (induction n arbitrary: m d s)
  case 0
  then show ?case by (simp add: in_range_def)
next
  case (Suc n)
  let ?m = "m(d := m s)"
  have IH: "memcpy ?m (d + 1) (s + 1) n x =
      (if in_range (d + 1) n x then ?m (s + 1 + (x - (d + 1))) else ?m x)"
    using Suc.prems by (intro Suc.IH) auto
  have "?m (s + (x - d)) = m (s + (x - d))" if "in_range (d + 1) n x"
  proof (cases "s + (x - d) = d")
    case True
    then have eq: "x - d = d - s" by (simp add: algebra_simps)
    have "x \<noteq> d" using that Suc.prems(1) by (auto simp: in_range_def unat_minus_1_u64)
    then have "0 < unat (x - d)" "unat (x - d) \<le> n"
      using that by (auto simp: unat_gt_0 in_range_def unat_minus_Suc)
    with eq Suc.prems(2) show ?thesis by auto
  qed simp
  then show ?case
    using IH Suc.prems(1) by (auto simp: in_range_Suc algebra_simps)
qed

lemma memmove_down_backward:
  assumes "n \<le> 2 ^ 64" and "d = s \<or> n \<le> unat (s - d)"
  shows "memmove_down m (d + of_nat n) (s + of_nat n) n x =
    (if in_range d n x then m (s + (x - d)) else m x)"
  using assms
proof (induction n arbitrary: m)
  case 0
  then show ?case by (simp add: in_range_def)
next
  case (Suc n)
  let ?m = "m(d + of_nat n := m (s + of_nat n))"
  have IH: "memmove_down ?m (d + of_nat n) (s + of_nat n) n x =
      (if in_range d n x then ?m (s + (x - d)) else ?m x)"
    using Suc.prems by (intro Suc.IH) auto
  have "?m (s + (x - d)) = m (s + (x - d))" if "in_range d n x"
  proof (cases "s + (x - d) = d + of_nat n")
    case True
    then have "s - d = of_nat n - of_nat (unat (x - d))" by (simp add: algebra_simps)
    also have "\<dots> = of_nat (n - unat (x - d))"
      using that by (simp add: in_range_def of_nat_diff)
    finally have "unat (s - d) = n - unat (x - d)"
      using Suc.prems(1) by simp
    moreover have "unat (x - d) < n" using that by (simp add: in_range_def)
    ultimately have "d = s" using Suc.prems(2) by auto
    with True that Suc.prems(1) show ?thesis by (auto simp: in_range_def)
  qed simp
  then show ?case
    using IH Suc.prems(1) by (auto simp: in_range_top algebra_simps)
qed

text \<open>C24. \<^verbatim>\<open>memmove\<close> copies correctly whether or not the ranges overlap: for ranges
  that do not reach the end of the address space, every destination byte gets the
  value the matching source byte had before the call, and no other byte changes.\<close>

theorem memmove_correct:
  assumes "unat src + n < 2 ^ 64" and "unat dst + n < 2 ^ 64"
  shows "memmove m dst src n x =
    (if in_range dst n x then m (src + (x - dst)) else m x)"
proof (cases "src < dst \<and> src + of_nat n > dst")
  case True
  then have "n \<le> unat (src - dst)"
    using assms by (simp add: unat_sub_if' word_less_nat_alt)
  with True show ?thesis
    using assms by (simp add: memmove_def memmove_down_backward)
next
  case False
  have "unat (src + of_nat n) = unat src + n"
    using assms by (simp add: unat_word_ariths unat_of_nat)
  then have "dst = src \<or> n \<le> unat (dst - src)"
    using assms False by (auto simp: unat_sub_if' word_less_nat_alt word_unat_eq_iff)
  then show ?thesis
    using assms memcpy_forward [of n dst src m x] by (simp only: memmove_def False if_False)
qed

theorem memmove_correct_witness:
  "unat (5 :: u64) + 3 < 2 ^ 64 \<and> unat (6 :: u64) + 3 < 2 ^ 64 \<and>
   memmove (\<lambda>a. ucast a) 6 5 3 7 = 6"
  using memmove_correct [of 5 3 6 "\<lambda>a. ucast a" 7] by (simp add: in_range_def)

section \<open>Bounded comparison\<close>

text \<open>\<^verbatim>\<open>strncmp\<close> returns zero exactly when the two strings, cut at their NUL or
  after \<open>n\<close> bytes, are the same.\<close>

theorem strncmp_zero_iff:
  "strncmp m p q n = 0 \<longleftrightarrow> cstr_upto m p n = cstr_upto m q n"
proof (induction n arbitrary: p q)
  case (Suc n)
  then show ?case by (auto simp: cstr_upto_Suc word_uint_eq_iff)
qed simp

section \<open>Bounded copies\<close>

lemma in_range_shift:
  assumes "k \<le> n" "n < 2 ^ 64"
  shows "in_range (s + of_nat k) (n - k) x \<longleftrightarrow> in_range s n x \<and> \<not> in_range s k x"
proof -
  have "unat (of_nat k :: u64) = k" using assms by simp
  then have "unat (x - (s + of_nat k)) =
      (if k \<le> unat (x - s) then unat (x - s) - k else unat (x - s) + 2 ^ 64 - k)"
    by (simp add: diff_diff_eq [symmetric] unat_sub_if')
  moreover have "unat (x - s) < 2 ^ 64" using unat_lt(4) [of "x - s"] by simp
  ultimately show ?thesis
    using assms by (auto simp: in_range_def)
qed

lemma in_range_mono: "in_range s j x \<Longrightarrow> j \<le> k \<Longrightarrow> in_range s k x"
  by (simp add: in_range_def)

lemma strncpy_pad_eq: "strncpy_pad m s n x = (if in_range s (unat n) x then 0 else m x)"
proof (induction "unat n" arbitrary: m s n)
  case 0
  then have "n = 0" by (simp add: unat_0_iff)
  then show ?case by (simp add: strncpy_pad.simps in_range_def)
next
  case (Suc k)
  then have n: "n \<noteq> 0" by auto
  with Suc(2) have k: "k = unat (n - 1)" by (simp add: unat_minus_one)
  have "k < 2 ^ 64" using Suc(2) unat_lt(4) [of n] by simp
  with n k Suc(2) [symmetric] Suc(1) [OF k, of "m(s := 0)" "s + 1"] show ?case
    by (simp add: strncpy_pad.simps [of m s n] in_range_Suc)
qed

text \<open>The copying loop writes the bytes it visits as \<^verbatim>\<open>memcpy\<close> does; it stops behind
  the NUL, or with the count wrapped to \<open>2^64 - 1\<close>.\<close>

lemma strncpy_copy_stops:
  assumes "k < unat n" "m (t + of_nat k) = 0" "\<forall>i<k. m (t + of_nat i) \<noteq> 0"
    and "s = t \<or> Suc k \<le> unat (s - t)"
  shows "strncpy_copy m s t n = (memcpy m s t (Suc k), s + of_nat (Suc k), n - of_nat (Suc k))"
  using assms
proof (induction k arbitrary: m s t n)
  case 0
  then have "n \<noteq> 0" by auto
  with 0 show ?case by (subst strncpy_copy.simps) (simp add: Let_def)
next
  case (Suc k)
  let ?m = "m(s := m t)"
  have n: "n \<noteq> 0" using Suc.prems(1) by auto
  have k: "Suc k < 2 ^ 64" using Suc.prems(1) unat_lt(4) [of n] by simp
  have keep: "?m (t + 1 + of_nat i) = m (t + of_nat (Suc i))" if "i \<le> k" for i
  proof (cases "s = t + of_nat (Suc i)")
    case True
    then have "unat (s - t) = Suc i"
      using that k unat_of_nat_small(2) [of "Suc i"] by (simp del: of_nat_Suc)
    then show ?thesis using Suc.prems(4) that by auto
  qed (simp add: algebra_simps)
  have "strncpy_copy ?m (s + 1) (t + 1) (n - 1) =
      (memcpy ?m (s + 1) (t + 1) (Suc k), s + 1 + of_nat (Suc k), n - 1 - of_nat (Suc k))"
    using Suc.prems n keep by (intro Suc.IH) (auto simp: unat_minus_one simp del: of_nat_Suc)
  moreover have "m t \<noteq> 0" using Suc.prems(3) [rule_format, of 0] by simp
  ultimately show ?case
    using n by (subst strncpy_copy.simps) (simp add: Let_def algebra_simps)
qed

lemma strncpy_copy_wraps:
  assumes "unat n = k" "\<forall>i<k. m (t + of_nat i) \<noteq> 0" and "s = t \<or> k \<le> unat (s - t)"
  shows "strncpy_copy m s t n = (memcpy m s t k, s + of_nat k, - 1)"
  using assms
proof (induction k arbitrary: m s t n)
  case 0
  then have "n = 0" by (simp add: unat_0_iff)
  then show ?case by (subst strncpy_copy.simps) simp
next
  case (Suc k)
  let ?m = "m(s := m t)"
  have n: "n \<noteq> 0" using Suc.prems(1) by auto
  have k: "Suc k < 2 ^ 64" using Suc.prems(1) unat_lt(4) [of n] by simp
  have keep: "?m (t + 1 + of_nat i) = m (t + of_nat (Suc i))" if "i < k" for i
  proof (cases "s = t + of_nat (Suc i)")
    case True
    then have "unat (s - t) = Suc i"
      using that k unat_of_nat_small(2) [of "Suc i"] by (simp del: of_nat_Suc)
    then show ?thesis using Suc.prems(3) that by auto
  qed (simp add: algebra_simps)
  have "strncpy_copy ?m (s + 1) (t + 1) (n - 1) =
      (memcpy ?m (s + 1) (t + 1) k, s + 1 + of_nat k, - 1)"
    using Suc.prems n keep by (intro Suc.IH) (auto simp: unat_minus_one simp del: of_nat_Suc)
  moreover have "m t \<noteq> 0" using Suc.prems(2) [rule_format, of 0] by simp
  ultimately show ?case
    using n by (subst strncpy_copy.simps) (simp add: Let_def algebra_simps)
qed

text \<open>\<^verbatim>\<open>strncpy\<close> on a source whose NUL is among its first \<open>n\<close> bytes: the
  destination receives the string, is zero-filled up to \<open>n\<close> bytes, and nothing else
  is written.\<close>

theorem strncpy_fits:
  assumes "k < unat n" "m (t + of_nat k) = 0" "\<forall>i<k. m (t + of_nat i) \<noteq> 0"
    and "unat n \<le> unat (s - t)"
  shows "strncpy m s t n x =
    (if in_range s k x then m (t + (x - s)) else if in_range s (unat n) x then 0 else m x)"
proof -
  have k: "Suc k < 2 ^ 64" "k < 2 ^ 64" using assms(1) unat_lt(4) [of n] by simp_all
  have rest: "unat (n - of_nat (Suc k)) = unat n - Suc k"
    using assms(1) k unat_of_nat_small(2) [of "Suc k"] by (simp add: unat_sub word_le_nat_alt del: of_nat_Suc)
  have pad: "in_range (s + of_nat (Suc k)) (unat n - Suc k) x \<longleftrightarrow>
      in_range s (unat n) x \<and> \<not> in_range s (Suc k) x"
    using assms(1) unat_lt(4) [of n] by (intro in_range_shift) simp_all
  have last: "m (t + (x - s)) = 0" if "in_range s (Suc k) x" "\<not> in_range s k x"
    using that assms(2) k by (auto simp: in_range_top)
  have copy: "strncpy_copy m s t n =
      (memcpy m s t (Suc k), s + of_nat (Suc k), n - of_nat (Suc k))"
    by (rule strncpy_copy_stops [OF assms(1-3)]) (use assms(1,4) in linarith)
  have fwd: "memcpy m s t (Suc k) x = (if in_range s (Suc k) x then m (t + (x - s)) else m x)"
    by (rule memcpy_forward) (use assms(1,4) k in linarith)+
  have "strncpy m s t n x =
      (if in_range (s + of_nat (Suc k)) (unat n - Suc k) x then 0
       else if in_range s (Suc k) x then m (t + (x - s)) else m x)"
    by (simp only: strncpy_def strncpy_pad_eq copy Let_def prod.case rest fwd)
  moreover have "in_range s k x \<longrightarrow> in_range s (Suc k) x"
    "in_range s (Suc k) x \<longrightarrow> in_range s (unat n) x"
    using assms(1) by (auto simp: in_range_def)
  ultimately show ?thesis
    using pad last by argo
qed

theorem strncpy_fits_witness:
  "strncpy ((\<lambda>_. 0)(5 := 65)) 100 5 4 100 = 65 \<and> strncpy ((\<lambda>_. 0)(5 := 65)) 100 5 4 103 = 0"
  using strncpy_fits [of 1 4 "(\<lambda>_. 0)(5 := 65)" 5 100 100]
    strncpy_fits [of 1 4 "(\<lambda>_. 0)(5 := 65)" 5 100 103]
  by (simp add: in_range_def)

text \<open>C34. \<^verbatim>\<open>strncpy\<close> on a source with no NUL among its first \<open>n\<close> bytes: the count has
  wrapped when the padding loop starts, which then zeroes the whole address space
  except the last byte copied.\<close>

theorem strncpy_overrun:
  assumes "\<forall>i<unat n. m (t + of_nat i) \<noteq> 0" and "unat n \<le> unat (s - t)"
    and "x \<noteq> s + n - 1"
  shows "strncpy m s t n x = 0"
proof -
  have "in_range (s + n) (unat (- 1 :: u64)) x"
  proof -
    have "x - (s + n) \<noteq> - 1" using assms(3) by (auto simp: algebra_simps)
    then have "unat (x - (s + n)) \<noteq> unat (- 1 :: u64)" by (simp add: word_unat_eq_iff)
    then show ?thesis
      using unat_lt(4) [of "x - (s + n)"] by (simp add: in_range_def unat_minus_1_u64)
  qed
  moreover have "strncpy_copy m s t n = (memcpy m s t (unat n), s + n, - 1)"
    using strncpy_copy_wraps [of n "unat n" m t s] assms(1,2) by simp
  ultimately show ?thesis
    by (simp only: strncpy_def strncpy_pad_eq Let_def prod.case if_True)
qed

theorem strncpy_overrun_witness: "strncpy (\<lambda>_. 65) 100 5 2 7 = 0"
  by (rule strncpy_overrun) simp_all

lemma length_cstr_upto_le: "length (cstr_upto m p n) \<le> n"
  by (metis cstr_upto_def length_mem_range length_takeWhile_le)

lemma cstr_upto_cong:
  "(\<And>i. i < n \<Longrightarrow> m (p + of_nat i) = m' (q + of_nat i)) \<Longrightarrow> cstr_upto m p n = cstr_upto m' q n"
  unfolding cstr_upto_def mem_range_def
  by (rule arg_cong [where f = "takeWhile _"], rule map_cong) simp_all

lemma safestrcpy_copy_eq:
  assumes "k \<le> unat (s - t)"
  shows "safestrcpy_copy m s t k =
    (let L = length (cstr_upto m t k); j = (if L < k then Suc L else L)
     in (memcpy m s t j, s + of_nat j))"
  using assms
proof (induction k arbitrary: m s t)
  case 0
  then show ?case by simp
next
  case (Suc k)
  let ?m = "m(s := m t)"
  have "?m (t + 1 + of_nat i) = m (t + 1 + of_nat i)" if "i < k" for i
  proof (cases "s = t + of_nat (Suc i)")
    case True
    then have "unat (s - t) = Suc i"
      using that Suc.prems unat_lt(4) [of "s - t"] unat_of_nat_small(2) [of "Suc i"]
      by (simp del: of_nat_Suc)
    then show ?thesis using Suc.prems that by simp
  qed (simp add: algebra_simps)
  then have str: "cstr_upto ?m (t + 1) k = cstr_upto m (t + 1) k"
    by (rule cstr_upto_cong)
  have "safestrcpy_copy ?m (s + 1) (t + 1) k =
    (let L = length (cstr_upto ?m (t + 1) k); j = (if L < k then Suc L else L)
     in (memcpy ?m (s + 1) (t + 1) j, s + 1 + of_nat j))"
    using Suc.prems by (intro Suc.IH) simp
  then have "safestrcpy_copy ?m (s + 1) (t + 1) k =
    (let L = length (cstr_upto m (t + 1) k); j = (if L < k then Suc L else L)
     in (memcpy m s t (Suc j), s + of_nat (Suc j)))"
    unfolding str by (simp add: Let_def add.assoc)
  then show ?case
    by (cases "m t = 0") (simp_all add: cstr_upto_Suc Let_def)
qed

lemma cstr_upto_nth:
  assumes "i < length (cstr_upto m p n)"
  shows "cstr_upto m p n ! i = m (p + of_nat i)"
proof -
  have "i < n" using assms length_cstr_upto_le [of m p n] by simp
  then show ?thesis
    using assms by (simp add: cstr_upto_def takeWhile_nth mem_range_def)
qed

text \<open>\<^verbatim>\<open>safestrcpy\<close> always terminates its result: the destination holds the
  source cut to \<open>n - 1\<close> bytes, followed by a NUL, and no byte outside the \<open>n\<close>
  destination bytes changes.\<close>

theorem safestrcpy_correct:
  assumes "0 < n" and "nat n \<le> unat (s - t)"
  shows "let str = cstr_upto m t (nat n - 1); m' = safestrcpy m s t n in
    mem_range m' s (length str) = str \<and> m' (s + of_nat (length str)) = 0 \<and>
    (\<forall>x. \<not> in_range s (nat n) x \<longrightarrow> m' x = m x)"
proof -
  define k L where "k = nat n - 1" and "L = length (cstr_upto m t k)"
  define j where "j = (if L < k then Suc L else L)"
  have n: "nat n = Suc k" using assms(1) by (simp add: k_def)
  have L: "L \<le> k" by (simp add: L_def length_cstr_upto_le)
  have bound: "k < 18446744073709551615"
    using assms(2) n unat_lt(4) [of "s - t"] by simp
  have j: "j \<le> k" "L \<le> j" "j \<le> unat (s - t)"
    using L assms(2) n by (auto simp: j_def)
  have m': "safestrcpy m s t n = (memcpy m s t j)(s + of_nat j := 0)"
    using assms(1,2) n safestrcpy_copy_eq [of k s t m]
    by (simp add: safestrcpy_def k_def [symmetric] L_def [symmetric] j_def [symmetric] Let_def)
  have copied: "memcpy m s t j x = (if in_range s j x then m (t + (x - s)) else m x)" for x
    using j bound by (intro memcpy_forward) simp_all
  have at: "safestrcpy m s t n (s + of_nat i) = m (t + of_nat i)" if "i < j" for i
    using that j bound unat_of_nat_small(2) [of i] unat_of_nat_small(2) [of j]
    by (auto simp: m' copied simp del: unat_of_nat_small dest: arg_cong [where f = unat])
  have "mem_range (safestrcpy m s t n) s L = cstr_upto m t k"
    using j by (intro nth_equalityI) (auto simp: mem_range_def L_def [symmetric] cstr_upto_nth at)
  moreover have "safestrcpy m s t n (s + of_nat L) = 0"
  proof (cases "L < k")
    case True
    then have "m (t + of_nat L) = 0"
      using nth_length_takeWhile [of "\<lambda>c. c \<noteq> 0" "mem_range m t k"]
      by (simp add: L_def cstr_upto_def) (simp add: mem_range_def)
    with True at [of L] show ?thesis by (simp add: j_def)
  qed (simp add: m' j_def)
  moreover have "safestrcpy m s t n x = m x" if "\<not> in_range s (nat n) x" for x
  proof -
    have "\<not> in_range s j x" using that j n in_range_mono [of s j x "nat n"] by auto
    moreover have "x \<noteq> s + of_nat j" using that j n bound by auto
    ultimately show ?thesis by (simp add: m' copied)
  qed
  ultimately show ?thesis by (simp only: k_def [symmetric] L_def [symmetric] Let_def) blast
qed

theorem safestrcpy_correct_witness:
  "safestrcpy (\<lambda>_. 65) 100 5 3 102 = 0 \<and> safestrcpy (\<lambda>_. 65) 100 5 3 103 = 65"
proof -
  have "cstr_upto (\<lambda>_. 65) 5 2 = [65, 65]"
    by (simp add: cstr_upto_def mem_range_def upt_rec)
  then show ?thesis
    using safestrcpy_correct [of 3 100 5 "\<lambda>_. 65"] by (simp add: Let_def in_range_def)
qed

end
