(* ===== verification/Kalloc.thy ===== *)
theory Kalloc
  imports Prelude "HOL-Library.Multiset"
begin

text \<open>
  \<^verbatim>\<open>kern/bootinfo.c\<close> (the loader's memory map), \<^verbatim>\<open>kern/memlayout.h\<close> (the two kernel
  address windows) and \<^verbatim>\<open>kern/kalloc.c\<close>: the physical page allocator with its free
  list threaded through the free pages, the boot code that seeds it from the memory
  map, and the console's contiguous arena.  The spinlock \<^verbatim>\<open>kmem.lock\<close> makes each
  operation one atomic step, so it does not appear in the state.
\<close>

section \<open>The memory map\<close>

record memrange =
  mr_base :: u64
  mr_length :: u64
  mr_type :: u32

abbreviation FNU_MEM_RAM :: u32 where "FNU_MEM_RAM \<equiv> 1"
abbreviation PGSIZE :: u64 where "PGSIZE \<equiv> 4096"
abbreviation SIZE_2M :: u64 where "SIZE_2M \<equiv> 0x200000"
abbreviation MB :: u64 where "MB \<equiv> 1048576"
abbreviation DMAP_BASE :: u64 where "DMAP_BASE \<equiv> 0xffff800000000000"
abbreviation KERNBASE :: u64 where "KERNBASE \<equiv> 0xffffffff80000000"

text \<open>\<^verbatim>\<open>bootinfo_init\<close> keeps the ranges ordered by base with an insertion sort: the
  inner loop moves the entries with a larger base up by one.\<close>

fun insert_range :: "memrange \<Rightarrow> memrange list \<Rightarrow> memrange list" where
  "insert_range t [] = [t]"
| "insert_range t (r # rs) = (if mr_base r > mr_base t then t # r # rs else r # insert_range t rs)"

definition bootinfo_sort :: "memrange list \<Rightarrow> memrange list" where
  "bootinfo_sort rs = fold insert_range rs []"

definition mr_hi :: "memrange \<Rightarrow> u64" where
  "mr_hi r = mr_base r + mr_length r"

definition is_ram :: "memrange \<Rightarrow> bool" where
  "is_ram r \<longleftrightarrow> mr_type r = FNU_MEM_RAM"

definition pgroundup :: "u64 \<Rightarrow> u64" where
  "pgroundup sz = (sz + PGSIZE - 1) AND NOT (PGSIZE - 1)"

definition pgrounddown :: "u64 \<Rightarrow> u64" where
  "pgrounddown a = a AND NOT (PGSIZE - 1)"

definition V2P :: "u64 \<Rightarrow> u64" where
  "V2P va = (if va \<ge> KERNBASE then va - KERNBASE else va - DMAP_BASE)"

definition P2V :: "u64 \<Rightarrow> u64" where
  "P2V a = DMAP_BASE + a"

section \<open>The allocator's state\<close>

text \<open>\<open>k_links v\<close> is the \<^verbatim>\<open>next\<close> field in the first bytes of the page at \<open>v\<close>;
  \<open>k_end\<close> is the linker's symbol \<^verbatim>\<open>end\<close>, the first address behind the kernel.\<close>

record kstate =
  k_end :: u64
  k_links :: "u64 \<Rightarrow> u64"
  k_freelist :: u64
  k_use_lock :: bool
  phys_temporary_top :: u64
  phys_top :: u64
  phys_map_top :: u64
  ram_bytes :: u64
  gpu_backing_mem :: u64
  gpu_backing_phys :: u64
  gpu_reserve_size :: u64
  vmem_phys :: u64
  vmem_size :: u64

definition detect_step :: "memrange \<Rightarrow> u64 \<times> u64 \<Rightarrow> u64 \<times> u64" where
  "detect_step r st = (let (bytes, ram_top) = st in
     if \<not> is_ram r then (bytes, ram_top)
     else (bytes + mr_length r, if mr_hi r > ram_top then mr_hi r else ram_top))"

definition maptop_step :: "u64 \<Rightarrow> memrange \<Rightarrow> u64 \<Rightarrow> u64" where
  "maptop_step ram_top r maptop =
     (if mr_base r \<le> ram_top \<and> mr_hi r > maptop then mr_hi r else maptop)"

definition detect_memory :: "memrange list option \<Rightarrow> kstate \<Rightarrow> kstate option" where
  "detect_memory bi s = (case bi of None \<Rightarrow> None | Some rs \<Rightarrow>
     (let (bytes, ram_top) = fold detect_step rs (ram_bytes s, 0) in
      if ram_top = 0 then None
      else let maptop = fold (maptop_step ram_top) rs ram_top in
        Some (s\<lparr>ram_bytes := bytes, phys_top := ram_top div PGSIZE * PGSIZE,
                phys_map_top := (maptop + SIZE_2M - 1) div SIZE_2M * SIZE_2M\<rparr>)))"

section \<open>The run of RAM around an address\<close>

fun run_first :: "memrange list \<Rightarrow> u64 \<Rightarrow> u64" where
  "run_first [] p = 0"
| "run_first (r # rs) p =
     (if is_ram r \<and> p \<ge> mr_base r \<and> p < mr_hi r then mr_hi r else run_first rs p)"

fun run_pass :: "memrange list \<Rightarrow> u64 \<Rightarrow> bool \<Rightarrow> u64 \<times> bool" where
  "run_pass [] e grew = (e, grew)"
| "run_pass (r # rs) e grew =
     (if \<not> is_ram r \<or> mr_base r > e then run_pass rs e grew
      else if mr_hi r > e then run_pass rs (mr_hi r) True else run_pass rs e grew)"

lemma run_pass_mono: "e \<le> fst (run_pass rs e g)"
proof (induction rs e g rule: run_pass.induct)
  case (2 r rs e g)
  then show ?case by (auto intro: order_trans less_imp_le)
qed simp

lemma run_pass_grew: "\<not> g \<Longrightarrow> snd (run_pass rs e g) \<Longrightarrow> e < fst (run_pass rs e g)"
proof (induction rs e g rule: run_pass.induct)
  case (2 r rs e g)
  then show ?case
    by (auto split: if_splits intro: less_le_trans [OF _ run_pass_mono])
qed simp

function run_grow :: "memrange list \<Rightarrow> u64 \<Rightarrow> u64" where
  "run_grow rs e = (let (e', grew) = run_pass rs e False in if grew then run_grow rs e' else e')"
  by pat_completeness auto
termination
proof (relation "measure (\<lambda>(rs, e). 2 ^ 64 - unat e)")
  fix rs e x e' grew
  assume "x = run_pass rs e False" "(e', grew) = x" "grew"
  then have "e < e'" using run_pass_grew [of False rs e] by (metis fst_conv snd_conv)
  then show "((rs, e'), rs, e) \<in> measure (\<lambda>(rs, e). 2 ^ 64 - unat e)"
    using unat_lt(4) [of e] unat_lt(4) [of e'] by (auto simp: word_less_nat_alt)
qed simp

declare run_grow.simps [simp del]

definition ram_run_end :: "memrange list \<Rightarrow> u64 \<Rightarrow> u64" where
  "ram_run_end rs p = (let e = run_first rs p in if e \<noteq> 0 then run_grow rs e else e)"

section \<open>Pages\<close>

definition kfree_ok :: "kstate \<Rightarrow> u64 \<Rightarrow> bool" where
  "kfree_ok s v \<longleftrightarrow> v mod PGSIZE = 0 \<and> V2P v \<ge> V2P (k_end s) \<and> V2P v < phys_top s"

definition kfree :: "u64 \<Rightarrow> kstate \<Rightarrow> kstate option" where
  "kfree v s =
     (if \<not> kfree_ok s v then None
      else Some (s\<lparr>k_links := (k_links s)(v := k_freelist s), k_freelist := v\<rparr>))"

definition freelist_sane :: "kstate \<Rightarrow> u64 \<Rightarrow> bool" where
  "freelist_sane s r \<longleftrightarrow> r mod PGSIZE = 0 \<and> r \<ge> DMAP_BASE \<and>
     V2P r \<ge> V2P (k_end s) \<and> V2P r < phys_top s"

definition kalloc :: "kstate \<Rightarrow> (u64 \<times> kstate) option" where
  "kalloc s = (let r = k_freelist s in
     if r = 0 then Some (r, s)
     else if k_links s r \<noteq> 0 \<and> \<not> freelist_sane s (k_links s r) then None
     else Some (r, s\<lparr>k_freelist := k_links s r\<rparr>))"

partial_function (option) count_free :: "(u64 \<Rightarrow> u64) \<Rightarrow> u64 \<Rightarrow> u64 \<Rightarrow> u64 option" where
  "count_free links r n = (if r \<noteq> 0 then count_free links (links r) (n + 1) else Some n)"

definition get_free_ram :: "kstate \<Rightarrow> u64 option" where
  "get_free_ram s = do { n \<leftarrow> count_free (k_links s) (k_freelist s) 0; Some (n * PGSIZE) }"

partial_function (option) freerange_loop :: "u64 \<Rightarrow> u64 \<Rightarrow> kstate \<Rightarrow> kstate option" where
  "freerange_loop p vend s =
     (if p + PGSIZE \<le> vend
      then do { s \<leftarrow> kfree p s; freerange_loop (p + PGSIZE) vend s }
      else Some s)"

definition freerange :: "u64 \<Rightarrow> u64 \<Rightarrow> kstate \<Rightarrow> kstate option" where
  "freerange vstart vend s = freerange_loop (pgroundup vstart) vend s"

section \<open>Boot\<close>

definition vmem_reserve :: "kstate \<Rightarrow> kstate" where
  "vmem_reserve s =
     (let arena = ram_bytes s div 16;
          arena = (if arena < 8 * MB then 8 * MB else arena);
          arena = (if arena > 64 * MB then 64 * MB else arena);
          arena = (arena + SIZE_2M - 1) div SIZE_2M * SIZE_2M
      in if phys_top s \<le> phys_temporary_top s + arena + 16 * MB then s
         else s\<lparr>phys_top := phys_top s - arena, vmem_phys := phys_top s - arena,
                vmem_size := arena\<rparr>)"

definition kinit1 :: "memrange list option \<Rightarrow> u64 \<Rightarrow> kstate \<Rightarrow> kstate option" where
  "kinit1 bi vstart s = do {
     s \<leftarrow> detect_memory bi (s\<lparr>k_use_lock := False\<rparr>);
     let s = vmem_reserve s;
     let end_phys = pgroundup (V2P vstart);
     let run = ram_run_end (the bi) end_phys;
     if run = 0 then None else do {
       let tmp_top = phys_temporary_top s;
       let tmp_top = (if tmp_top < end_phys + 4 * MB then end_phys + 4 * MB else tmp_top);
       let tmp_top = (if tmp_top > run then run else tmp_top);
       let s = s\<lparr>phys_temporary_top := tmp_top\<rparr>;
       if tmp_top \<le> end_phys + PGSIZE then None
       else freerange vstart (P2V tmp_top) s } }"

text \<open>\<^verbatim>\<open>kinit2\<close>: reserve the GPU backing store if it fits (16 MB, else 4 MB), then hand
  out the rest of RAM.\<close>

definition gpu_reserve :: "u64 \<Rightarrow> kstate \<Rightarrow> kstate option" where
  "gpu_reserve want s =
     (if phys_top s \<le> phys_temporary_top s + want * 2 then None
      else Some (s\<lparr>phys_top := phys_top s - want, gpu_reserve_size := want,
                   gpu_backing_phys := phys_top s - want,
                   gpu_backing_mem := P2V (phys_top s - want)\<rparr>))"

fun kinit2_ranges :: "memrange list \<Rightarrow> kstate \<Rightarrow> kstate option" where
  "kinit2_ranges [] s = Some s"
| "kinit2_ranges (r # rs) s =
     (if \<not> is_ram r then kinit2_ranges rs s
      else let lo = (if mr_base r < phys_temporary_top s then phys_temporary_top s else mr_base r);
               hi = (if mr_hi r > phys_top s then phys_top s else mr_hi r)
           in if lo < hi
              then do { s \<leftarrow> freerange (P2V lo) (P2V hi) s; kinit2_ranges rs s }
              else kinit2_ranges rs s)"

definition kinit2 :: "memrange list \<Rightarrow> kstate \<Rightarrow> kstate option" where
  "kinit2 rs s = do {
     let s = (case gpu_reserve (16 * MB) s of Some s' \<Rightarrow> s' | None \<Rightarrow>
               (case gpu_reserve (4 * MB) s of Some s' \<Rightarrow> s' | None \<Rightarrow> s));
     s \<leftarrow> kinit2_ranges rs s;
     Some (s\<lparr>k_use_lock := True\<rparr>) }"

definition gpu_alloc_backing :: "u32 \<Rightarrow> kstate \<Rightarrow> (u64 \<times> u64) option" where
  "gpu_alloc_backing sz s =
     (if gpu_backing_mem s \<noteq> 0 \<and> (sz = 0 \<or> ucast sz \<le> gpu_reserve_size s)
      then Some (gpu_backing_mem s, gpu_backing_phys s) else None)"

section \<open>The console arena\<close>

text \<open>The arena is a list of blocks, each with a 64-byte header (\<^verbatim>\<open>VMEM_HDR\<close>) that
  holds its size and whether it is used; list order is the \<^verbatim>\<open>next\<close> chain.\<close>

record vmem_block =
  vb_addr :: u64
  vb_size :: u64
  vb_used :: bool

record vmem_arena =
  vmem_base :: u64
  vmem_blocks :: "vmem_block list"

abbreviation VMEM_HDR :: u64 where "VMEM_HDR \<equiv> 64"
abbreviation VMEM_ALIGN :: u64 where "VMEM_ALIGN \<equiv> 4096"

definition vmem_init :: "u64 \<Rightarrow> u64 \<Rightarrow> vmem_arena" where
  "vmem_init base sz =
     \<lparr>vmem_base = base, vmem_blocks = [\<lparr>vb_addr = base, vb_size = sz, vb_used = False\<rparr>]\<rparr>"

definition vmem_setup :: "kstate \<Rightarrow> vmem_arena \<Rightarrow> vmem_arena" where
  "vmem_setup s a = (if vmem_phys s \<noteq> 0 then vmem_init (P2V (vmem_phys s)) (vmem_size s) else a)"

definition vmem_need :: "u64 \<Rightarrow> u64" where
  "vmem_need bytes = (VMEM_HDR + bytes + VMEM_ALIGN - 1) AND NOT (VMEM_ALIGN - 1)"

fun vmem_scan :: "u64 \<Rightarrow> vmem_block list \<Rightarrow> (u64 \<times> vmem_block list) option" where
  "vmem_scan need [] = None"
| "vmem_scan need (b # bs) =
     (if vb_used b \<or> vb_size b < need
      then map_option (\<lambda>(p, bs'). (p, b # bs')) (vmem_scan need bs)
      else if vb_size b \<ge> need + VMEM_ALIGN * 2
      then Some (vb_addr b + VMEM_HDR,
             b\<lparr>vb_size := need, vb_used := True\<rparr> #
             \<lparr>vb_addr = vb_addr b + need, vb_size = vb_size b - need, vb_used = False\<rparr> # bs)
      else Some (vb_addr b + VMEM_HDR, b\<lparr>vb_used := True\<rparr> # bs))"

definition vmem_alloc :: "u64 \<Rightarrow> vmem_arena \<Rightarrow> u64 \<times> vmem_arena" where
  "vmem_alloc bytes a =
     (if vmem_base a = 0 \<or> bytes = 0 then (0, a)
      else case vmem_scan (vmem_need bytes) (vmem_blocks a) of
        None \<Rightarrow> (0, a) | Some (p, bs) \<Rightarrow> (p, a\<lparr>vmem_blocks := bs\<rparr>))"

text \<open>One pass over the list, merging each run of free neighbours into its first block.\<close>

fun coalesce :: "vmem_block list \<Rightarrow> vmem_block list" where
  "coalesce [] = []"
| "coalesce [b] = [b]"
| "coalesce (b # n # bs) =
     (if \<not> vb_used b \<and> \<not> vb_used n then coalesce (b\<lparr>vb_size := vb_size b + vb_size n\<rparr> # bs)
      else b # coalesce (n # bs))"

text \<open>A pointer that no block owns makes C write outside the list of headers: no result.\<close>

definition vmem_free :: "u64 \<Rightarrow> vmem_arena \<Rightarrow> vmem_arena option" where
  "vmem_free p a =
     (if p = 0 \<or> vmem_base a = 0 then Some a
      else if \<exists>b\<in>set (vmem_blocks a). vb_addr b = p - VMEM_HDR
      then Some (a\<lparr>vmem_blocks := coalesce
             (map (\<lambda>b. if vb_addr b = p - VMEM_HDR then b\<lparr>vb_used := False\<rparr> else b)
                  (vmem_blocks a))\<rparr>)
      else None)"

section \<open>The page pool as an interface\<close>

text \<open>What the clients of the page allocator (process stacks, page tables, pipes, user
  memory) rely on.  \<open>rep s xs\<close>: the pages that are free in state \<open>s\<close>, in the order they
  will be handed out.\<close>

inductive pool_step ::
  "('s \<Rightarrow> (u64 \<times> 's) option) \<Rightarrow> (u64 \<Rightarrow> 's \<Rightarrow> 's option) \<Rightarrow>
   's \<times> u64 set \<Rightarrow> 's \<times> u64 set \<Rightarrow> bool"
  for alloc free where
  take_page: "alloc s = Some (p, s') \<Longrightarrow> p \<noteq> 0 \<Longrightarrow>
     pool_step alloc free (s, held) (s', insert p held)"
| no_page: "alloc s = Some (0, s') \<Longrightarrow> pool_step alloc free (s, held) (s', held)"
| give_page: "p \<in> held \<Longrightarrow> free p s = Some s' \<Longrightarrow>
     pool_step alloc free (s, held) (s', held - {p})"

inductive_cases pool_stepE: "pool_step alloc free (s, held) t"

locale page_pool =
  fixes alloc :: "'s \<Rightarrow> (u64 \<times> 's) option"
    and free :: "u64 \<Rightarrow> 's \<Rightarrow> 's option"
    and rep :: "'s \<Rightarrow> u64 list \<Rightarrow> bool"
    and ok :: "'s \<Rightarrow> u64 \<Rightarrow> bool"
  assumes alloc_nil: "rep s [] \<Longrightarrow> alloc s = Some (0, s)"
    and alloc_cons: "rep s (x # xs) \<Longrightarrow> \<exists>s'. alloc s = Some (x, s') \<and> rep s' xs \<and> ok s' = ok s"
    and free_push: "rep s xs \<Longrightarrow> ok s v \<Longrightarrow> v \<notin> set xs \<Longrightarrow>
      \<exists>s'. free v s = Some s' \<and> rep s' (v # xs) \<and> ok s' = ok s"
    and rep_ok: "rep s xs \<Longrightarrow> distinct xs \<and> (\<forall>x\<in>set xs. ok s x \<and> x \<noteq> 0)"
begin

text \<open>Pages in use and free pages partition the pages the pool started with.\<close>

definition pool_inv :: "'s \<Rightarrow> u64 list \<Rightarrow> 's \<times> u64 set \<Rightarrow> bool" where
  "pool_inv s0 xs0 = (\<lambda>(s, held). ok s = ok s0 \<and>
     (\<exists>xs. rep s xs \<and> set xs \<inter> held = {} \<and> set xs \<union> held = set xs0))"

lemma pool_inv_start: "rep s0 xs0 \<Longrightarrow> pool_inv s0 xs0 (s0, {})"
  by (auto simp: pool_inv_def)

lemma pool_inv_step:
  assumes start: "rep s0 xs0" and inv: "pool_inv s0 xs0 st"
    and step: "pool_step alloc free st st'"
  shows "pool_inv s0 xs0 st'"
  using step inv
proof (cases rule: pool_step.cases)
  case (take_page s p s' held)
  with inv obtain xs where xs: "ok s = ok s0" "rep s xs" "set xs \<inter> held = {}" "set xs \<union> held = set xs0"
    by (auto simp: pool_inv_def)
  with take_page obtain ys where ys: "xs = p # ys" "rep s' ys" "ok s' = ok s"
    using alloc_nil alloc_cons by (cases xs) fastforce+
  with xs rep_ok [OF xs(2)] take_page show ?thesis by (auto simp: pool_inv_def)
next
  case (no_page s s' held)
  with inv obtain xs where xs: "ok s = ok s0" "rep s xs" "set xs \<inter> held = {}" "set xs \<union> held = set xs0"
    by (auto simp: pool_inv_def)
  with no_page have "xs = []" using alloc_cons rep_ok [OF xs(2)] by (cases xs) fastforce+
  with xs no_page alloc_nil show ?thesis by (auto simp: pool_inv_def)
next
  case (give_page p held s s')
  with inv obtain xs where xs: "ok s = ok s0" "rep s xs" "set xs \<inter> held = {}" "set xs \<union> held = set xs0"
    by (auto simp: pool_inv_def)
  have "ok s p" "p \<notin> set xs" using rep_ok [OF start] xs give_page by auto
  from free_push [OF xs(2) this] give_page have "rep s' (p # xs)" "ok s' = ok s" by auto
  with xs give_page show ?thesis
    by (auto simp: pool_inv_def intro!: exI [of _ "p # xs"])
qed

lemma pool_inv_reachable:
  assumes "rep s0 xs0" "(pool_step alloc free)\<^sup>*\<^sup>* (s0, {}) st"
  shows "pool_inv s0 xs0 st"
  using assms(2) by (induction rule: rtranclp_induct)
    (use assms(1) pool_inv_start pool_inv_step in blast)+

lemma pool_exclusive:
  assumes "rep s0 xs0" "(pool_step alloc free)\<^sup>*\<^sup>* (s0, {}) (s, held)"
  shows "held \<subseteq> set xs0" "\<exists>p s'. alloc s = Some (p, s') \<and> (p \<noteq> 0 \<longrightarrow> p \<in> set xs0 - held)"
    "p \<in> held \<Longrightarrow> \<exists>s'. free p s = Some s'"
proof -
  from pool_inv_reachable [OF assms] obtain xs where
    xs: "ok s = ok s0" "rep s xs" "set xs \<inter> held = {}" "set xs \<union> held = set xs0"
    by (auto simp: pool_inv_def)
  show "held \<subseteq> set xs0" using xs(4) by auto
  show "\<exists>p s'. alloc s = Some (p, s') \<and> (p \<noteq> 0 \<longrightarrow> p \<in> set xs0 - held)"
    using alloc_nil alloc_cons xs by (cases xs) fastforce+
  show "\<exists>s'. free p s = Some s'" if "p \<in> held"
    using free_push [OF xs(2)] rep_ok [OF assms(1)] that xs by fastforce
qed

end

section \<open>The free list implements the page pool\<close>

fun chain :: "(u64 \<Rightarrow> u64) \<Rightarrow> u64 \<Rightarrow> u64 list \<Rightarrow> bool" where
  "chain links r [] = (r = 0)"
| "chain links r (x # xs) = (r = x \<and> x \<noteq> 0 \<and> chain links (links x) xs)"

definition kmem_rep :: "kstate \<Rightarrow> u64 list \<Rightarrow> bool" where
  "kmem_rep s xs \<longleftrightarrow> chain (k_links s) (k_freelist s) xs \<and> distinct xs \<and>
     (\<forall>x\<in>set xs. freelist_sane s x)"

lemma chain_upd [simp]: "v \<notin> set xs \<Longrightarrow> chain (links(v := w)) r xs = chain links r xs"
  by (induction xs arbitrary: r) auto

lemma freelist_sane_nonzero: "freelist_sane s x \<Longrightarrow> x \<noteq> 0"
  by (auto simp: freelist_sane_def)

lemma freelist_sane_frame [simp]:
  "freelist_sane (s\<lparr>k_links := l, k_freelist := f\<rparr>) = freelist_sane s"
  "freelist_sane (s\<lparr>k_freelist := f\<rparr>) = freelist_sane s"
  "freelist_sane (s\<lparr>k_links := l\<rparr>) = freelist_sane s"
  by (auto simp: freelist_sane_def fun_eq_iff)

lemma freelist_sane_kfree_ok: "freelist_sane s v \<Longrightarrow> kfree_ok s v"
  by (simp add: freelist_sane_def kfree_ok_def)

interpretation kmem: page_pool kalloc kfree kmem_rep freelist_sane
proof unfold_locales
  fix s assume "kmem_rep s []"
  then show "kalloc s = Some (0, s)" by (simp add: kmem_rep_def kalloc_def)
next
  fix s x xs assume rep: "kmem_rep s (x # xs)"
  then have "k_links s x = 0 \<or> freelist_sane s (k_links s x)"
    by (cases xs) (auto simp: kmem_rep_def)
  with rep show "\<exists>s'. kalloc s = Some (x, s') \<and> kmem_rep s' xs \<and> freelist_sane s' = freelist_sane s"
    by (auto simp: kmem_rep_def kalloc_def Let_def)
next
  fix s xs v assume "kmem_rep s xs" "freelist_sane s v" "v \<notin> set xs"
  then show "\<exists>s'. kfree v s = Some s' \<and> kmem_rep s' (v # xs) \<and> freelist_sane s' = freelist_sane s"
    by (auto simp: kmem_rep_def kfree_def freelist_sane_kfree_ok freelist_sane_nonzero)
next
  fix s xs assume "kmem_rep s xs"
  then show "distinct xs \<and> (\<forall>x\<in>set xs. freelist_sane s x \<and> x \<noteq> 0)"
    using freelist_sane_nonzero by (auto simp: kmem_rep_def)
qed


definition demo_kmem :: kstate where
  "demo_kmem = \<lparr>k_end = KERNBASE + 0x200000,
     k_links = (\<lambda>_. 0)(P2V 0x400000 := P2V 0x401000), k_freelist = P2V 0x400000,
     k_use_lock = False, phys_temporary_top = 0x500000, phys_top = 0x800000,
     phys_map_top = 0x800000, ram_bytes = 0x800000, gpu_backing_mem = 0,
     gpu_backing_phys = 0, gpu_reserve_size = 0, vmem_phys = 0, vmem_size = 0\<rparr>"

lemma demo_kmem_rep: "kmem_rep demo_kmem [P2V 0x400000, P2V 0x401000]"
  by (simp add: kmem_rep_def demo_kmem_def freelist_sane_def P2V_def V2P_def)

lemma demo_kalloc:
  "kalloc demo_kmem = Some (P2V 0x400000, demo_kmem\<lparr>k_freelist := P2V 0x401000\<rparr>)"
  by (simp add: kalloc_def demo_kmem_def freelist_sane_def P2V_def V2P_def)


text \<open>The free-page count walks the same chain.\<close>

lemma count_free_chain: "chain links r xs \<Longrightarrow> count_free links r n = Some (n + of_nat (length xs))"
proof (induction xs arbitrary: r n)
  case Nil
  then show ?case by (subst count_free.simps) simp
next
  case (Cons x xs)
  then show ?case by (subst count_free.simps) (simp add: add.assoc)
qed

lemma get_free_ram_rep: "kmem_rep s xs \<Longrightarrow> get_free_ram s = Some (of_nat (length xs) * PGSIZE)"
  using count_free_chain [of "k_links s" "k_freelist s" xs 0]
  by (simp add: get_free_ram_def kmem_rep_def)

section \<open>The memory map and the run of RAM\<close>

lemma mset_insert_range [simp]: "mset (insert_range t rs) = add_mset t (mset rs)"
  by (induction rs) auto

lemma set_insert_range [simp]: "set (insert_range t rs) = insert t (set rs)"
  by (induction rs) auto

lemma sorted_insert_range:
  "sorted (map mr_base rs) \<Longrightarrow> sorted (map mr_base (insert_range t rs))"
  by (induction rs) (auto simp: not_less intro: less_imp_le)

lemma bootinfo_sort_gen:
  "sorted (map mr_base acc) \<Longrightarrow> sorted (map mr_base (fold insert_range rs acc)) \<and>
     mset (fold insert_range rs acc) = mset rs + mset acc"
  by (induction rs arbitrary: acc) (auto simp: sorted_insert_range)

text \<open>The loader's memory map comes out of \<^verbatim>\<open>bootinfo_init\<close> ordered by base address
  (which the direct map of \<^verbatim>\<open>kvmalloc\<close> needs), with the same ranges.\<close>

theorem bootinfo_sort_correct:
  "sorted (map mr_base (bootinfo_sort rs)) \<and> mset (bootinfo_sort rs) = mset rs"
  using bootinfo_sort_gen [of "[]" rs] by (simp add: bootinfo_sort_def)

definition ram_at :: "memrange list \<Rightarrow> u64 \<Rightarrow> bool" where
  "ram_at rs x \<longleftrightarrow> (\<exists>r\<in>set rs. is_ram r \<and> mr_base r \<le> x \<and> x < mr_hi r)"

lemma run_first_cases:
  "(\<not> ram_at rs p \<and> run_first rs p = 0) \<or>
   (\<exists>r\<in>set rs. is_ram r \<and> mr_base r \<le> p \<and> p < mr_hi r \<and> run_first rs p = mr_hi r)"
  by (induction rs) (auto simp: ram_at_def)

lemma run_pass_covered:
  assumes "\<forall>x. p \<le> x \<and> x < e \<longrightarrow> ram_at qs x" "set rs \<subseteq> set qs"
  shows "\<forall>x. p \<le> x \<and> x < fst (run_pass rs e g) \<longrightarrow> ram_at qs x"
  using assms
proof (induction rs e g rule: run_pass.induct)
  case (2 r rs e g)
  have "\<forall>x. p \<le> x \<and> x < mr_hi r \<longrightarrow> ram_at qs x" if "is_ram r" "mr_base r \<le> e"
  proof (intro allI impI)
    fix x assume x: "p \<le> x \<and> x < mr_hi r"
    show "ram_at qs x"
      using x "2.prems" that by (cases "x < e") (auto simp: ram_at_def not_less)
  qed
  with 2 show ?case by (auto simp: not_less)
qed simp

lemma run_pass_stable:
  "run_pass rs e False = (e', False) \<Longrightarrow>
     e' = e \<and> (\<forall>r\<in>set rs. is_ram r \<and> mr_base r \<le> e \<longrightarrow> mr_hi r \<le> e)"
proof (induction rs arbitrary: e)
  case (Cons r rs)
  have "snd (run_pass rs x True)" for x by (induction rs arbitrary: x) auto
  with Cons show ?case
    by (auto simp: not_less not_le split: if_splits) (metis snd_conv)+
qed simp

lemma run_grow_correct:
  assumes "\<forall>x. p \<le> x \<and> x < e \<longrightarrow> ram_at rs x"
  shows "e \<le> run_grow rs e \<and> (\<forall>x. p \<le> x \<and> x < run_grow rs e \<longrightarrow> ram_at rs x) \<and>
    (\<forall>r\<in>set rs. is_ram r \<and> mr_base r \<le> run_grow rs e \<longrightarrow> mr_hi r \<le> run_grow rs e)"
  using assms
proof (induction rs e rule: run_grow.induct)
  case (1 rs e)
  obtain e' g where pass: "run_pass rs e False = (e', g)" by (cases "run_pass rs e False")
  have cov: "\<forall>x. p \<le> x \<and> x < e' \<longrightarrow> ram_at rs x" and le: "e \<le> e'"
    using run_pass_covered [OF "1.prems", of rs False] run_pass_mono [of e rs False] pass by auto
  show ?case
  proof (cases g)
    case True
    with "1.IH" pass cov have "e' \<le> run_grow rs e' \<and>
        (\<forall>x. p \<le> x \<and> x < run_grow rs e' \<longrightarrow> ram_at rs x) \<and>
        (\<forall>r\<in>set rs. is_ram r \<and> mr_base r \<le> run_grow rs e' \<longrightarrow> mr_hi r \<le> run_grow rs e')"
      by simp
    moreover have "run_grow rs e = run_grow rs e'"
      using pass True by (simp add: run_grow.simps [of rs e])
    ultimately show ?thesis using le by auto
  next
    case False
    then have "run_grow rs e = e" using pass run_pass_stable [of rs e e']
      by (simp add: run_grow.simps [of rs e])
    with False pass run_pass_stable [of rs e e'] "1.prems" show ?thesis by auto
  qed
qed

text \<open>C36. \<^verbatim>\<open>ram_run_end\<close> finds the end of the run of RAM around \<open>p\<close>, for any memory map:
  0 exactly when \<open>p\<close> is in no RAM range, and otherwise an address above \<open>p\<close> such that
  every address from \<open>p\<close> up to it is RAM and no RAM range continues past it.\<close>

theorem ram_run_end_correct:
  "if ram_at rs p
   then p < ram_run_end rs p \<and> (\<forall>x. p \<le> x \<and> x < ram_run_end rs p \<longrightarrow> ram_at rs x) \<and>
     (\<forall>r\<in>set rs. is_ram r \<and> mr_base r \<le> ram_run_end rs p \<longrightarrow> mr_hi r \<le> ram_run_end rs p)
   else ram_run_end rs p = 0"
proof (cases "ram_at rs p")
  case True
  with run_first_cases [of rs p] obtain r where r: "r \<in> set rs" "is_ram r" "mr_base r \<le> p"
    "p < mr_hi r" "run_first rs p = mr_hi r" by (auto simp: ram_at_def)
  then have "\<forall>x. p \<le> x \<and> x < mr_hi r \<longrightarrow> ram_at rs x" by (auto simp: ram_at_def)
  moreover have "mr_hi r \<noteq> 0" using r(4) by auto
  ultimately show ?thesis
    using True r run_grow_correct [of p "mr_hi r" rs]
    by (auto simp: ram_run_end_def intro: less_le_trans)
next
  case False
  with run_first_cases [of rs p] show ?thesis by (auto simp: ram_run_end_def ram_at_def)
qed

theorem ram_run_end_correct_witness:
  "ram_at [\<lparr>mr_base = 0x1000, mr_length = 0x1000, mr_type = 1\<rparr>] 0x1800 \<and>
   0x1800 < ram_run_end [\<lparr>mr_base = 0x1000, mr_length = 0x1000, mr_type = 1\<rparr>] 0x1800"
proof -
  have "ram_at [\<lparr>mr_base = 0x1000, mr_length = 0x1000, mr_type = 1\<rparr>] 0x1800"
    by (simp add: ram_at_def is_ram_def mr_hi_def)
  with ram_run_end_correct [of "[\<lparr>mr_base = 0x1000, mr_length = 0x1000, mr_type = 1\<rparr>]" "0x1800"]
  show ?thesis by simp
qed

section \<open>Correctness of the arena\<close>

text \<open>The blocks tile the arena: each starts where the one before it ends.\<close>

fun tiles :: "nat \<Rightarrow> vmem_block list \<Rightarrow> nat \<Rightarrow> bool" where
  "tiles a [] e = (a = e)"
| "tiles a (b # bs) e =
     (unat (vb_addr b) = a \<and> 0 < vb_size b \<and> tiles (a + unat (vb_size b)) bs e)"

fun coalesced :: "vmem_block list \<Rightarrow> bool" where
  "coalesced (b # n # bs) = ((vb_used b \<or> vb_used n) \<and> coalesced (n # bs))"
| "coalesced _ = True"

definition arena_ok :: "nat \<Rightarrow> vmem_arena \<Rightarrow> bool" where
  "arena_ok e a \<longleftrightarrow> vmem_base a \<noteq> 0 \<and> e < 2 ^ 64 \<and> vmem_blocks a \<noteq> [] \<and>
     tiles (unat (vmem_base a)) (vmem_blocks a) e"

definition used_blocks :: "vmem_arena \<Rightarrow> vmem_block set" where
  "used_blocks a = set (filter vb_used (vmem_blocks a))"

lemma tiles_le: "tiles a bs e \<Longrightarrow> a \<le> e"
  by (induction a bs e rule: tiles.induct) auto

lemma tiles_append: "tiles a (xs @ ys) e \<longleftrightarrow> (\<exists>m. tiles a xs m \<and> tiles m ys e)"
  by (induction xs arbitrary: a) auto

lemma tiles_addr: "tiles a bs e \<Longrightarrow> b \<in> set bs \<Longrightarrow> a \<le> unat (vb_addr b) \<and> unat (vb_addr b) + unat (vb_size b) \<le> e"
proof (induction a bs e rule: tiles.induct)
  case (2 a b' bs e)
  then show ?case using tiles_le [of "a + unat (vb_size b')" bs e] by auto
qed simp

text \<open>The scan either fails or splits the list at the first free block that is large
  enough, \<open>b\<close>, and replaces \<open>b\<close> by a used block and perhaps a free rest.\<close>

definition carve :: "u64 \<Rightarrow> vmem_block \<Rightarrow> vmem_block list" where
  "carve need b =
     (if vb_size b \<ge> need + VMEM_ALIGN * 2
      then [b\<lparr>vb_size := need, vb_used := True\<rparr>,
            \<lparr>vb_addr = vb_addr b + need, vb_size = vb_size b - need, vb_used = False\<rparr>]
      else [b\<lparr>vb_used := True\<rparr>])"

lemma vmem_scan_Some:
  "vmem_scan need bs = Some (p, bs') \<Longrightarrow>
     \<exists>pre b post. bs = pre @ b # post \<and> \<not> vb_used b \<and> need \<le> vb_size b \<and>
       p = vb_addr b + VMEM_HDR \<and> bs' = pre @ carve need b @ post"
proof (induction bs arbitrary: p bs')
  case (Cons b bs)
  show ?case
  proof (cases "vb_used b \<or> vb_size b < need")
    case True
    with Cons.prems obtain q bs'' where "vmem_scan need bs = Some (q, bs'')" "p = q" "bs' = b # bs''"
      by auto
    with Cons.IH show ?thesis by (metis append_Cons)
  next
    case False
    then have "p = vb_addr b + VMEM_HDR \<and> bs' = carve need b @ bs"
      using Cons.prems by (auto simp: carve_def split: if_splits)
    with False show ?thesis
      by (intro exI [of _ "[]"] exI [of _ b] exI [of _ bs]) (simp add: not_less)
  qed
qed simp

lemma tiles_carve:
  assumes t: "tiles a (b # bs) e" and e: "e < 2 ^ 64" and need: "need \<le> vb_size b" "0 < need"
    "unat need < 2 ^ 63"
  shows "tiles a (carve need b @ bs) e"
proof (cases "vb_size b \<ge> need + VMEM_ALIGN * 2")
  case True
  have le: "a + unat (vb_size b) \<le> e" using t tiles_le by auto
  have n: "unat need \<le> unat (vb_size b)" using need(1) by (simp add: word_le_nat_alt)
  have "unat (vb_addr b + need) = a + unat need"
    using t e le n by (simp add: unat_plus_if')
  moreover have "unat (vb_size b - need) = unat (vb_size b) - unat need"
    using need(1) by (rule unat_sub)
  moreover have "unat need < unat (vb_size b)"
  proof -
    have "unat (need + VMEM_ALIGN * 2) = unat need + 8192"
      using need(3) by (simp add: unat_plus_if')
    then show ?thesis using True by (simp add: word_le_nat_alt)
  qed
  ultimately show ?thesis
    using t need(2) n True by (simp add: carve_def word_less_nat_alt)
next
  case False
  then show ?thesis using t by (simp add: carve_def)
qed

lemma vmem_need_bounds:
  assumes "unat bytes < 2 ^ 62"
  shows "unat bytes + 64 \<le> unat (vmem_need bytes)" "unat (vmem_need bytes) < 2 ^ 63"
    "0 < vmem_need bytes" "unat (vmem_need bytes) mod 4096 = 0"
proof -
  have sum: "unat (VMEM_HDR + bytes + VMEM_ALIGN - 1) = unat bytes + 4159"
  proof -
    have "VMEM_HDR + bytes + VMEM_ALIGN - 1 = bytes + 4159" by simp
    moreover have "unat bytes + 4159 < 18446744073709551616" using assms by simp
    ultimately show ?thesis by (simp add: unat_plus_if')
  qed
  have eq: "unat (vmem_need bytes) = (unat bytes + 4159) div 4096 * 4096"
    unfolding vmem_need_def unat_page_mask sum ..
  show low: "unat bytes + 64 \<le> unat (vmem_need bytes)" unfolding eq by linarith
  then show "0 < vmem_need bytes" by (simp add: word_less_nat_alt)
  have "unat (vmem_need bytes) \<le> unat bytes + 4159" unfolding eq by simp
  then show "unat (vmem_need bytes) < 2 ^ 63" using assms by simp
  show "unat (vmem_need bytes) mod 4096 = 0" unfolding eq by simp
qed

lemma tiles_distinct: "tiles a bs e \<Longrightarrow> distinct (map vb_addr bs)"
proof (induction a bs e rule: tiles.induct)
  case (2 a b bs e)
  have "vb_addr b \<noteq> vb_addr c" if "c \<in> set bs" for c
    using 2(2) tiles_addr [of "a + unat (vb_size b)" bs e c] that
    by (auto simp: word_less_nat_alt)
  with 2 show ?case by auto
qed simp

lemma coalesce_id: "coalesced bs \<Longrightarrow> coalesce bs = bs"
  by (induction bs rule: coalesce.induct) auto

lemma coalesce_head: "\<exists>m ms. coalesce (n # bs) = m # ms \<and> vb_used m = vb_used n"
proof (induction bs arbitrary: n)
  case (Cons b bs)
  show ?case using Cons.IH [of "n\<lparr>vb_size := vb_size n + vb_size b\<rparr>"] by auto
qed simp

lemma coalesce_eq_Nil [simp]: "coalesce bs = [] \<longleftrightarrow> bs = []"
  by (induction bs rule: coalesce.induct) simp_all

lemma coalesced_coalesce: "coalesced (coalesce bs)"
proof (induction bs rule: coalesce.induct)
  case (3 b n bs)
  obtain m ms where "coalesce (n # bs) = m # ms" "vb_used m = vb_used n"
    using coalesce_head by blast
  with 3 show ?case by (cases "vb_used b \<or> vb_used n") auto
qed simp_all

lemma coalesce_used: "filter vb_used (coalesce bs) = filter vb_used bs"
  by (induction bs rule: coalesce.induct) simp_all

lemma tiles_coalesce: "tiles a bs e \<Longrightarrow> e < 2 ^ 64 \<Longrightarrow> tiles a (coalesce bs) e"
proof (induction bs arbitrary: a rule: coalesce.induct)
  case (3 b n bs)
  have "unat (vb_size b + vb_size n) = unat (vb_size b) + unat (vb_size n)"
    using 3(3,4) tiles_le [of "a + unat (vb_size b) + unat (vb_size n)" bs e]
    by (simp add: unat_plus_if')
  with 3 show ?case by (auto simp: word_less_nat_alt add.assoc)
qed simp_all

lemma coalesce_split:
  assumes "coalesced (pre @ b # post)" "\<not> vb_used b" "\<not> vb_used x" "\<not> vb_used y"
    "b = x\<lparr>vb_size := vb_size x + vb_size y\<rparr>"
  shows "coalesce (pre @ x # y # post) = pre @ b # post"
  using assms
proof (induction pre)
  case Nil
  then show ?case by (simp add: coalesce_id)
next
  case (Cons c pre)
  then show ?case by (cases pre) auto
qed

lemma map_release:
  assumes "distinct (map vb_addr (pre @ c # rest))"
  shows "map (\<lambda>b. if vb_addr b = vb_addr c then b\<lparr>vb_used := False\<rparr> else b) (pre @ c # rest) =
    pre @ c\<lparr>vb_used := False\<rparr> # rest"
  using assms by (auto intro!: map_idI) (metis image_eqI)+

text \<open>The shape of a successful allocation.\<close>

lemma vmem_alloc_shape:
  assumes "vmem_alloc bytes a = (p, a')" "p \<noteq> 0"
  obtains pre b post where "vmem_blocks a = pre @ b # post" "\<not> vb_used b"
    "vmem_need bytes \<le> vb_size b" "p = vb_addr b + VMEM_HDR" "vmem_base a \<noteq> 0"
    "a' = a\<lparr>vmem_blocks := pre @ carve (vmem_need bytes) b @ post\<rparr>"
proof -
  from assms have "vmem_base a \<noteq> 0" by (auto simp: vmem_alloc_def split: if_splits)
  moreover from assms obtain bs where "vmem_scan (vmem_need bytes) (vmem_blocks a) = Some (p, bs)"
    "a' = a\<lparr>vmem_blocks := bs\<rparr>"
    by (auto simp: vmem_alloc_def split: if_splits option.splits)
  ultimately show ?thesis using that vmem_scan_Some by blast
qed

lemma carve_head:
  "\<exists>c rest. carve need b = c # rest \<and> vb_addr c = vb_addr b \<and> vb_used c \<and>
     (\<forall>r\<in>set rest. \<not> vb_used r) \<and> (need \<le> vb_size b \<longrightarrow> need \<le> vb_size c)"
  by (auto simp: carve_def)

lemma vmem_alloc_correct_core:
  assumes "arena_ok e a" "unat bytes < 2 ^ 62" "vmem_alloc bytes a = (p, a')" "p \<noteq> 0"
  shows "arena_ok e a' \<and> (\<exists>b. used_blocks a' = insert b (used_blocks a) \<and> b \<notin> used_blocks a \<and>
    vb_addr b + VMEM_HDR = p \<and> unat (vb_addr b) + 64 + unat bytes \<le> unat (vb_addr b) + unat (vb_size b))"
proof -
  obtain pre b post where sh: "vmem_blocks a = pre @ b # post" "\<not> vb_used b"
    "vmem_need bytes \<le> vb_size b" "p = vb_addr b + VMEM_HDR"
    "a' = a\<lparr>vmem_blocks := pre @ carve (vmem_need bytes) b @ post\<rparr>"
    using vmem_alloc_shape [OF assms(3,4)] by metis
  obtain m where m: "tiles (unat (vmem_base a)) pre m" "tiles m (b # post) e"
    using assms(1) sh(1) by (auto simp: arena_ok_def tiles_append)
  obtain c rest where c: "carve (vmem_need bytes) b = c # rest" "vb_addr c = vb_addr b" "vb_used c"
    "\<forall>r\<in>set rest. \<not> vb_used r" "vmem_need bytes \<le> vb_size c"
    using carve_head [of "vmem_need bytes" b] sh(3) by metis
  note need = vmem_need_bounds [OF assms(2)]
  have "tiles m (carve (vmem_need bytes) b @ post) e"
    using tiles_carve [OF m(2) _ sh(3) need(3,2)] assms(1) by (simp add: arena_ok_def)
  then have ok: "arena_ok e a'"
    using assms(1) m(1) c sh(5) by (auto simp: arena_ok_def tiles_append)
  have "c \<notin> set pre \<union> set post"
    using ok tiles_distinct [of _ "vmem_blocks a'" e] sh(5) c(1) by (auto simp: arena_ok_def)
  then have "used_blocks a' = insert c (used_blocks a)" "c \<notin> used_blocks a"
    using sh c by (auto simp: used_blocks_def)
  moreover have "unat bytes + 64 \<le> unat (vb_size c)"
    using need(1) c(5) by (simp add: word_le_nat_alt)
  ultimately show ?thesis using ok c(2) sh(4) by (intro conjI exI [of _ c]) auto
qed


lemma demo_arena:
  "arena_ok 0x40000 (vmem_init 0x10000 0x30000)"
  "vmem_alloc 5000 (vmem_init 0x10000 0x30000) = (0x10040, \<lparr>vmem_base = 0x10000, vmem_blocks =
     [\<lparr>vb_addr = 0x10000, vb_size = 0x2000, vb_used = True\<rparr>,
      \<lparr>vb_addr = 0x12000, vb_size = 0x2e000, vb_used = False\<rparr>]\<rparr>)"
  by (simp_all add: arena_ok_def vmem_init_def vmem_alloc_def vmem_need_def)




end
