(* ===== verification/Locks.thy ===== *)
theory Locks
  imports Prelude
begin

text \<open>
  \<^verbatim>\<open>kern/spinlock.c\<close> and \<^verbatim>\<open>kern/sleeplock.c\<close>.  The spinlock is a step relation of the
  CPUs at the grain of its memory operations: the interrupt bookkeeping, the atomic
  exchange, the store of the owner and the two stores of the release.  The sleep lock
  is a step relation of the processes at the grain of its spinlock-protected
  sections.  The functions on one \<^verbatim>\<open>struct sleeplock\<close> at the end are what the
  sequential models of the buffer cache and of the inode layer call.
\<close>

section \<open>Interrupt bookkeeping\<close>

record cpu =
  cpu_ncli :: int
  cpu_intena :: bool
  cpu_if :: bool

definition pushcli :: "cpu \<Rightarrow> cpu" where
  "pushcli c =
     (let eflags = cpu_if c; c = c\<lparr>cpu_if := False\<rparr>;
          c = (if cpu_ncli c = 0 then c\<lparr>cpu_intena := eflags\<rparr> else c)
      in c\<lparr>cpu_ncli := cpu_ncli c + 1\<rparr>)"

definition popcli :: "cpu \<Rightarrow> cpu option" where
  "popcli c =
     (if cpu_if c then None
      else let c = c\<lparr>cpu_ncli := cpu_ncli c - 1\<rparr> in
        if cpu_ncli c < 0 then None
        else if cpu_ncli c = 0 \<and> cpu_intena c then Some (c\<lparr>cpu_if := True\<rparr>)
        else Some c)"

definition cpu_ok :: "cpu \<Rightarrow> bool" where
  "cpu_ok c \<longleftrightarrow> cpu_ncli c \<ge> 0 \<and> (cpu_ncli c > 0 \<longrightarrow> \<not> cpu_if c)"

lemma pushcli_ok:
  assumes "cpu_ok c"
  shows "cpu_ok (pushcli c)" "cpu_ncli (pushcli c) = cpu_ncli c + 1" "\<not> cpu_if (pushcli c)"
  using assms by (auto simp: pushcli_def cpu_ok_def Let_def)

lemma popcli_ok:
  assumes "cpu_ok c" "cpu_ncli c > 0"
  shows "\<exists>c'. popcli c = Some c' \<and> cpu_ok c' \<and> cpu_ncli c' = cpu_ncli c - 1"
  using assms by (auto simp: popcli_def cpu_ok_def Let_def)

section \<open>The spinlock\<close>

record spinlock =
  lk_locked :: u32
  lk_cpu :: "nat option"

definition initlock :: spinlock where
  "initlock = \<lparr>lk_locked = 0, lk_cpu = None\<rparr>"

text \<open>\<^verbatim>\<open>holding\<close> reads the lock between a matched \<^verbatim>\<open>pushcli\<close>/\<^verbatim>\<open>popcli\<close> pair of CPU \<open>i\<close>.\<close>

definition holding :: "spinlock \<Rightarrow> nat \<Rightarrow> cpu \<Rightarrow> (bool \<times> cpu) option" where
  "holding lk i c = do {
     let c = pushcli c;
     let r = (lk_locked lk \<noteq> 0 \<and> lk_cpu lk = Some i);
     c \<leftarrow> popcli c;
     Some (r, c) }"

text \<open>Where a CPU is: outside, in the exchange loop of \<^verbatim>\<open>acquire\<close>, past the exchange
  but before the store of the owner, inside the critical section, and in \<^verbatim>\<open>release\<close>
  between its two stores.\<close>

datatype spin_pc = Outside | Spinning | Taken | Inside | Leaving

record spin_machine =
  sm_lock :: spinlock
  sm_cpu :: "nat \<Rightarrow> cpu"
  sm_pc :: "nat \<Rightarrow> spin_pc"

text \<open>The memory operations of \<^verbatim>\<open>acquire\<close> and \<^verbatim>\<open>release\<close> on CPU \<open>i\<close>; \<open>None\<close> is a panic.\<close>

definition acquire_enter :: "nat \<Rightarrow> spin_machine \<Rightarrow> spin_machine option" where
  "acquire_enter i m = do {
     let c = pushcli (sm_cpu m i);
     (held, c) \<leftarrow> holding (sm_lock m) i c;
     if held then None
     else Some (m\<lparr>sm_cpu := (sm_cpu m)(i := c), sm_pc := (sm_pc m)(i := Spinning)\<rparr>) }"

definition acquire_xchg :: "nat \<Rightarrow> spin_machine \<Rightarrow> spin_machine" where
  "acquire_xchg i m =
     (let old = lk_locked (sm_lock m); m = m\<lparr>sm_lock := (sm_lock m)\<lparr>lk_locked := 1\<rparr>\<rparr>
      in if old \<noteq> 0 then m else m\<lparr>sm_pc := (sm_pc m)(i := Taken)\<rparr>)"

definition acquire_owner :: "nat \<Rightarrow> spin_machine \<Rightarrow> spin_machine" where
  "acquire_owner i m =
     m\<lparr>sm_lock := (sm_lock m)\<lparr>lk_cpu := Some i\<rparr>, sm_pc := (sm_pc m)(i := Inside)\<rparr>"

definition release_owner :: "nat \<Rightarrow> spin_machine \<Rightarrow> spin_machine option" where
  "release_owner i m = do {
     (held, c) \<leftarrow> holding (sm_lock m) i (sm_cpu m i);
     if \<not> held then None
     else Some (m\<lparr>sm_cpu := (sm_cpu m)(i := c), sm_lock := (sm_lock m)\<lparr>lk_cpu := None\<rparr>,
                  sm_pc := (sm_pc m)(i := Leaving)\<rparr>) }"

definition release_unlock :: "nat \<Rightarrow> spin_machine \<Rightarrow> spin_machine option" where
  "release_unlock i m = do {
     c \<leftarrow> popcli (sm_cpu m i);
     Some (m\<lparr>sm_lock := (sm_lock m)\<lparr>lk_locked := 0\<rparr>, sm_cpu := (sm_cpu m)(i := c),
             sm_pc := (sm_pc m)(i := Outside)\<rparr>) }"

text \<open>A step of some CPU.  Besides the lock's own operations, a CPU may at any point
  nest further \<^verbatim>\<open>pushcli\<close>/\<^verbatim>\<open>popcli\<close> pairs (it takes other locks): such a step is
  allowed as long as it pops only what it pushed itself.\<close>

fun lock_depth :: "spin_pc \<Rightarrow> int" where
  "lock_depth Outside = 0"
| "lock_depth _ = 1"

inductive spin_step :: "spin_machine \<Rightarrow> spin_machine \<Rightarrow> bool" where
  enter: "sm_pc m i = Outside \<Longrightarrow> acquire_enter i m = Some m' \<Longrightarrow> spin_step m m'"
| xchg: "sm_pc m i = Spinning \<Longrightarrow> spin_step m (acquire_xchg i m)"
| owner: "sm_pc m i = Taken \<Longrightarrow> spin_step m (acquire_owner i m)"
| leave: "sm_pc m i = Inside \<Longrightarrow> release_owner i m = Some m' \<Longrightarrow> spin_step m m'"
| unlock: "sm_pc m i = Leaving \<Longrightarrow> release_unlock i m = Some m' \<Longrightarrow> spin_step m m'"
| nest: "spin_step m (m\<lparr>sm_cpu := (sm_cpu m)(i := pushcli (sm_cpu m i))\<rparr>)"
| unnest: "cpu_ncli (sm_cpu m i) > lock_depth (sm_pc m i) \<Longrightarrow> popcli (sm_cpu m i) = Some c \<Longrightarrow>
    spin_step m (m\<lparr>sm_cpu := (sm_cpu m)(i := c)\<rparr>)"

inductive_cases spin_stepE: "spin_step m m'"

text \<open>All CPUs start outside the lock, with any consistent interrupt state.\<close>

inductive spin_reach :: "spin_machine \<Rightarrow> bool" where
  init: "sm_lock m = initlock \<Longrightarrow> (\<And>i. sm_pc m i = Outside) \<Longrightarrow> (\<And>i. cpu_ok (sm_cpu m i)) \<Longrightarrow>
    spin_reach m"
| step: "spin_reach m \<Longrightarrow> spin_step m m' \<Longrightarrow> spin_reach m'"

definition owns :: "spin_pc \<Rightarrow> bool" where
  "owns p \<longleftrightarrow> p = Taken \<or> p = Inside \<or> p = Leaving"

definition spin_owner :: "nat option \<Rightarrow> spin_machine \<Rightarrow> bool" where
  "spin_owner w m \<longleftrightarrow>
     (\<forall>i. cpu_ok (sm_cpu m i) \<and> lock_depth (sm_pc m i) \<le> cpu_ncli (sm_cpu m i)) \<and>
     (lk_locked (sm_lock m) \<noteq> 0 \<longleftrightarrow> w \<noteq> None) \<and>
     (\<forall>i. owns (sm_pc m i) \<longleftrightarrow> w = Some i) \<and>
     (\<forall>i. lk_cpu (sm_lock m) = Some i \<longleftrightarrow> sm_pc m i = Inside)"

definition spin_inv :: "spin_machine \<Rightarrow> bool" where
  "spin_inv m \<longleftrightarrow> (\<exists>w. spin_owner w m)"

lemma owns_simps [simp]:
  "\<not> owns Outside" "\<not> owns Spinning" "owns Taken" "owns Inside" "owns Leaving"
  by (simp_all add: owns_def)

lemma holding_ok:
  assumes "cpu_ok c"
  shows "\<exists>c'. holding lk i c = Some (lk_locked lk \<noteq> 0 \<and> lk_cpu lk = Some i, c') \<and>
    cpu_ok c' \<and> cpu_ncli c' = cpu_ncli c"
proof -
  note push = pushcli_ok [OF assms]
  obtain c' where "popcli (pushcli c) = Some c'" "cpu_ok c'" "cpu_ncli c' = cpu_ncli c"
    using popcli_ok [OF push(1)] push(2) assms by (force simp: cpu_ok_def)
  then show ?thesis by (simp add: holding_def)
qed

lemma spin_invD:
  assumes "spin_inv m"
  shows "cpu_ok (sm_cpu m i)" "lock_depth (sm_pc m i) \<le> cpu_ncli (sm_cpu m i)"
    "owns (sm_pc m i) \<Longrightarrow> lk_locked (sm_lock m) \<noteq> 0"
    "owns (sm_pc m i) \<Longrightarrow> owns (sm_pc m j) \<Longrightarrow> i = j"
    "lk_cpu (sm_lock m) = Some i \<longleftrightarrow> sm_pc m i = Inside"
  using assms unfolding spin_inv_def spin_owner_def by auto

text \<open>Under the invariant no operation of a CPU that uses the lock in turn panics.\<close>

lemma acquire_enter_ok:
  assumes "spin_inv m" "sm_pc m i = Outside"
  shows "\<exists>c. acquire_enter i m = Some (m\<lparr>sm_cpu := (sm_cpu m)(i := c), sm_pc := (sm_pc m)(i := Spinning)\<rparr>) \<and>
    cpu_ok c \<and> cpu_ncli c = cpu_ncli (sm_cpu m i) + 1"
proof -
  note push = pushcli_ok [OF spin_invD(1) [OF assms(1), of i]]
  from holding_ok [OF push(1), of "sm_lock m" i] obtain c' where c':
    "holding (sm_lock m) i (pushcli (sm_cpu m i)) =
       Some (lk_locked (sm_lock m) \<noteq> 0 \<and> lk_cpu (sm_lock m) = Some i, c')"
    "cpu_ok c'" "cpu_ncli c' = cpu_ncli (pushcli (sm_cpu m i))" by blast
  moreover have "lk_cpu (sm_lock m) \<noteq> Some i"
    using spin_invD(5) [OF assms(1), of i] assms(2) by simp
  ultimately show ?thesis using push(2) by (intro exI [of _ c']) (simp add: acquire_enter_def)
qed

lemma release_owner_ok:
  assumes "spin_inv m" "sm_pc m i = Inside"
  shows "\<exists>c. release_owner i m = Some (m\<lparr>sm_cpu := (sm_cpu m)(i := c),
      sm_lock := (sm_lock m)\<lparr>lk_cpu := None\<rparr>, sm_pc := (sm_pc m)(i := Leaving)\<rparr>) \<and>
    cpu_ok c \<and> cpu_ncli c = cpu_ncli (sm_cpu m i)"
proof -
  from holding_ok [OF spin_invD(1) [OF assms(1), of i], of "sm_lock m" i] obtain c' where c':
    "holding (sm_lock m) i (sm_cpu m i) =
       Some (lk_locked (sm_lock m) \<noteq> 0 \<and> lk_cpu (sm_lock m) = Some i, c')"
    "cpu_ok c'" "cpu_ncli c' = cpu_ncli (sm_cpu m i)" by blast
  moreover have "lk_cpu (sm_lock m) = Some i" "lk_locked (sm_lock m) \<noteq> 0"
    using spin_invD(5) [OF assms(1), of i] spin_invD(3) [OF assms(1), of i] assms(2)
    by (simp_all add: owns_def)
  ultimately show ?thesis by (intro exI [of _ c']) (simp add: release_owner_def)
qed

lemma release_unlock_ok:
  assumes "spin_inv m" "sm_pc m i = Leaving"
  shows "\<exists>c. release_unlock i m = Some (m\<lparr>sm_lock := (sm_lock m)\<lparr>lk_locked := 0\<rparr>,
      sm_cpu := (sm_cpu m)(i := c), sm_pc := (sm_pc m)(i := Outside)\<rparr>) \<and>
    cpu_ok c \<and> cpu_ncli c = cpu_ncli (sm_cpu m i) - 1"
proof -
  have "cpu_ncli (sm_cpu m i) > 0"
    using spin_invD(2) [OF assms(1), of i] assms(2) by simp
  from popcli_ok [OF spin_invD(1) [OF assms(1)] this] show ?thesis
    by (auto simp: release_unlock_def)
qed

lemma spin_step_inv:
  assumes "spin_step m m'" "spin_inv m"
  shows "spin_inv m'"
proof -
  obtain w where w: "spin_owner w m" using assms(2) by (auto simp: spin_inv_def)
  note own = w [unfolded spin_owner_def]
  have nonneg: "cpu_ncli (sm_cpu m i) \<ge> 0" for i
    using spin_invD(1) [OF assms(2)] by (simp add: cpu_ok_def)
  have depth: "1 \<le> cpu_ncli (sm_cpu m i)" if "sm_pc m i \<noteq> Outside" for i
    using spin_invD(2) [OF assms(2), of i] that by (cases "sm_pc m i") simp_all
  have owner_eq: "sm_pc m i = Taken \<Longrightarrow> w = Some i" "sm_pc m i = Inside \<Longrightarrow> w = Some i"
      "sm_pc m i = Leaving \<Longrightarrow> w = Some i" for i
    using own by (metis owns_simps(3-5))+
  from assms(1) show ?thesis
  proof (cases rule: spin_step.cases)
    case (enter i)
    then obtain c where "m' = m\<lparr>sm_cpu := (sm_cpu m)(i := c), sm_pc := (sm_pc m)(i := Spinning)\<rparr>"
      "cpu_ok c" "cpu_ncli c = cpu_ncli (sm_cpu m i) + 1"
      using acquire_enter_ok [OF assms(2) enter(1)] by auto
    moreover have "w \<noteq> Some i" using own enter(1) by (metis owns_simps(1))
    ultimately have "spin_owner w m'" using own enter(1) nonneg [of i] by (auto simp: spin_owner_def)
    then show ?thesis by (auto simp: spin_inv_def)
  next
    case (xchg i)
    then have "spin_owner (if lk_locked (sm_lock m) = 0 then Some i else w) m'"
      using own depth [of i] by (auto simp: spin_owner_def acquire_xchg_def Let_def)
    then show ?thesis by (auto simp: spin_inv_def)
  next
    case (owner i)
    then have "spin_owner w m'" using own depth [of i] owner_eq by (auto simp: spin_owner_def acquire_owner_def)
    then show ?thesis by (auto simp: spin_inv_def)
  next
    case (leave i)
    then obtain c where "m' = m\<lparr>sm_cpu := (sm_cpu m)(i := c),
        sm_lock := (sm_lock m)\<lparr>lk_cpu := None\<rparr>, sm_pc := (sm_pc m)(i := Leaving)\<rparr>"
      "cpu_ok c" "cpu_ncli c = cpu_ncli (sm_cpu m i)"
      using release_owner_ok [OF assms(2) leave(1)] by auto
    then have "spin_owner w m'" using own leave(1) depth [of i] owner_eq by (auto simp: spin_owner_def)
    then show ?thesis by (auto simp: spin_inv_def)
  next
    case (unlock i)
    then obtain c where "m' = m\<lparr>sm_lock := (sm_lock m)\<lparr>lk_locked := 0\<rparr>,
        sm_cpu := (sm_cpu m)(i := c), sm_pc := (sm_pc m)(i := Outside)\<rparr>"
      "cpu_ok c" "cpu_ncli c = cpu_ncli (sm_cpu m i) - 1"
      using release_unlock_ok [OF assms(2) unlock(1)] by auto
    then have "spin_owner None m'" using own unlock(1) depth [of i] owner_eq
      by (auto simp: spin_owner_def)
    then show ?thesis by (auto simp: spin_inv_def)
  next
    case (nest i)
    moreover have "lock_depth (sm_pc m i) \<le> cpu_ncli (sm_cpu m i) + 1"
      using spin_invD(2) [OF assms(2), of i] by linarith
    ultimately have "spin_owner w m'"
      using own pushcli_ok [of "sm_cpu m i"] by (auto simp: spin_owner_def)
    then show ?thesis by (auto simp: spin_inv_def)
  next
    case (unnest i c)
    moreover have "lock_depth (sm_pc m i) \<ge> 0" by (cases "sm_pc m i") simp_all
    ultimately have "spin_owner w m'"
      using own popcli_ok [of "sm_cpu m i"] by (auto simp: spin_owner_def)
    then show ?thesis by (auto simp: spin_inv_def)
  qed
qed

lemma spin_reach_inv: "spin_reach m \<Longrightarrow> spin_inv m"
proof (induction rule: spin_reach.induct)
  case (init m)
  then have "spin_owner None m" by (simp add: spin_owner_def initlock_def cpu_ok_def)
  then show ?case by (auto simp: spin_inv_def)
next
  case (step m m')
  then show ?case by (blast intro: spin_step_inv)
qed

text \<open>C17. The spinlock excludes: in every reachable state at most one CPU is between its
  successful exchange and the store that frees the lock, that CPU has interrupts off,
  and neither its \<^verbatim>\<open>release\<close> nor an \<^verbatim>\<open>acquire\<close> by a CPU outside the lock panics.\<close>

theorem spinlock_exclusive:
  assumes "spin_reach m"
  shows "(owns (sm_pc m i) \<and> owns (sm_pc m j) \<longrightarrow> i = j) \<and>
    (sm_pc m i \<noteq> Outside \<longrightarrow> \<not> cpu_if (sm_cpu m i)) \<and>
    (sm_pc m i = Outside \<longrightarrow> acquire_enter i m \<noteq> None) \<and>
    (sm_pc m i = Inside \<longrightarrow> release_owner i m \<noteq> None) \<and>
    (sm_pc m i = Leaving \<longrightarrow> release_unlock i m \<noteq> None)"
proof -
  have inv: "spin_inv m" by (rule spin_reach_inv [OF assms])
  have "\<not> cpu_if (sm_cpu m i)" if "sm_pc m i \<noteq> Outside"
    using spin_invD(1,2) [OF inv, of i] that by (cases "sm_pc m i") (auto simp: cpu_ok_def)
  then show ?thesis
    using spin_invD(4) [OF inv, of i j] acquire_enter_ok [OF inv, of i] release_owner_ok [OF inv, of i]
      release_unlock_ok [OF inv, of i] by auto
qed

definition demo_spin :: spin_machine where
  "demo_spin = \<lparr>sm_lock = initlock, sm_cpu = (\<lambda>_. \<lparr>cpu_ncli = 0, cpu_intena = False, cpu_if = True\<rparr>),
     sm_pc = (\<lambda>_. Outside)\<rparr>"

lemma demo_spin_reach: "spin_reach (acquire_owner 0 (acquire_xchg 0 (the (acquire_enter 0 demo_spin))))"
proof -
  have "spin_reach demo_spin" by (rule spin_reach.init) (simp_all add: demo_spin_def cpu_ok_def)
  then have a: "spin_reach (the (acquire_enter 0 demo_spin))"
    by (rule spin_reach.step, intro spin_step.enter [of _ 0])
      (simp_all add: demo_spin_def acquire_enter_def holding_def pushcli_def popcli_def initlock_def)
  have b: "spin_reach (acquire_xchg 0 (the (acquire_enter 0 demo_spin)))"
    by (rule spin_reach.step [OF a], rule spin_step.xchg)
      (simp add: demo_spin_def acquire_enter_def holding_def pushcli_def popcli_def initlock_def)
  show ?thesis
    by (rule spin_reach.step [OF b], rule spin_step.owner)
      (simp add: demo_spin_def acquire_enter_def holding_def pushcli_def popcli_def initlock_def
        acquire_xchg_def)
qed

theorem spinlock_exclusive_witness:
  "\<not> cpu_if (sm_cpu (acquire_owner 0 (acquire_xchg 0 (the (acquire_enter 0 demo_spin)))) 0)"
proof -
  have "sm_pc (acquire_owner 0 m) 0 \<noteq> Outside" for m by (simp add: acquire_owner_def)
  then show ?thesis using spinlock_exclusive [OF demo_spin_reach, of 0 0] by blast
qed



section \<open>The sleep lock\<close>

text \<open>\<open>acquiresleep\<close> is the section a process runs when it finds the lock free; \<open>None\<close>
  is the \<^verbatim>\<open>sleep\<close> of the loop.\<close>

record sleeplock =
  sl_locked :: bool
  sl_pid :: int

definition initsleeplock :: sleeplock where
  "initsleeplock = \<lparr>sl_locked = False, sl_pid = 0\<rparr>"

lemma initsleeplock_free [simp]: "\<not> sl_locked initsleeplock" "sl_pid initsleeplock = 0"
  by (simp_all add: initsleeplock_def)

definition acquiresleep :: "int \<Rightarrow> sleeplock \<Rightarrow> sleeplock option" where
  "acquiresleep pid lk = (if sl_locked lk then None else Some \<lparr>sl_locked = True, sl_pid = pid\<rparr>)"

definition releasesleep :: "sleeplock \<Rightarrow> sleeplock" where
  "releasesleep lk = \<lparr>sl_locked = False, sl_pid = 0\<rparr>"

definition holdingsleep :: "int \<Rightarrow> sleeplock \<Rightarrow> bool" where
  "holdingsleep pid lk \<longleftrightarrow> sl_locked lk \<and> sl_pid lk = pid"

text \<open>A process is not interested, about to run the test of the loop, asleep on the
  lock, or holds it.  \<^verbatim>\<open>releasesleep\<close> wakes every sleeper; a signal may also wake one
  (\<^verbatim>\<open>kill\<close> makes a sleeping process runnable).\<close>

datatype sleep_pc = Away | Trying | Asleep | Holding

record sleep_machine =
  sw_lock :: sleeplock
  sw_pc :: "int \<Rightarrow> sleep_pc"

definition wake_all :: "(int \<Rightarrow> sleep_pc) \<Rightarrow> int \<Rightarrow> sleep_pc" where
  "wake_all pc q = (if pc q = Asleep then Trying else pc q)"

inductive sleep_step :: "sleep_machine \<Rightarrow> sleep_machine \<Rightarrow> bool" where
  want: "sw_pc m p = Away \<Longrightarrow> sleep_step m (m\<lparr>sw_pc := (sw_pc m)(p := Trying)\<rparr>)"
| take: "sw_pc m p = Trying \<Longrightarrow> acquiresleep p (sw_lock m) = Some lk \<Longrightarrow>
    sleep_step m (m\<lparr>sw_lock := lk, sw_pc := (sw_pc m)(p := Holding)\<rparr>)"
| block: "sw_pc m p = Trying \<Longrightarrow> acquiresleep p (sw_lock m) = None \<Longrightarrow>
    sleep_step m (m\<lparr>sw_pc := (sw_pc m)(p := Asleep)\<rparr>)"
| give: "sw_pc m p = Holding \<Longrightarrow>
    sleep_step m (m\<lparr>sw_lock := releasesleep (sw_lock m), sw_pc := (wake_all (sw_pc m))(p := Away)\<rparr>)"
| signal: "sw_pc m p = Asleep \<Longrightarrow> sleep_step m (m\<lparr>sw_pc := (sw_pc m)(p := Trying)\<rparr>)"

inductive sleep_reach :: "sleep_machine \<Rightarrow> bool" where
  init: "sleep_reach \<lparr>sw_lock = initsleeplock, sw_pc = (\<lambda>_. Away)\<rparr>"
| step: "sleep_reach m \<Longrightarrow> sleep_step m m' \<Longrightarrow> sleep_reach m'"

definition sleep_inv :: "sleep_machine \<Rightarrow> bool" where
  "sleep_inv m \<longleftrightarrow> (\<forall>p. sw_pc m p = Holding \<longleftrightarrow> holdingsleep p (sw_lock m)) \<and>
     (\<forall>p. sw_pc m p = Asleep \<longrightarrow> sl_locked (sw_lock m))"

lemma sleep_step_inv: "sleep_step m m' \<Longrightarrow> sleep_inv m \<Longrightarrow> sleep_inv m'"
  by (induction rule: sleep_step.induct)
    (force simp: sleep_inv_def holdingsleep_def acquiresleep_def releasesleep_def wake_all_def
      split: if_splits)+

lemma sleep_reach_inv: "sleep_reach m \<Longrightarrow> sleep_inv m"
proof (induction rule: sleep_reach.induct)
  case init
  show ?case by (simp add: sleep_inv_def holdingsleep_def initsleeplock_def)
next
  case (step m m')
  then show ?case by (blast intro: sleep_step_inv)
qed

text \<open>C20. The sleep lock excludes and loses no wakeup: in every reachable state two
  holders are the same process, \<^verbatim>\<open>holdingsleep\<close> is true for exactly the holder, a
  process is asleep on the lock only while some process holds it, and from any state
  with a sleeper some step leads on in which no process sleeps.\<close>

theorem sleeplock_exclusive:
  assumes "sleep_reach m"
  shows "(sw_pc m p = Holding \<and> sw_pc m q = Holding \<longrightarrow> p = q) \<and>
    (holdingsleep p (sw_lock m) \<longleftrightarrow> sw_pc m p = Holding) \<and>
    (sw_pc m p = Asleep \<longrightarrow> (\<exists>h m'. sw_pc m h = Holding \<and> sleep_step m m' \<and>
       sw_pc m' h = Away \<and> (\<forall>r. sw_pc m' r \<noteq> Asleep)))"
proof -
  have inv: "sleep_inv m" by (rule sleep_reach_inv [OF assms])
  have "\<exists>h m'. sw_pc m h = Holding \<and> sleep_step m m' \<and> sw_pc m' h = Away \<and> (\<forall>r. sw_pc m' r \<noteq> Asleep)"
    if "sw_pc m p = Asleep"
  proof -
    have h: "sw_pc m (sl_pid (sw_lock m)) = Holding"
      using inv that by (auto simp: sleep_inv_def holdingsleep_def)
    show ?thesis
      by (rule exI, rule exI, intro conjI, rule h, rule sleep_step.give [OF h])
        (auto simp: wake_all_def)
  qed
  then show ?thesis using inv by (auto simp: sleep_inv_def holdingsleep_def)
qed

theorem sleeplock_exclusive_witness:
  "holdingsleep 7 (sw_lock \<lparr>sw_lock = \<lparr>sl_locked = True, sl_pid = 7\<rparr>, sw_pc = (\<lambda>_. Away)(7 := Holding)\<rparr>)"
proof -
  let ?m = "\<lparr>sw_lock = initsleeplock, sw_pc = (\<lambda>_. Away)(7 := Trying)\<rparr>"
  have "sleep_reach ?m"
    using sleep_reach.step [OF sleep_reach.init sleep_step.want [of _ 7]] by simp
  from sleep_reach.step [OF this sleep_step.take [of ?m 7 "\<lparr>sl_locked = True, sl_pid = 7\<rparr>"]]
  have "sleep_reach \<lparr>sw_lock = \<lparr>sl_locked = True, sl_pid = 7\<rparr>, sw_pc = (\<lambda>_. Away)(7 := Holding)\<rparr>"
    by (simp add: acquiresleep_def initsleeplock_def)
  from sleeplock_exclusive [OF this, of 7 7] show ?thesis by simp
qed

end
