(* ===== verification/Bio.thy ===== *)
theory Bio
  imports Locks
begin

text \<open>
  \<^verbatim>\<open>kern/bio.c\<close>, the device switch of \<^verbatim>\<open>kern/blockdev.c\<close>, \<^verbatim>\<open>kern/ramdisk.c\<close> and the
  request entry points of the disk drivers.  The state holds the buffer array, the
  list through \<^verbatim>\<open>prev\<close>/\<^verbatim>\<open>next\<close> as a list of indices (most recently used first) and the
  media.  A hardware disk is its medium \<open>disk\<close>, its presence and size as the driver
  found them, and the set \<open>io_err\<close> of sectors it refuses; the command protocol between driver and controller is not modelled.
  \<open>disk_log\<close> is a history variable: the writes that reached a medium, oldest first.
  An operation that panics, or that waits for a lock held by the caller, is \<open>None\<close>.
\<close>

section \<open>Buffers and media\<close>

abbreviation BSIZE :: nat where "BSIZE \<equiv> 512"
abbreviation NBUF :: nat where "NBUF \<equiv> 30"

record buf =
  b_valid :: bool
  b_dirty :: bool
  b_dev :: u32
  b_blockno :: u32
  b_lock :: sleeplock
  b_refcnt :: u32
  b_data :: bytes

record bio_state =
  bcache :: "nat \<Rightarrow> buf"
  mru :: "nat list"
  disk :: "u32 \<Rightarrow> u32 \<Rightarrow> bytes"
  dev_sectors :: "u32 \<Rightarrow> u64"
  dev_present :: "u32 \<Rightarrow> bool"
  io_err :: "u32 \<Rightarrow> u32 \<Rightarrow> bool"
  disk_log :: "(u32 \<times> u32 \<times> bytes) list"
  curpid :: int

definition upd_buf :: "nat \<Rightarrow> (buf \<Rightarrow> buf) \<Rightarrow> 'a bio_state_scheme \<Rightarrow> 'a bio_state_scheme" where
  "upd_buf i f s = s\<lparr>bcache := (bcache s)(i := f (bcache s i))\<rparr>"

definition disk_write :: "u32 \<Rightarrow> u32 \<Rightarrow> bytes \<Rightarrow> 'a bio_state_scheme \<Rightarrow> 'a bio_state_scheme" where
  "disk_write d b v s = s\<lparr>disk := (disk s)(d := (disk s d)(b := v)), disk_log := disk_log s @ [(d, b, v)]\<rparr>"

definition buf_held :: "nat \<Rightarrow> 'a bio_state_scheme \<Rightarrow> bool" where
  "buf_held i s \<longleftrightarrow> holdingsleep (curpid s) (b_lock (bcache s i))"

section \<open>The disk drivers\<close>

abbreviation DEV_IDE_END :: u32 where "DEV_IDE_END \<equiv> 4"
abbreviation DEV_SATA_START :: u32 where "DEV_SATA_START \<equiv> 4"
abbreviation DEV_SATA_END :: u32 where "DEV_SATA_END \<equiv> 20"
abbreviation DEV_NVME_START :: u32 where "DEV_NVME_START \<equiv> 20"
abbreviation DEV_NVME_END :: u32 where "DEV_NVME_END \<equiv> 28"
abbreviation DEV_RAMDISK :: u32 where "DEV_RAMDISK \<equiv> 28"

definition blockdev_device_size :: "u32 \<Rightarrow> 'a bio_state_scheme \<Rightarrow> u64" where
  "blockdev_device_size d s =
     (if d < DEV_IDE_END then dev_sectors s d
      else if d \<ge> DEV_SATA_START \<and> d < DEV_SATA_END
      then if dev_present s d then dev_sectors s d else 0
      else if d \<ge> DEV_NVME_START \<and> d < DEV_NVME_END
      then if dev_present s d then dev_sectors s d else 0
      else if d = DEV_RAMDISK then dev_sectors s d
      else 0)"

text \<open>The completion of a queued IDE or SATA request (\<^verbatim>\<open>ideintr\<close>,
  \<^verbatim>\<open>ahci_check_port_completion\<close>): the transfer as far as the medium did it, and the
  flags, which are set on an error as well.\<close>

definition complete_request :: "nat \<Rightarrow> 'a bio_state_scheme \<Rightarrow> 'a bio_state_scheme" where
  "complete_request i s =
     (let b = bcache s i; d = b_dev b; n = b_blockno b;
          s = (if io_err s d n then s
               else if b_dirty b then disk_write d n (b_data b) s
               else upd_buf i (\<lambda>b. b\<lparr>b_data := disk s d n\<rparr>) s)
      in upd_buf i (\<lambda>b. b\<lparr>b_valid := True, b_dirty := False\<rparr>) s)"

definition iderw :: "nat \<Rightarrow> 'a bio_state_scheme \<Rightarrow> 'a bio_state_scheme option" where
  "iderw i s = (let b = bcache s i in
     if \<not> buf_held i s then None
     else if b_valid b \<and> \<not> b_dirty b then None
     else if b_dev b \<ge> 4 \<or> dev_sectors s (b_dev b) = 0 then None
     else if ucast (b_blockno b) \<ge> dev_sectors s (b_dev b) then None
     else if b_blockno b > 0x0fffffff then None
     else Some (complete_request i s))"

definition ahcirw :: "nat \<Rightarrow> 'a bio_state_scheme \<Rightarrow> 'a bio_state_scheme option" where
  "ahcirw i s = (let b = bcache s i;
       port_no = (if b_dev b \<ge> DEV_SATA_START then b_dev b - DEV_SATA_START else b_dev b) in
     if port_no \<ge> 32 \<or> \<not> dev_present s (DEV_SATA_START + port_no) then None
     else if \<not> buf_held i s then None
     else if b_valid b \<and> \<not> b_dirty b then None
     else Some (complete_request i s))"

definition nvmerw :: "nat \<Rightarrow> 'a bio_state_scheme \<Rightarrow> 'a bio_state_scheme option" where
  "nvmerw i s = (let b = bcache s i;
       ns = (if b_dev b \<ge> 20 then b_dev b - 20 else b_dev b) in
     if ns \<ge> 8 \<or> \<not> dev_present s (DEV_NVME_START + ns) then None
     else if io_err s (b_dev b) (b_blockno b) then None
     else if b_dirty b then
       Some (upd_buf i (\<lambda>b. b\<lparr>b_dirty := False\<rparr>) (disk_write (b_dev b) (b_blockno b) (b_data b) s))
     else Some (upd_buf i (\<lambda>b'. b'\<lparr>b_data := disk s (b_dev b) (b_blockno b), b_valid := True\<rparr>) s))"

definition ramdiskrw :: "nat \<Rightarrow> 'a bio_state_scheme \<Rightarrow> 'a bio_state_scheme option" where
  "ramdiskrw i s = (let b = bcache s i; d = DEV_RAMDISK; n = b_blockno b in
     if \<not> buf_held i s then None
     else if b_valid b \<and> \<not> b_dirty b then None
     else if dev_sectors s d = 0 then None
     else if ucast n + 1 > dev_sectors s d then None
     else let s = (if b_dirty b then disk_write d n (b_data b) s
                   else upd_buf i (\<lambda>b. b\<lparr>b_data := disk s d n\<rparr>) s)
          in Some (upd_buf i (\<lambda>b. b\<lparr>b_valid := True, b_dirty := False\<rparr>) s))"

definition blockdev_rw :: "nat \<Rightarrow> 'a bio_state_scheme \<Rightarrow> 'a bio_state_scheme option" where
  "blockdev_rw i s = (let d = b_dev (bcache s i) in
     if d < DEV_IDE_END then iderw i s
     else if d \<ge> DEV_SATA_START \<and> d < DEV_SATA_END then ahcirw i s
     else if d \<ge> DEV_NVME_START \<and> d < DEV_NVME_END then nvmerw i s
     else if d = DEV_RAMDISK then ramdiskrw i s
     else None)"

section \<open>The buffer cache\<close>

definition binit :: "'a bio_state_scheme \<Rightarrow> 'a bio_state_scheme" where
  "binit s = s\<lparr>mru := rev [0..<NBUF], bcache := (\<lambda>i. (bcache s i)\<lparr>b_lock := initsleeplock\<rparr>)\<rparr>"

definition bkey :: "buf \<Rightarrow> u32 \<times> u32" where
  "bkey b = (b_dev b, b_blockno b)"

definition cached :: "'a bio_state_scheme \<Rightarrow> u32 \<times> u32 \<Rightarrow> nat option" where
  "cached s k = find (\<lambda>i. bkey (bcache s i) = k) (mru s)"

definition recyclable :: "buf \<Rightarrow> bool" where
  "recyclable b \<longleftrightarrow> b_refcnt b = 0 \<and> \<not> b_dirty b"

definition lock_buf :: "nat \<Rightarrow> 'a bio_state_scheme \<Rightarrow> (nat \<times> 'a bio_state_scheme) option" where
  "lock_buf i s = do {
     lk \<leftarrow> acquiresleep (curpid s) (b_lock (bcache s i));
     Some (i, upd_buf i (\<lambda>b. b\<lparr>b_lock := lk\<rparr>) s) }"

definition bget :: "u32 \<Rightarrow> u32 \<Rightarrow> 'a bio_state_scheme \<Rightarrow> (nat \<times> 'a bio_state_scheme) option" where
  "bget dev blockno s = (case cached s (dev, blockno) of
     Some i \<Rightarrow> lock_buf i (upd_buf i (\<lambda>b. b\<lparr>b_refcnt := b_refcnt b + 1\<rparr>) s)
   | None \<Rightarrow> (case find (\<lambda>i. recyclable (bcache s i)) (rev (mru s)) of
       Some i \<Rightarrow> lock_buf i (upd_buf i (\<lambda>b. b\<lparr>b_dev := dev, b_blockno := blockno,
                    b_valid := False, b_dirty := False, b_refcnt := 1\<rparr>) s)
     | None \<Rightarrow> None))"

definition bread :: "u32 \<Rightarrow> u32 \<Rightarrow> 'a bio_state_scheme \<Rightarrow> (nat \<times> 'a bio_state_scheme) option" where
  "bread dev blockno s = do {
     (i, s) \<leftarrow> bget dev blockno s;
     if \<not> b_valid (bcache s i) then do { s \<leftarrow> blockdev_rw i s; Some (i, s) }
     else Some (i, s) }"

definition bwrite :: "nat \<Rightarrow> 'a bio_state_scheme \<Rightarrow> 'a bio_state_scheme option" where
  "bwrite i s = (if \<not> buf_held i s then None
     else blockdev_rw i (upd_buf i (\<lambda>b. b\<lparr>b_dirty := True\<rparr>) s))"

definition brelse :: "nat \<Rightarrow> 'a bio_state_scheme \<Rightarrow> 'a bio_state_scheme option" where
  "brelse i s = (if \<not> buf_held i s then None
     else let s = upd_buf i (\<lambda>b. b\<lparr>b_lock := releasesleep (b_lock b)\<rparr>) s;
              s = upd_buf i (\<lambda>b. b\<lparr>b_refcnt := b_refcnt b - 1\<rparr>) s
          in Some (if b_refcnt (bcache s i) = 0 then s\<lparr>mru := i # remove1 i (mru s)\<rparr> else s))"

text \<open>What a caller does to the data of a buffer it holds.\<close>

definition set_data :: "nat \<Rightarrow> bytes \<Rightarrow> 'a bio_state_scheme \<Rightarrow> 'a bio_state_scheme" where
  "set_data i v s = upd_buf i (\<lambda>b. b\<lparr>b_data := v\<rparr>) s"

section \<open>The contract of the cache\<close>

text \<open>\<open>bview\<close> is the content of a block as the kernel sees it: the cached data if a
  valid buffer holds the block, the medium otherwise.\<close>

definition bview :: "'a bio_state_scheme \<Rightarrow> u32 \<Rightarrow> u32 \<Rightarrow> bytes" where
  "bview s d n = (case cached s (d, n) of
     Some i \<Rightarrow> if b_valid (bcache s i) then b_data (bcache s i) else disk s d n
   | None \<Rightarrow> disk s d n)"

definition held :: "'a bio_state_scheme \<Rightarrow> nat set" where
  "held s = {i. i < NBUF \<and> sl_locked (b_lock (bcache s i))}"

definition held_keys :: "'a bio_state_scheme \<Rightarrow> (u32 \<times> u32) set" where
  "held_keys s = (\<lambda>i. bkey (bcache s i)) ` held s"

definition pinned :: "'a bio_state_scheme \<Rightarrow> (u32 \<times> u32) set" where
  "pinned s = (\<lambda>i. bkey (bcache s i)) ` {i. i < NBUF \<and> b_dirty (bcache s i)}"

definition buf_ok :: "'a bio_state_scheme \<Rightarrow> nat \<Rightarrow> bool" where
  "buf_ok s i \<longleftrightarrow> (let b = bcache s i in
     (b_valid b \<or> b_dirty b \<or> b_refcnt b \<noteq> 0 \<longrightarrow> cached s (bkey b) = Some i) \<and>
     (if sl_locked (b_lock b) then sl_pid (b_lock b) = curpid s \<and> b_refcnt b = 1 \<and> b_valid b
      else b_refcnt b = 0) \<and>
     (b_dirty b \<longrightarrow> b_valid b) \<and>
     (b_valid b \<and> \<not> b_dirty b \<and> \<not> sl_locked (b_lock b) \<longrightarrow> b_data b = disk s (b_dev b) (b_blockno b)) \<and>
     (b_valid b \<longrightarrow> length (b_data b) = BSIZE))"

definition bio_inv :: "'a bio_state_scheme \<Rightarrow> bool" where
  "bio_inv s \<longleftrightarrow> distinct (mru s) \<and> set (mru s) = {..<NBUF} \<and> (\<forall>i < NBUF. buf_ok s i) \<and>
     (\<forall>d n. length (disk s d n) = BSIZE)"

text \<open>A sector the drivers can transfer.\<close>

definition io_ok :: "'a bio_state_scheme \<Rightarrow> u32 \<Rightarrow> u32 \<Rightarrow> bool" where
  "io_ok s d n \<longleftrightarrow>
     (if d < DEV_IDE_END
      then ucast n < dev_sectors s d \<and> n \<le> 0x0fffffff \<and> \<not> io_err s d n
      else if d < DEV_NVME_END then dev_present s d \<and> \<not> io_err s d n
      else d = DEV_RAMDISK \<and> ucast n + 1 \<le> dev_sectors s d)"

section \<open>Transfers\<close>

lemma dev_offset:
  fixes d :: u32
  assumes "4 \<le> d" "d < 20"
  shows "\<not> 32 \<le> d - 4" "4 + (d - 4) = d" "\<not> d < 4"
  using assms by unat_arith+

lemma nvme_offset:
  fixes d :: u32
  assumes "20 \<le> d" "d < 28"
  shows "\<not> 8 \<le> d - 20" "20 + (d - 20) = d" "\<not> d < 20" "\<not> d < 4"
  using assms by unat_arith+

lemma ucast_plus_1_nz: "(ucast (n :: u32) :: u64) + 1 \<noteq> 0"
proof
  assume "(ucast n :: u64) + 1 = 0"
  then have "unat ((ucast n :: u64) + 1) = 0" by simp
  then show False using unat_lt(3) [of n] by (simp add: unat_plus_if')
qed

lemma io_okE:
  assumes "io_ok s d n"
  obtains (ide) "d < 4" "dev_sectors s d \<noteq> 0" "ucast n < dev_sectors s d" "n \<le> 0x0fffffff" "\<not> io_err s d n"
  | (sata) "4 \<le> d" "d < 20" "dev_present s d" "\<not> io_err s d n"
  | (nvme) "20 \<le> d" "d < 28" "dev_present s d" "\<not> io_err s d n"
  | (ram) "d = 28" "dev_sectors s d \<noteq> 0" "ucast n + 1 \<le> dev_sectors s d"
proof (cases "d < 4")
  case True
  with assms show ?thesis by (intro ide) (auto simp: io_ok_def)
next
  case False
  consider "d < 20" | "20 \<le> d" "d < 28" | "\<not> d < 28" by force
  then show ?thesis
  proof cases
    case 1
    moreover have "d < 28" using 1 by (rule less_trans) simp
    ultimately show ?thesis using assms False by (intro sata) (auto simp: io_ok_def)
  next
    case 2
    then show ?thesis using assms False by (intro nvme) (auto simp: io_ok_def)
  next
    case 3
    then have "d = 28" "ucast n + 1 \<le> dev_sectors s d" using assms False by (auto simp: io_ok_def)
    moreover have "dev_sectors s d \<noteq> 0" using calculation(2) ucast_plus_1_nz [of n] by auto
    ultimately show ?thesis by (intro ram)
  qed
qed

lemma buf_valid_id: "b_valid b \<Longrightarrow> b\<lparr>b_valid := True, b_dirty := f\<rparr> = b\<lparr>b_dirty := f\<rparr>"
  by (cases b) simp

lemma blockdev_rw_write:
  assumes "buf_held i s" "b_valid (bcache s i)" "b_dirty (bcache s i)"
    and "bkey (bcache s i) = (d, n)" "io_ok s d n"
  shows "blockdev_rw i s = Some (upd_buf i (\<lambda>b. b\<lparr>b_dirty := False\<rparr>) (disk_write d n (b_data (bcache s i)) s))"
proof -
  have k: "b_dev (bcache s i) = d" "b_blockno (bcache s i) = n"
    using assms(4) by (simp_all add: bkey_def)
  have v: "bcache s i\<lparr>b_valid := True, b_dirty := False\<rparr> = bcache s i\<lparr>b_dirty := False\<rparr>"
    by (rule buf_valid_id [OF assms(2)])
  from assms(5) show ?thesis
  proof (cases rule: io_okE)
    case ide
    then show ?thesis using assms k
      by (simp add: v not_less not_le blockdev_rw_def iderw_def complete_request_def upd_buf_def disk_write_def Let_def)
  next
    case sata
    then show ?thesis using assms k dev_offset [OF sata(1,2)]
      by (simp add: v blockdev_rw_def ahcirw_def complete_request_def upd_buf_def disk_write_def Let_def)
  next
    case nvme
    then show ?thesis using assms k nvme_offset [OF nvme(1,2)]
      by (simp add: v blockdev_rw_def nvmerw_def upd_buf_def disk_write_def Let_def)
  next
    case ram
    then show ?thesis using assms k
      by (simp add: v not_less blockdev_rw_def ramdiskrw_def upd_buf_def disk_write_def Let_def)
  qed
qed

lemma blockdev_rw_read:
  assumes "buf_held i s" "\<not> b_valid (bcache s i)" "\<not> b_dirty (bcache s i)"
    and "bkey (bcache s i) = (d, n)" "io_ok s d n"
  shows "blockdev_rw i s = Some (upd_buf i (\<lambda>b. b\<lparr>b_data := disk s d n, b_valid := True\<rparr>) s)"
proof -
  have k: "b_dev (bcache s i) = d" "b_blockno (bcache s i) = n"
    using assms(4) by (simp_all add: bkey_def)
  have v: "bcache s i\<lparr>b_data := v, b_valid := True, b_dirty := False\<rparr> = bcache s i\<lparr>b_data := v, b_valid := True\<rparr>" for v
    using assms(3) by (cases "bcache s i") simp
  from assms(5) show ?thesis
  proof (cases rule: io_okE)
    case ide
    then show ?thesis using assms k
      by (simp add: v not_less not_le blockdev_rw_def iderw_def complete_request_def upd_buf_def Let_def)
  next
    case sata
    then show ?thesis using assms k dev_offset [OF sata(1,2)]
      by (simp add: v blockdev_rw_def ahcirw_def complete_request_def upd_buf_def Let_def)
  next
    case nvme
    then show ?thesis using assms k nvme_offset [OF nvme(1,2)]
      by (simp add: blockdev_rw_def nvmerw_def upd_buf_def Let_def)
  next
    case ram
    then show ?thesis using assms k
      by (simp add: v not_less blockdev_rw_def ramdiskrw_def upd_buf_def Let_def)
  qed
qed

section \<open>Lookup\<close>

lemma find_remove1: "\<not> P x \<Longrightarrow> find P (remove1 x xs) = find P xs"
  by (induction xs) auto

lemma find_unique: "P x \<Longrightarrow> x \<in> set xs \<Longrightarrow> (\<And>y. y \<in> set xs \<Longrightarrow> P y \<Longrightarrow> y = x) \<Longrightarrow> find P xs = Some x"
proof (induction xs)
  case (Cons y ys)
  then show ?case by (cases "P y") (fastforce simp del: find.simps(1))+
qed simp

lemma find_shrink: "find P xs = Some x \<Longrightarrow> (\<And>y. y \<in> set xs \<Longrightarrow> Q y \<Longrightarrow> P y) \<Longrightarrow> Q x \<Longrightarrow> find Q xs = Some x"
  by (induction xs) (auto split: if_splits)

lemma cached_SomeD: "cached s k = Some i \<Longrightarrow> i \<in> set (mru s) \<and> bkey (bcache s i) = k"
  by (auto simp: cached_def find_Some_iff)

lemma cached_cong:
  assumes "mru t = mru s" "\<And>i. i \<in> set (mru s) \<Longrightarrow> bkey (bcache t i) = bkey (bcache s i)"
  shows "cached t = cached s"
  using assms by (auto simp: cached_def fun_eq_iff intro!: find_cong)

lemma bio_invD:
  assumes "bio_inv s"
  shows "distinct (mru s)" "set (mru s) = {..<NBUF}" "i < NBUF \<Longrightarrow> buf_ok s i"
    "length (disk s d n) = BSIZE"
  using assms by (auto simp: bio_inv_def)

lemma cached_lt: "bio_inv s \<Longrightarrow> cached s k = Some i \<Longrightarrow> i < NBUF"
  using cached_SomeD [of s k i] bio_invD(2) [of s] by blast

lemma held_cached:
  assumes "bio_inv s" "i \<in> held s"
  shows "cached s (bkey (bcache s i)) = Some i" "b_valid (bcache s i)" "buf_held i s"
    "b_refcnt (bcache s i) = 1"
  using assms bio_invD(3) [OF assms(1), of i]
  by (auto simp: held_def buf_ok_def buf_held_def holdingsleep_def Let_def)

text \<open>Two held buffers of one block are the same buffer, and the view of the block is
  the data of the held buffer.\<close>

lemma bview_held:
  assumes "bio_inv s" "i \<in> held s" "bkey (bcache s i) = (d, n)"
  shows "bview s d n = b_data (bcache s i)"
  using held_cached [OF assms(1,2)] assms(3) by (simp add: bview_def)

lemma bview_length [buf_simps]: "bio_inv s \<Longrightarrow> length (bview s d n) = BSIZE"
  using cached_lt [of s "(d, n)"] bio_invD(3,4) [of s]
  by (auto simp: bview_def buf_ok_def Let_def split: option.splits)

lemma upd_buf_simps [simp]:
  "bcache (upd_buf i f s) = (bcache s)(i := f (bcache s i))" "mru (upd_buf i f s) = mru s"
  "disk (upd_buf i f s) = disk s" "dev_sectors (upd_buf i f s) = dev_sectors s"
  "dev_present (upd_buf i f s) = dev_present s" "io_err (upd_buf i f s) = io_err s"
  "disk_log (upd_buf i f s) = disk_log s" "curpid (upd_buf i f s) = curpid s"
  "bio_state.more (upd_buf i f s) = bio_state.more s"
  by (simp_all add: upd_buf_def)

lemma disk_write_simps [simp]:
  "bcache (disk_write d n v s) = bcache s" "mru (disk_write d n v s) = mru s"
  "disk (disk_write d n v s) = (disk s)(d := (disk s d)(n := v))"
  "dev_sectors (disk_write d n v s) = dev_sectors s" "dev_present (disk_write d n v s) = dev_present s"
  "io_err (disk_write d n v s) = io_err s" "disk_log (disk_write d n v s) = disk_log s @ [(d, n, v)]"
  "curpid (disk_write d n v s) = curpid s" "bio_state.more (disk_write d n v s) = bio_state.more s"
  by (simp_all add: disk_write_def)

lemma upd_buf_upd_buf [simp]: "upd_buf i g (upd_buf i f s) = upd_buf i (\<lambda>b. g (f b)) s"
  by (simp add: upd_buf_def)

lemma io_ok_cong:
  "dev_sectors t = dev_sectors s \<Longrightarrow> dev_present t = dev_present s \<Longrightarrow> io_err t = io_err s \<Longrightarrow>
   io_ok t = io_ok s"
  by (simp add: io_ok_def fun_eq_iff)

lemma io_ok_upd [simp]: "io_ok (upd_buf i f s) = io_ok s" "io_ok (disk_write d n v s) = io_ok s"
  by (rule io_ok_cong; simp)+

section \<open>Getting a block\<close>

text \<open>The buffer \<^verbatim>\<open>bget\<close> settles on.\<close>

definition bget_target :: "'a bio_state_scheme \<Rightarrow> u32 \<times> u32 \<Rightarrow> nat \<Rightarrow> bool" where
  "bget_target s k i \<longleftrightarrow> cached s k = Some i \<or>
     cached s k = None \<and> find (\<lambda>i. recyclable (bcache s i)) (rev (mru s)) = Some i"

lemma bget_target_lt:
  assumes "bio_inv s" "bget_target s k i"
  shows "i < NBUF"
proof -
  have "find P xs = Some x \<Longrightarrow> x \<in> set xs" for P and x :: nat and xs
    by (auto simp: find_Some_iff)
  then have "i \<in> set (mru s)"
    using assms(2) cached_SomeD [of s k i] by (fastforce simp: bget_target_def)
  then show ?thesis using bio_invD(2) [OF assms(1)] by simp
qed

lemma bget_target_miss:
  "bget_target s k i \<Longrightarrow> cached s k \<noteq> Some i \<Longrightarrow> cached s k = None \<and> recyclable (bcache s i)"
  by (auto simp: bget_target_def find_Some_iff)

lemma bget_target_free:
  assumes "bio_inv s" "bget_target s k i" "k \<notin> held_keys s"
  shows "\<not> sl_locked (b_lock (bcache s i))" "b_refcnt (bcache s i) = 0"
proof -
  have ok: "i < NBUF" "buf_ok s i"
    using bget_target_lt [OF assms(1,2)] bio_invD(3) [OF assms(1)] by blast+
  show free: "\<not> sl_locked (b_lock (bcache s i))"
  proof (cases "cached s k = Some i")
    case True
    with assms(3) ok(1) show ?thesis using cached_SomeD [OF True] by (auto simp: held_keys_def held_def)
  next
    case False
    then have "b_refcnt (bcache s i) = 0"
      using bget_target_miss [OF assms(2)] by (simp add: recyclable_def)
    then show ?thesis using ok(2) by (auto simp: buf_ok_def Let_def)
  qed
  then show "b_refcnt (bcache s i) = 0" using ok(2) by (simp add: buf_ok_def Let_def)
qed

definition load_buf :: "u32 \<Rightarrow> u32 \<Rightarrow> 'a bio_state_scheme \<Rightarrow> buf \<Rightarrow> buf" where
  "load_buf d n s b = b\<lparr>b_valid := True, b_dev := d, b_blockno := n,
     b_lock := \<lparr>sl_locked = True, sl_pid = curpid s\<rparr>, b_refcnt := 1, b_data := bview s d n\<rparr>"

lemma load_buf_simps [simp]:
  "b_valid (load_buf d n s b)" "b_dirty (load_buf d n s b) = b_dirty b" "b_dev (load_buf d n s b) = d"
  "b_blockno (load_buf d n s b) = n" "b_lock (load_buf d n s b) = \<lparr>sl_locked = True, sl_pid = curpid s\<rparr>"
  "b_refcnt (load_buf d n s b) = 1" "b_data (load_buf d n s b) = bview s d n"
  by (simp_all add: load_buf_def)

lemma bread_eq:
  assumes "bio_inv s" "bget_target s (d, n) i" "(d, n) \<notin> held_keys s" "io_ok s d n"
  shows "bread d n s = Some (i, upd_buf i (load_buf d n s) s)"
proof -
  let ?lk = "\<lparr>sl_locked = True, sl_pid = curpid s\<rparr>"
  note free = bget_target_free [OF assms(1-3)]
  have ok: "buf_ok s i"
    using bget_target_lt [OF assms(1,2)] bio_invD(3) [OF assms(1)] by blast
  show ?thesis
  proof (cases "cached s (d, n) = Some i")
    case True
    let ?t = "upd_buf i (\<lambda>b. b\<lparr>b_refcnt := 1, b_lock := ?lk\<rparr>) s"
    have key: "b_dev (bcache s i) = d" "b_blockno (bcache s i) = n"
      using cached_SomeD [OF True] by (simp_all add: bkey_def)
    have get: "bget d n s = Some (i, ?t)"
      using True free by (simp add: bget_def lock_buf_def acquiresleep_def)
    show ?thesis
    proof (cases "b_valid (bcache s i)")
      case True': True
      have "bcache s i\<lparr>b_refcnt := 1, b_lock := ?lk\<rparr> = load_buf d n s (bcache s i)"
        using key True True' by (cases "bcache s i") (simp add: load_buf_def bview_def)
      then show ?thesis using get True' by (simp add: bread_def upd_buf_def)
    next
      case False
      then have nd: "\<not> b_dirty (bcache s i)" using ok by (simp add: buf_ok_def Let_def)
      have "blockdev_rw i ?t = Some (upd_buf i (\<lambda>b. b\<lparr>b_data := disk s d n, b_valid := True\<rparr>) ?t)"
        using blockdev_rw_read [of i ?t d n] False nd key assms(4)
        by (simp add: buf_held_def holdingsleep_def bkey_def)
      moreover have "bcache s i\<lparr>b_refcnt := 1, b_lock := ?lk, b_data := disk s d n, b_valid := True\<rparr> =
          load_buf d n s (bcache s i)"
        using key True False by (cases "bcache s i") (simp add: load_buf_def bview_def)
      ultimately show ?thesis using get False by (simp add: bread_def upd_buf_def)
    qed
  next
    case False
    note miss = bget_target_miss [OF assms(2) False]
    let ?t = "upd_buf i (\<lambda>b. b\<lparr>b_dev := d, b_blockno := n, b_valid := False, b_dirty := False,
      b_refcnt := 1, b_lock := ?lk\<rparr>) s"
    have get: "bget d n s = Some (i, ?t)"
      using assms(2) miss free False
      by (auto simp: bget_def lock_buf_def acquiresleep_def bget_target_def)
    have "blockdev_rw i ?t = Some (upd_buf i (\<lambda>b. b\<lparr>b_data := disk s d n, b_valid := True\<rparr>) ?t)"
      using blockdev_rw_read [of i ?t d n] assms(4)
      by (simp add: buf_held_def holdingsleep_def bkey_def)
    moreover have "bcache s i\<lparr>b_dev := d, b_blockno := n, b_valid := False, b_dirty := False,
        b_refcnt := 1, b_lock := ?lk, b_data := disk s d n, b_valid := True\<rparr> = load_buf d n s (bcache s i)"
      using miss by (cases "bcache s i") (simp add: load_buf_def bview_def recyclable_def)
    ultimately show ?thesis using get by (simp add: bread_def upd_buf_def)
  qed
qed

lemma load_cached:
  assumes "bio_inv s" "bget_target s (d, n) i"
  defines "t \<equiv> upd_buf i (load_buf d n s) s"
  shows "cached t (d, n) = Some i"
    and "j \<noteq> i \<Longrightarrow> cached s k = Some j \<Longrightarrow> cached t k = Some j"
    and "cached s k = None \<Longrightarrow> k \<noteq> (d, n) \<Longrightarrow> cached t k = None"
proof -
  have i: "i \<in> set (mru s)"
    using bget_target_lt [OF assms(1,2)] bio_invD(2) [OF assms(1)] by simp
  show hit: "cached t (d, n) = Some i"
  proof (cases "cached s (d, n) = Some i")
    case True
    then have "cached t = cached s"
      using cached_SomeD [OF True] by (intro cached_cong) (auto simp: t_def bkey_def)
    then show ?thesis using True by simp
  next
    case False
    then have "bkey (bcache s j) \<noteq> (d, n)" if "j \<in> set (mru s)" for j
      using bget_target_miss [OF assms(2)] that by (auto simp: cached_def find_None_iff)
    then have "y = i" if "y \<in> set (mru t)" "bkey (bcache t y) = (d, n)" for y
      using that by (auto simp: t_def split: if_splits)
    moreover have "bkey (bcache t i) = (d, n)" "i \<in> set (mru t)"
      using i by (simp_all add: t_def bkey_def)
    ultimately show ?thesis unfolding cached_def
      using find_unique [of "\<lambda>i. bkey (bcache t i) = (d, n)" i "mru t"] by blast
  qed
  show "cached t k = Some j" if "j \<noteq> i" "cached s k = Some j"
  proof -
    have "k \<noteq> (d, n)" using that assms(2) by (auto simp: bget_target_def)
    then have "bkey (bcache t y) = k \<Longrightarrow> bkey (bcache s y) = k" for y
      by (auto simp: t_def bkey_def split: if_splits)
    moreover have "bkey (bcache t j) = k" using that cached_SomeD [OF that(2)] by (simp add: t_def)
    ultimately show ?thesis
      using that(2) find_shrink [of "\<lambda>i. bkey (bcache s i) = k" "mru s" j "\<lambda>i. bkey (bcache t i) = k"]
      by (simp add: cached_def t_def)
  qed
  show "cached t k = None" if "cached s k = None" "k \<noteq> (d, n)"
    using that by (auto simp: cached_def find_None_iff t_def bkey_def)
qed

lemma load_bview:
  assumes "bio_inv s" "bget_target s (d, n) i" "(d, n) \<notin> held_keys s"
  shows "bview (upd_buf i (load_buf d n s) s) = bview s"
proof (intro ext)
  fix d' n'
  let ?t = "upd_buf i (load_buf d n s) s"
  note c = load_cached [OF assms(1,2)]
  show "bview ?t d' n' = bview s d' n'"
  proof (cases "(d', n') = (d, n)")
    case True
    then show ?thesis using c(1) by (simp add: bview_def [of ?t])
  next
    case False
    show ?thesis
    proof (cases "cached s (d', n')")
      case None
      then show ?thesis using c(3) False by (simp add: bview_def)
    next
      case (Some j)
      show ?thesis
      proof (cases "j = i")
        case True
        then have key: "cached s (bkey (bcache s i)) = Some i" "bkey (bcache s i) = (d', n')"
          using cached_SomeD [OF Some] Some by auto
        then have "cached s (d, n) \<noteq> Some i" using False cached_SomeD [of s "(d, n)" i] by auto
        then have rec: "recyclable (bcache s i)" using bget_target_miss [OF assms(2)] by blast
        have "b_valid (bcache s i) \<longrightarrow> b_data (bcache s i) = disk s d' n'"
          using bio_invD(3) [OF assms(1) bget_target_lt [OF assms(1,2)]] rec key(2)
            bget_target_free(1) [OF assms]
          by (auto simp: buf_ok_def recyclable_def bkey_def Let_def)
        then have "bview s d' n' = disk s d' n'" using Some True by (simp add: bview_def)
        moreover have "\<not> b_valid (bcache ?t j')" if "cached ?t (d', n') = Some j'" for j'
        proof
          assume v: "b_valid (bcache ?t j')"
          have j': "j' \<in> set (mru s)" "bkey (bcache ?t j') = (d', n')" using cached_SomeD [OF that] by auto
          then have "j' \<noteq> i" using False by (auto simp: bkey_def)
          then have "cached s (d', n') = Some j'"
            using bio_invD(3) [OF assms(1), of j'] bio_invD(2) [OF assms(1)] v j'
            by (auto simp: buf_ok_def Let_def)
          then show False using Some True \<open>j' \<noteq> i\<close> by simp
        qed
        ultimately show ?thesis by (auto simp: bview_def [of ?t] split: option.splits)
      next
        case False
        then show ?thesis using c(2) [OF False Some] Some by (simp add: bview_def)
      qed
    qed
  qed
qed

lemma load_inv:
  assumes "bio_inv s" "bget_target s (d, n) i" "(d, n) \<notin> held_keys s"
  shows "bio_inv (upd_buf i (load_buf d n s) s)"
proof -
  let ?t = "upd_buf i (load_buf d n s) s"
  note c = load_cached [OF assms(1,2)]
  have "buf_ok ?t j" if "j < NBUF" for j
  proof (cases "j = i")
    case True
    then show ?thesis using c(1) bview_length [OF assms(1)]
      by (simp add: buf_ok_def Let_def bkey_def)
  next
    case False
    then show ?thesis using bio_invD(3) [OF assms(1) that] c(2) [OF False, of "bkey (bcache s j)"]
      by (auto simp: buf_ok_def Let_def)
  qed
  then show ?thesis using assms(1) by (simp add: bio_inv_def)
qed

lemma load_held:
  assumes "bio_inv s" "bget_target s (d, n) i" "(d, n) \<notin> held_keys s"
  shows "held (upd_buf i (load_buf d n s) s) = insert i (held s)" "i \<notin> held s"
  using bget_target_lt [OF assms(1,2)] bget_target_free [OF assms] by (auto simp: held_def)

lemma load_pinned:
  assumes "bio_inv s" "bget_target s (d, n) i"
  shows "pinned (upd_buf i (load_buf d n s) s) = pinned s"
proof -
  have "b_dirty (bcache s i) \<Longrightarrow> bkey (bcache s i) = (d, n)"
    using bget_target_miss [OF assms(2)] cached_SomeD [of s "(d, n)" i]
    by (auto simp: recyclable_def)
  then show ?thesis unfolding pinned_def by (intro image_cong) (auto simp: bkey_def)
qed

text \<open>A buffer is available while fewer than \<^verbatim>\<open>NBUF\<close> are held or pinned.\<close>

lemma bget_target_exists:
  assumes "bio_inv s" "card (held s) + card (pinned s) < NBUF"
  shows "\<exists>i. bget_target s k i"
proof (cases "cached s k")
  case (Some i)
  then show ?thesis by (auto simp: bget_target_def)
next
  case None
  let ?d = "{i. i < NBUF \<and> b_dirty (bcache s i)}"
  have "inj_on (\<lambda>i. bkey (bcache s i)) ?d"
  proof (rule inj_onI)
    fix i j assume "i \<in> ?d" "j \<in> ?d" "bkey (bcache s i) = bkey (bcache s j)"
    then show "i = j" using bio_invD(3) [OF assms(1), of i] bio_invD(3) [OF assms(1), of j]
      by (auto simp: buf_ok_def Let_def)
  qed
  then have "card (pinned s) = card ?d" unfolding pinned_def by (rule card_image)
  then have "card (held s \<union> ?d) < NBUF" using assms(2) card_Un_le [of "held s" ?d] by linarith
  moreover have "finite (held s \<union> ?d)" by (simp add: held_def)
  ultimately have "\<not> {..<NBUF} \<subseteq> held s \<union> ?d"
    using card_mono [of "held s \<union> ?d" "{..<NBUF}"] by auto
  then obtain i where i: "i < NBUF" "i \<notin> held s" "i \<notin> ?d" by auto
  then have "recyclable (bcache s i)"
    using bio_invD(3) [OF assms(1), of i] by (auto simp: recyclable_def buf_ok_def held_def Let_def)
  then have "find (\<lambda>i. recyclable (bcache s i)) (rev (mru s)) \<noteq> None"
    using i(1) bio_invD(2) [OF assms(1)] by (auto simp: find_None_iff)
  then show ?thesis using None by (auto simp: bget_target_def)
qed

section \<open>The operations under the contract\<close>

text \<open>The contract is stated on five things: the view, the media, the blocks held, the
  blocks pinned and who holds which block.  Everything else is a frame.\<close>

definition holds :: "'a bio_state_scheme \<Rightarrow> nat \<Rightarrow> u32 \<Rightarrow> u32 \<Rightarrow> bool" where
  "holds s i d n \<longleftrightarrow> i \<in> held s \<and> bkey (bcache s i) = (d, n)"

definition bio_frame :: "'a bio_state_scheme \<Rightarrow> 'a bio_state_scheme \<Rightarrow> bool" where
  "bio_frame s t \<longleftrightarrow> dev_sectors t = dev_sectors s \<and> dev_present t = dev_present s \<and>
     io_err t = io_err s \<and> curpid t = curpid s \<and> bio_state.more t = bio_state.more s"

text \<open>The contract looks at the cache's own fields only.\<close>

lemma bio_cong:
  assumes "bcache t = bcache s" "mru t = mru s" "disk t = disk s" "curpid t = curpid s"
  shows "bio_inv t = bio_inv s" "held_keys t = held_keys s" "pinned t = pinned s" "bview t = bview s"
    "holds t = holds s"
proof -
  have c: "cached t = cached s" using assms by (simp add: cached_def fun_eq_iff)
  show "bio_inv t = bio_inv s" using assms by (simp add: bio_inv_def buf_ok_def c)
  show "held_keys t = held_keys s" using assms by (simp add: held_keys_def held_def)
  show "pinned t = pinned s" using assms by (simp add: pinned_def)
  show "bview t = bview s" by (intro ext) (simp add: bview_def c assms split: option.splits)
  show "holds t = holds s" using assms by (simp add: holds_def held_def fun_eq_iff)
qed

lemma bio_frame_refl [simp]: "bio_frame s s"
  by (simp add: bio_frame_def)

lemma bio_frame_trans [trans]: "bio_frame s t \<Longrightarrow> bio_frame t u \<Longrightarrow> bio_frame s u"
  by (simp add: bio_frame_def)

lemma io_ok_frame: "bio_frame s t \<Longrightarrow> io_ok t = io_ok s"
  by (intro io_ok_cong) (simp_all add: bio_frame_def)

lemma holdsD:
  assumes "bio_inv s" "holds s i d n"
  shows "buf_held i s" "b_data (bcache s i) = bview s d n" "b_valid (bcache s i)"
    "cached s (d, n) = Some i" "i < NBUF" "(d, n) \<in> held_keys s" "b_refcnt (bcache s i) = 1"
    "sl_locked (b_lock (bcache s i))"
  using assms held_cached [OF assms(1), of i] bview_held [OF assms(1), of i d n]
  by (auto simp: holds_def held_def held_keys_def image_iff)

lemma holds_unique: "bio_inv s \<Longrightarrow> holds s i d n \<Longrightarrow> holds s j d n \<Longrightarrow> i = j"
  using holdsD(4) [of s i d n] holdsD(4) [of s j d n] by simp

lemma held_inj:
  assumes "bio_inv s"
  shows "inj_on (\<lambda>i. bkey (bcache s i)) (held s)"
proof (rule inj_onI)
  fix i j assume ij: "i \<in> held s" "j \<in> held s" "bkey (bcache s i) = bkey (bcache s j)"
  have "Some i = cached s (bkey (bcache s i))" using held_cached(1) [OF assms ij(1)] by (rule sym)
  also have "\<dots> = Some j" unfolding ij(3) by (rule held_cached(1) [OF assms ij(2)])
  finally show "i = j" by (rule option.inject [THEN iffD1])
qed

lemma finite_held [simp]: "finite (held s)" "finite (held_keys s)" "finite (pinned s)"
  by (simp_all add: held_def held_keys_def pinned_def)

lemma card_held_keys: "bio_inv s \<Longrightarrow> card (held_keys s) = card (held s)"
  unfolding held_keys_def by (rule card_image [OF held_inj])

lemma held_keys_holds: "held_keys s = {(d, n). \<exists>i. holds s i d n}"
  by (auto simp: held_keys_def holds_def) (metis image_eqI)

lemma pinned_holds:
  assumes "bio_inv s" "holds s i d n"
  shows "(d, n) \<in> pinned s \<longleftrightarrow> b_dirty (bcache s i)"
proof
  assume "(d, n) \<in> pinned s"
  then obtain j where j: "j < NBUF" "b_dirty (bcache s j)" "bkey (bcache s j) = (d, n)"
    by (auto simp: pinned_def)
  then have "cached s (d, n) = Some j" using bio_invD(3) [OF assms(1), of j]
    by (simp add: buf_ok_def Let_def)
  then show "b_dirty (bcache s i)" using holdsD(4) [OF assms] j by simp
qed (use assms in \<open>auto simp: pinned_def holds_def held_def image_iff\<close>)

lemma bget_target_pinned:
  assumes "bio_inv s" "k \<in> pinned s"
  shows "\<exists>i. bget_target s k i"
proof -
  obtain i where "i < NBUF" "b_dirty (bcache s i)" "bkey (bcache s i) = k"
    using assms(2) by (auto simp: pinned_def)
  then have "cached s k = Some i"
    using bio_invD(3) [OF assms(1), of i] by (auto simp: buf_ok_def Let_def)
  then show ?thesis by (auto simp: bget_target_def)
qed

lemma bread_ok:
  assumes "bio_inv s" "(d, n) \<notin> held_keys s" "io_ok s d n"
    and "(d, n) \<in> pinned s \<or> card (held_keys s) + card (pinned s) < NBUF"
  obtains i s' where "bread d n s = Some (i, s')" "bio_inv s'" "holds s' i d n"
    "b_data (bcache s' i) = bview s d n"
    "\<forall>j d' n'. holds s j d' n' \<longrightarrow> holds s' j d' n'" "held_keys s' = insert (d, n) (held_keys s)"
    "bview s' = bview s" "pinned s' = pinned s" "disk s' = disk s" "disk_log s' = disk_log s"
    "bio_frame s s'"
proof -
  obtain i where i: "bget_target s (d, n) i"
    using bget_target_exists [OF assms(1), of "(d, n)"] bget_target_pinned [OF assms(1), of "(d, n)"]
      assms(4) card_held_keys [OF assms(1)] by fastforce
  let ?t = "upd_buf i (load_buf d n s) s"
  note h = load_held [OF assms(1) i assms(2)]
  have "held_keys ?t = insert (d, n) (held_keys s)"
    using h by (auto simp: held_keys_def bkey_def image_iff)
  then show ?thesis
    using h bread_eq [OF assms(1) i assms(2,3)] load_inv [OF assms(1) i assms(2)]
      load_bview [OF assms(1) i assms(2)] load_pinned [OF assms(1) i]
    by (intro that [of i ?t]) (auto simp: holds_def bkey_def bio_frame_def)
qed

text \<open>An update that keeps a buffer's identity and its lock changes no lookup and no
  ownership.\<close>

lemma upd_buf_keep:
  assumes "bkey (f (bcache s i)) = bkey (bcache s i)" "b_lock (f (bcache s i)) = b_lock (bcache s i)"
  shows "cached (upd_buf i f s) = cached s" "holds (upd_buf i f s) = holds s"
    "held_keys (upd_buf i f s) = held_keys s"
proof -
  show "cached (upd_buf i f s) = cached s" by (rule cached_cong) (auto simp: assms)
  have "held (upd_buf i f s) = held s" by (auto simp: held_def assms)
  then show "holds (upd_buf i f s) = holds s" by (auto simp: holds_def fun_eq_iff assms)
  then show "held_keys (upd_buf i f s) = held_keys s" by (simp add: held_keys_holds)
qed

lemma bview_upd_buf:
  assumes "bio_inv s" "holds s i d n"
    and "bkey (f (bcache s i)) = (d, n)" "b_valid (f (bcache s i))" "cached t = cached s"
    and "bcache t = (bcache s)(i := f (bcache s i))"
    and "\<And>d' n'. (d', n') \<noteq> (d, n) \<Longrightarrow> disk t d' n' = disk s d' n'"
  shows "bview t = (bview s)(d := (bview s d)(n := b_data (f (bcache s i))))"
proof (intro ext)
  fix d' n'
  note h = holdsD [OF assms(1,2)]
  show "bview t d' n' = ((bview s)(d := (bview s d)(n := b_data (f (bcache s i))))) d' n'"
  proof (cases "(d', n') = (d, n)")
    case True
    then show ?thesis using h(4) assms(4) by (simp add: bview_def assms(5,6))
  next
    case False
    then have "cached s (d', n') \<noteq> Some i"
      using cached_SomeD [OF h(4)] cached_SomeD [of s "(d', n')" i] by auto
    then have "bview t d' n' = bview s d' n'"
      using assms(7) [OF False] by (auto simp: bview_def assms(5,6) split: option.splits)
    then show ?thesis using False by auto
  qed
qed

lemma set_data_ok:
  assumes "bio_inv s" "holds s i d n" "length v = BSIZE"
  shows "bio_inv (set_data i v s)" "holds (set_data i v s) = holds s"
    "held_keys (set_data i v s) = held_keys s"
    "bview (set_data i v s) = (bview s)(d := (bview s d)(n := v))" "pinned (set_data i v s) = pinned s"
    "disk (set_data i v s) = disk s" "disk_log (set_data i v s) = disk_log s"
    "bio_frame s (set_data i v s)"
proof -
  let ?f = "\<lambda>b. b\<lparr>b_data := v\<rparr>"
  let ?t = "upd_buf i ?f s"
  note h = holdsD [OF assms(1,2)]
  note keep = upd_buf_keep [of ?f s i]
  have "buf_ok ?t j" if "j < NBUF" for j
  proof (cases "j = i")
    case True
    then show ?thesis using bio_invD(3) [OF assms(1) that] h(3,8) assms(3)
      by (simp add: buf_ok_def keep(1) Let_def bkey_def)
  next
    case False
    then show ?thesis using bio_invD(3) [OF assms(1) that]
      by (simp add: buf_ok_def keep(1) Let_def bkey_def)
  qed
  then show "bio_inv (set_data i v s)" using assms(1) by (auto simp: bio_inv_def set_data_def)
  show "holds (set_data i v s) = holds s" "held_keys (set_data i v s) = held_keys s"
    using keep by (simp_all add: set_data_def bkey_def)
  show "pinned (set_data i v s) = pinned s" unfolding pinned_def
    by (intro image_cong) (auto simp: set_data_def bkey_def)
  show "bview (set_data i v s) = (bview s)(d := (bview s d)(n := v))"
    using bview_upd_buf [OF assms(1,2), of ?f ?t] h(3) cached_SomeD [OF h(4)] keep(1)
    by (simp add: set_data_def bkey_def)
qed (simp_all add: set_data_def bio_frame_def)

text \<open>Marking a held buffer dirty pins it.\<close>

lemma pin_ok:
  assumes "bio_inv s" "holds s i d n"
  defines "t \<equiv> upd_buf i (\<lambda>b. b\<lparr>b_dirty := True\<rparr>) s"
  shows "bio_inv t" "holds t = holds s" "held_keys t = held_keys s" "bview t = bview s"
    "pinned t = insert (d, n) (pinned s)" "bio_frame s t"
proof -
  let ?f = "\<lambda>b. b\<lparr>b_dirty := True\<rparr>"
  note h = holdsD [OF assms(1,2)]
  note keep = upd_buf_keep [of ?f s i]
  have "buf_ok t j" if "j < NBUF" for j
  proof (cases "j = i")
    case True
    then show ?thesis using bio_invD(3) [OF assms(1) that] h(3,8)
      by (simp add: buf_ok_def keep(1) Let_def bkey_def t_def)
  next
    case False
    then show ?thesis using bio_invD(3) [OF assms(1) that]
      by (simp add: buf_ok_def keep(1) Let_def bkey_def t_def)
  qed
  then show "bio_inv t" using assms(1) by (auto simp: bio_inv_def t_def)
  show "holds t = holds s" "held_keys t = held_keys s"
    using keep by (simp_all add: t_def bkey_def)
  have "{j. j < NBUF \<and> b_dirty (bcache t j)} = insert i {j. j < NBUF \<and> b_dirty (bcache s j)}"
    using h(5) by (auto simp: t_def)
  moreover have "bkey (bcache t j) = bkey (bcache s j)" for j by (simp add: t_def bkey_def)
  ultimately show "pinned t = insert (d, n) (pinned s)"
    using cached_SomeD [OF h(4)] by (simp add: pinned_def)
  show "bview t = bview s"
    using bview_upd_buf [OF assms(1,2), of ?f t] h(2,3) cached_SomeD [OF h(4)] keep(1)
    by (simp add: t_def bkey_def)
qed (simp add: t_def bio_frame_def)

lemma image_minus: "f i = k \<Longrightarrow> (\<And>j. j \<in> A \<Longrightarrow> j \<noteq> i \<Longrightarrow> f j \<noteq> k) \<Longrightarrow> f ` (A - {i}) = f ` A - {k}"
  by auto

lemma bwrite_ok:
  assumes "bio_inv s" "holds s i d n" "io_ok s d n"
  obtains t where "bwrite i s = Some t" "bio_inv t" "holds t = holds s" "held_keys t = held_keys s"
    "bview t = bview s" "pinned t = pinned s - {(d, n)}"
    "disk t = (disk s)(d := (disk s d)(n := bview s d n))"
    "disk_log t = disk_log s @ [(d, n, bview s d n)]" "bio_frame s t"
proof -
  let ?f = "\<lambda>b. b\<lparr>b_dirty := False\<rparr>"
  let ?s1 = "upd_buf i (\<lambda>b. b\<lparr>b_dirty := True\<rparr>) s"
  let ?t = "upd_buf i ?f (disk_write d n (bview s d n) ?s1)"
  note h = holdsD [OF assms(1,2)]
  have key: "bkey (bcache s i) = (d, n)" using assms(2) by (simp add: holds_def)
  have bc: "bcache ?t = (bcache s)(i := ?f (bcache s i))" by simp
  have "buf_held i ?s1" using h(1) by (simp add: buf_held_def)
  then have eq: "bwrite i s = Some ?t"
    using blockdev_rw_write [of i ?s1 d n] h(1,2,3) key assms(3)
    by (simp add: bwrite_def bkey_def)
  have c: "cached ?t = cached s" by (rule cached_cong) (auto simp: bkey_def)
  have heq: "held ?t = held s" "bkey (bcache ?t j) = bkey (bcache s j)" for j
    by (auto simp: held_def bkey_def)
  then have hold: "holds ?t = holds s" by (auto simp: holds_def fun_eq_iff)
  have "buf_ok ?t j" if "j < NBUF" for j
  proof (cases "j = i")
    case True
    then show ?thesis using bio_invD(3) [OF assms(1) that] h(3,8) key
      by (simp add: buf_ok_def c Let_def bkey_def)
  next
    case False
    then have "b_valid (bcache s j) \<Longrightarrow> bkey (bcache s j) \<noteq> (d, n)"
      using bio_invD(3) [OF assms(1) that] h(4) by (auto simp: buf_ok_def Let_def)
    then show ?thesis using bio_invD(3) [OF assms(1) that] False
      by (auto simp: buf_ok_def c Let_def bkey_def)
  qed
  then have inv: "bio_inv ?t"
    using assms(1) bview_length [OF assms(1)] by (simp add: bio_inv_def)
  have view: "bview ?t = bview s"
    using bview_upd_buf [OF assms(1,2), of ?f ?t] key h(2,3) c by (simp add: bkey_def)
  have "bkey (bcache s j) \<noteq> (d, n)" if "j < NBUF" "b_dirty (bcache s j)" "j \<noteq> i" for j
    using bio_invD(3) [OF assms(1) that(1)] that h(4) by (auto simp: buf_ok_def Let_def)
  then have "(\<lambda>j. bkey (bcache s j)) ` ({j. j < NBUF \<and> b_dirty (bcache s j)} - {i}) = pinned s - {(d, n)}"
    unfolding pinned_def using key by (intro image_minus) auto
  moreover have "pinned ?t = (\<lambda>j. bkey (bcache s j)) ` ({j. j < NBUF \<and> b_dirty (bcache s j)} - {i})"
    unfolding pinned_def by (rule image_cong) (auto simp: bkey_def)
  ultimately have pin: "pinned ?t = pinned s - {(d, n)}" by simp
  show ?thesis
    by (rule that [OF eq inv hold _ view pin]) (simp_all add: hold held_keys_holds bio_frame_def)
qed

lemma brelse_ok:
  assumes "bio_inv s" "holds s i d n" "(d, n) \<in> pinned s \<or> bview s d n = disk s d n"
  obtains t where "brelse i s = Some t" "bio_inv t"
    "\<forall>j d' n'. holds t j d' n' \<longleftrightarrow> holds s j d' n' \<and> j \<noteq> i"
    "held_keys t = held_keys s - {(d, n)}" "bview t = bview s" "pinned t = pinned s"
    "disk t = disk s" "disk_log t = disk_log s" "bio_frame s t"
proof -
  let ?f = "\<lambda>b. b\<lparr>b_lock := initsleeplock, b_refcnt := 0\<rparr>"
  let ?t = "(upd_buf i ?f s)\<lparr>mru := i # remove1 i (mru s)\<rparr>"
  note h = holdsD [OF assms(1,2)]
  have key: "bkey (bcache s i) = (d, n)" "i \<in> held s" using assms(2) by (simp_all add: holds_def)
  have i: "i \<in> set (mru s)" using cached_SomeD [OF h(4)] by simp
  have eq: "brelse i s = Some ?t"
    using h(1,7) by (simp add: brelse_def releasesleep_def initsleeplock_def Let_def)
  have c: "cached ?t = cached s"
  proof
    fix k
    show "cached ?t k = cached s k"
    proof (cases "k = (d, n)")
      case True
      then show ?thesis using h(4) key by (simp add: cached_def bkey_def)
    next
      case False
      then show ?thesis using key
        by (auto simp: cached_def bkey_def find_remove1 intro!: find_cong)
    qed
  qed
  have inv: "bio_inv ?t"
  proof -
    have "buf_ok ?t j" if "j < NBUF" for j
    proof (cases "j = i")
      case True
      then show ?thesis using bio_invD(3) [OF assms(1) that] h(2,3,8) key(1) assms(3) pinned_holds [OF assms(1,2)]
        by (simp add: buf_ok_def c Let_def bkey_def) metis
    next
      case False
      then show ?thesis using bio_invD(3) [OF assms(1) that] by (simp add: buf_ok_def c Let_def)
    qed
    moreover have "distinct (i # remove1 i (mru s))" "set (i # remove1 i (mru s)) = {..<NBUF}"
      using bio_invD(1,2) [OF assms(1)] i h(5) by (auto simp: insert_absorb)
    ultimately show ?thesis using assms(1) by (simp add: bio_inv_def)
  qed
  have hold: "\<forall>j d' n'. holds ?t j d' n' \<longleftrightarrow> holds s j d' n' \<and> j \<noteq> i"
    by (auto simp: holds_def held_def bkey_def)
  have "bview ?t = (bview s)(d := (bview s d)(n := b_data (?f (bcache s i))))"
    by (rule bview_upd_buf [OF assms(1,2) _ _ c]) (use h(3) key in \<open>simp_all add: bkey_def\<close>)
  then have view: "bview ?t = bview s" using h(2) by simp
  have pin: "pinned ?t = pinned s" unfolding pinned_def
    by (intro image_cong) (auto simp: bkey_def)
  have "(\<exists>j. holds s j d' n' \<and> j \<noteq> i) \<longleftrightarrow> (\<exists>j. holds s j d' n') \<and> (d', n') \<noteq> (d, n)" for d' n'
    using key(1) holds_unique [OF assms(1,2)] by (auto simp: holds_def)
  then have "held_keys ?t = held_keys s - {(d, n)}"
    by (simp add: held_keys_holds hold) blast
  then show ?thesis
    by (intro that [OF eq inv hold _ view pin]) (simp_all add: bio_frame_def)
qed

section \<open>The block cache as an interface\<close>

text \<open>What the clients of the cache rely on, for blocks \<open>'k\<close>, contents \<open>'v\<close> and handles
  \<open>'h\<close>: a block that nobody holds can be taken, its holder sees its content, a flush
  puts it on the medium, and nothing else moves.\<close>

locale block_cache =
  fixes inv :: "'s \<Rightarrow> bool" and view :: "'s \<Rightarrow> 'k \<Rightarrow> 'v" and medium :: "'s \<Rightarrow> 'k \<Rightarrow> 'v"
    and hist :: "'s \<Rightarrow> ('k \<times> 'v) list" and taken :: "'s \<Rightarrow> 'k set" and pins :: "'s \<Rightarrow> 'k set"
    and owner :: "'s \<Rightarrow> 'h \<Rightarrow> 'k \<Rightarrow> bool" and good :: "'v \<Rightarrow> bool"
    and reachable :: "'s \<Rightarrow> 'k \<Rightarrow> bool" and free_slot :: "'s \<Rightarrow> bool" and frame :: "'s \<Rightarrow> 's \<Rightarrow> bool"
    and get :: "'k \<Rightarrow> 's \<Rightarrow> ('h \<times> 's) option" and content :: "'h \<Rightarrow> 's \<Rightarrow> 'v"
    and put :: "'h \<Rightarrow> 'v \<Rightarrow> 's \<Rightarrow> 's" and flush :: "'h \<Rightarrow> 's \<Rightarrow> 's option" and rel :: "'h \<Rightarrow> 's \<Rightarrow> 's option"
  assumes get_law: "inv s \<Longrightarrow> k \<notin> taken s \<Longrightarrow> reachable s k \<Longrightarrow> free_slot s \<Longrightarrow>
      \<exists>h t. get k s = Some (h, t) \<and> inv t \<and> owner t h k \<and> content h t = view s k \<and>
        taken t = insert k (taken s) \<and> view t = view s \<and> medium t = medium s \<and> hist t = hist s \<and>
        pins t = pins s \<and> frame s t"
    and put_law: "inv s \<Longrightarrow> owner s h k \<Longrightarrow> good v \<Longrightarrow>
      inv (put h v s) \<and> owner (put h v s) = owner s \<and> taken (put h v s) = taken s \<and>
        view (put h v s) = (view s)(k := v) \<and> medium (put h v s) = medium s \<and>
        hist (put h v s) = hist s \<and> pins (put h v s) = pins s \<and> frame s (put h v s)"
    and flush_law: "inv s \<Longrightarrow> owner s h k \<Longrightarrow> reachable s k \<Longrightarrow>
      \<exists>t. flush h s = Some t \<and> inv t \<and> owner t = owner s \<and> taken t = taken s \<and> view t = view s \<and>
        medium t = (medium s)(k := view s k) \<and> hist t = hist s @ [(k, view s k)] \<and>
        pins t = pins s - {k} \<and> frame s t"
    and rel_law: "inv s \<Longrightarrow> owner s h k \<Longrightarrow> k \<in> pins s \<or> view s k = medium s k \<Longrightarrow>
      \<exists>t. rel h s = Some t \<and> inv t \<and> taken t = taken s - {k} \<and> view t = view s \<and>
        medium t = medium s \<and> hist t = hist s \<and> pins t = pins s \<and> frame s t"
    and clean_law: "inv s \<Longrightarrow> k \<notin> taken s \<Longrightarrow> k \<in> pins s \<or> view s k = medium s k"
    and frame_reachable: "frame s t \<Longrightarrow> reachable t = reachable s"
    and frame_trans: "frame s t \<Longrightarrow> frame t u \<Longrightarrow> frame s u"
begin

text \<open>Take a block, look at it, give it back.\<close>

lemma read_cycle:
  assumes "inv s" "k \<notin> taken s" "reachable s k" "free_slot s"
  obtains h s1 t where "get k s = Some (h, s1)" "content h s1 = view s k" "rel h s1 = Some t"
    "inv t" "taken t = taken s" "view t = view s" "medium t = medium s" "hist t = hist s"
    "pins t = pins s" "frame s t"
proof -
  obtain h s1 where g: "get k s = Some (h, s1)" "inv s1" "owner s1 h k" "content h s1 = view s k"
    "taken s1 = insert k (taken s)" "view s1 = view s" "medium s1 = medium s" "hist s1 = hist s"
    "pins s1 = pins s" "frame s s1"
    using get_law [OF assms] by blast
  have "k \<in> pins s1 \<or> view s1 k = medium s1 k" using clean_law [OF assms(1,2)] g by simp
  from rel_law [OF g(2,3) this] obtain t where "rel h s1 = Some t" "inv t"
    "taken t = taken s1 - {k}" "view t = view s1" "medium t = medium s1" "hist t = hist s1"
    "pins t = pins s1" "frame s1 t" by blast
  with g assms(2) show ?thesis by (intro that [of h s1 t]) (auto intro: frame_trans)
qed

text \<open>Take a block, store a new content, write it through and give it back.\<close>

lemma write_cycle:
  assumes "inv s" "k \<notin> taken s" "reachable s k" "free_slot s"
    and "good (f (view s k))"
  obtains h s1 s2 t where "get k s = Some (h, s1)" "content h s1 = view s k"
    "flush h (put h (f (view s k)) s1) = Some s2" "rel h s2 = Some t" "inv t" "taken t = taken s"
    "view t = (view s)(k := f (view s k))" "medium t = (medium s)(k := f (view s k))"
    "hist t = hist s @ [(k, f (view s k))]" "pins t = pins s - {k}" "frame s t"
proof -
  obtain h s1 where g: "get k s = Some (h, s1)" "inv s1" "owner s1 h k" "content h s1 = view s k"
    "taken s1 = insert k (taken s)" "view s1 = view s" "medium s1 = medium s" "hist s1 = hist s"
    "pins s1 = pins s" "frame s s1"
    using get_law [OF assms(1-4)] by blast
  let ?p = "put h (f (view s k)) s1"
  note p = put_law [OF g(2,3) assms(5)]
  have "frame s ?p" using p g(10) frame_trans by blast
  then have "reachable ?p k" using frame_reachable assms(3) by metis
  moreover have "inv ?p" "owner ?p h k" using p g(3) by simp_all
  ultimately obtain s2 where s2: "flush h ?p = Some s2" "inv s2" "owner s2 = owner ?p"
    "taken s2 = taken ?p" "view s2 = view ?p" "medium s2 = (medium ?p)(k := view ?p k)"
    "hist s2 = hist ?p @ [(k, view ?p k)]" "pins s2 = pins ?p - {k}" "frame ?p s2"
    using flush_law by blast
  have "owner s2 h k" "k \<in> pins s2 \<or> view s2 k = medium s2 k" using s2 p g(3) by simp_all
  from rel_law [OF s2(2) this] obtain t where t: "rel h s2 = Some t" "inv t"
    "taken t = taken s2 - {k}" "view t = view s2" "medium t = medium s2" "hist t = hist s2"
    "pins t = pins s2" "frame s2 t" by blast
  have "frame s t" using \<open>frame s ?p\<close> s2(9) t(8) frame_trans by blast
  then show ?thesis using g s2 p t assms(2) by (intro that [of h s1 s2 t]) auto
qed

end

definition bget_k :: "u32 \<times> u32 \<Rightarrow> 'a bio_state_scheme \<Rightarrow> (nat \<times> 'a bio_state_scheme) option" where
  "bget_k k s = bread (fst k) (snd k) s"

definition slot_free :: "'a bio_state_scheme \<Rightarrow> bool" where
  "slot_free s \<longleftrightarrow> card (held_keys s) + card (pinned s) < NBUF"

lemma pinned_or_clean:
  assumes "bio_inv s" "(d, n) \<notin> held_keys s"
  shows "(d, n) \<in> pinned s \<or> bview s d n = disk s d n"
proof (cases "cached s (d, n)")
  case (Some i)
  have i: "i < NBUF" "bkey (bcache s i) = (d, n)"
    using cached_lt [OF assms(1) Some] cached_SomeD [OF Some] by simp_all
  then have "\<not> sl_locked (b_lock (bcache s i))"
    using assms(2) by (auto simp: held_keys_def held_def image_iff)
  moreover have "(d, n) \<in> pinned s" if "b_dirty (bcache s i)"
    unfolding pinned_def using that i by (intro image_eqI [of _ _ i]) simp_all
  ultimately show ?thesis
    using bio_invD(3) [OF assms(1) i(1)] i(2) Some by (auto simp: bview_def buf_ok_def Let_def bkey_def)
qed (simp add: bview_def)

lemma case_prod_upd: "(\<lambda>(x, y). (f(a := (f a)(b := v))) x y) = (\<lambda>(x, y). f x y)((a, b) := v)"
  by (auto simp: fun_eq_iff)

interpretation bc: block_cache bio_inv "\<lambda>s (d, n). bview s d n" "\<lambda>s (d, n). disk s d n"
  "\<lambda>s. map (\<lambda>(d, n, v). ((d, n), v)) (disk_log s)" held_keys pinned "\<lambda>s i (d, n). holds s i d n"
  "\<lambda>v. length v = BSIZE" "\<lambda>s (d, n). io_ok s d n" slot_free bio_frame bget_k
  "\<lambda>i s. b_data (bcache s i)" set_data bwrite brelse
proof (unfold_locales, goal_cases)
  case (1 s k)
  obtain d n where k: "k = (d, n)" by (cases k)
  have pre: "bio_inv s" "(d, n) \<notin> held_keys s" "io_ok s d n"
      "(d, n) \<in> pinned s \<or> card (held_keys s) + card (pinned s) < NBUF"
    using 1 by (simp_all add: k slot_free_def)
  from bread_ok [OF pre] obtain i t where "bread d n s = Some (i, t)" "bio_inv t" "holds t i d n"
    "b_data (bcache t i) = bview s d n" "held_keys t = insert (d, n) (held_keys s)"
    "bview t = bview s" "pinned t = pinned s" "disk t = disk s" "disk_log t = disk_log s" "bio_frame s t"
    by metis
  then show ?case by (intro exI [of _ i] exI [of _ t]) (simp add: k bget_k_def)
next
  case (2 s i k v)
  obtain d n where k: "k = (d, n)" by (cases k)
  show ?case using 2 set_data_ok [of s i d n v] by (simp add: k case_prod_upd del: fun_upd_apply)
next
  case (3 s i k)
  obtain d n where k: "k = (d, n)" by (cases k)
  have pre: "bio_inv s" "holds s i d n" "io_ok s d n" using 3 by (simp_all add: k)
  from bwrite_ok [OF pre] obtain t where "bwrite i s = Some t" "bio_inv t" "holds t = holds s"
    "held_keys t = held_keys s" "bview t = bview s" "pinned t = pinned s - {(d, n)}"
    "disk t = (disk s)(d := (disk s d)(n := bview s d n))"
    "disk_log t = disk_log s @ [(d, n, bview s d n)]" "bio_frame s t"
    by metis
  then show ?case by (intro exI [of _ t]) (simp add: k case_prod_upd del: fun_upd_apply)
next
  case (4 s i k)
  obtain d n where k: "k = (d, n)" by (cases k)
  have pre: "bio_inv s" "holds s i d n" "(d, n) \<in> pinned s \<or> bview s d n = disk s d n"
    using 4 by (simp_all add: k)
  from brelse_ok [OF pre] obtain t where "brelse i s = Some t" "bio_inv t"
    "held_keys t = held_keys s - {(d, n)}" "bview t = bview s" "pinned t = pinned s"
    "disk t = disk s" "disk_log t = disk_log s" "bio_frame s t"
    by metis
  then show ?case by (intro exI [of _ t]) (simp add: k)
next
  case (5 s k)
  then show ?case using pinned_or_clean [of s "fst k" "snd k"] by (simp add: case_prod_beta)
next
  case (6 s t)
  then show ?case by (simp add: io_ok_frame)
next
  case (7 s t u)
  then show ?case by (rule bio_frame_trans)
qed

text \<open>The two cycles of the interface, spelled for the cache.\<close>

lemma case_prod_inject: "(\<lambda>(x, y). f x y) = (\<lambda>(x, y). g x y) \<longleftrightarrow> f = g"
  by (metis curry_case_prod)

lemma hist_inject:
  fixes xs ys :: "(u32 \<times> u32 \<times> bytes) list"
  shows "map (\<lambda>(d, n, v). ((d, n), v)) xs = map (\<lambda>(d, n, v). ((d, n), v)) ys \<longleftrightarrow> xs = ys"
proof -
  have "inj (\<lambda>(d :: u32, n :: u32, v :: bytes). ((d, n), v))" by (auto simp: inj_def)
  then show ?thesis by (rule inj_map_eq_map)
qed

lemma bread_release:
  assumes "bio_inv s" "(d, n) \<notin> held_keys s" "io_ok s d n" "slot_free s"
  obtains i s1 t where "bread d n s = Some (i, s1)" "b_data (bcache s1 i) = bview s d n"
    "brelse i s1 = Some t" "bio_inv t" "held_keys t = held_keys s" "bview t = bview s" "disk t = disk s"
    "disk_log t = disk_log s" "pinned t = pinned s" "bio_frame s t"
proof (rule bc.read_cycle [of s "(d, n)"], goal_cases)
  case (5 i s1 t)
  then show ?case
    by (intro that [of i s1 t]) (simp_all add: bget_k_def case_prod_inject hist_inject)
qed (use assms in simp_all)

lemma bread_write_release:
  assumes "bio_inv s" "(d, n) \<notin> held_keys s" "io_ok s d n" "slot_free s" "length (f (bview s d n)) = BSIZE"
  obtains i s1 s2 t where "bread d n s = Some (i, s1)" "b_data (bcache s1 i) = bview s d n"
    "bwrite i (set_data i (f (bview s d n)) s1) = Some s2" "brelse i s2 = Some t" "bio_inv t"
    "held_keys t = held_keys s" "bview t = (bview s)(d := (bview s d)(n := f (bview s d n)))"
    "disk t = (disk s)(d := (disk s d)(n := f (bview s d n)))"
    "disk_log t = disk_log s @ [(d, n, f (bview s d n))]" "pinned t = pinned s - {(d, n)}" "bio_frame s t"
proof (rule bc.write_cycle [of s "(d, n)" f], goal_cases)
  case (6 i s1 s2 t)
  have "map (\<lambda>(d, n, v). ((d, n), v)) (disk_log t) =
      map (\<lambda>(d, n, v). ((d, n), v)) (disk_log s @ [(d, n, f (bview s d n))])" using 6(10) by simp
  then have "disk_log t = disk_log s @ [(d, n, f (bview s d n))]" unfolding hist_inject .
  then show ?case using 6
    by (intro that [of i s1 s2 t])
      (simp_all add: bget_k_def case_prod_inject flip: case_prod_upd del: fun_upd_apply)
qed (use assms in simp_all)

section \<open>Properties of the cache\<close>

lemma binit_inv:
  assumes "\<And>i. \<not> b_valid (bcache s i) \<and> \<not> b_dirty (bcache s i) \<and> b_refcnt (bcache s i) = 0"
    and "\<And>d n. length (disk s d n) = BSIZE"
  shows "bio_inv (binit s)" "held_keys (binit s) = {}" "pinned (binit s) = {}" "bview (binit s) = disk s"
  using assms
  by (auto simp: bio_inv_def buf_ok_def binit_def held_keys_def held_def pinned_def bview_def
    atLeast0LessThan Let_def fun_eq_iff split: option.splits)

text \<open>C11. Reading a block is coherent: unless the caller already holds it, a reachable
  block can be read while fewer than 30 blocks are held or pinned; the buffer returned is
  held by the caller and has the block's current content; and neither the read nor giving
  the buffer back changes the content of any block, a medium or the set of pinned blocks.\<close>

theorem bread_coherent:
  assumes "bio_inv s" "(d, n) \<notin> held_keys s" "io_ok s d n"
    and "card (held_keys s) + card (pinned s) < NBUF"
  shows "\<exists>i t u. bread d n s = Some (i, t) \<and> holds t i d n \<and> b_data (bcache t i) = bview s d n \<and>
    bio_inv t \<and> bview t = bview s \<and> disk t = disk s \<and> pinned t = pinned s \<and>
    brelse i t = Some u \<and> bio_inv u \<and> bview u = bview s \<and> disk u = disk s \<and>
    pinned u = pinned s \<and> held_keys u = held_keys s"
proof -
  from bread_ok [OF assms(1-3) disjI2 [OF assms(4)]] obtain i t where t: "bread d n s = Some (i, t)" "bio_inv t" "holds t i d n"
    "b_data (bcache t i) = bview s d n" "held_keys t = insert (d, n) (held_keys s)"
    "bview t = bview s" "pinned t = pinned s" "disk t = disk s" by metis
  have "(d, n) \<in> pinned t \<or> bview t d n = disk t d n"
    using pinned_or_clean [OF assms(1,2)] t by simp
  from brelse_ok [OF t(2,3) this] obtain u where "brelse i t = Some u" "bio_inv u"
    "held_keys u = held_keys t - {(d, n)}" "bview u = bview t" "pinned u = pinned t" "disk u = disk t"
    by metis
  with t assms(2) show ?thesis by (intro exI [of _ i] exI [of _ t] exI [of _ u]) simp
qed

text \<open>A machine with a ramdisk of \<open>sectors\<close> zeroed sectors and an empty cache.\<close>

definition ram_machine :: "u64 \<Rightarrow> bio_state" where
  "ram_machine sectors = binit
     \<lparr>bcache = (\<lambda>_. \<lparr>b_valid = False, b_dirty = False, b_dev = 0, b_blockno = 0,
        b_lock = initsleeplock, b_refcnt = 0, b_data = []\<rparr>),
      mru = [], disk = (\<lambda>_ _. replicate BSIZE 0), dev_sectors = (\<lambda>_. 0)(28 := sectors),
      dev_present = (\<lambda>_. False), io_err = (\<lambda>_ _. False), disk_log = [], curpid = 1\<rparr>"

lemma ram_machine_inv:
  "bio_inv (ram_machine k)" "held_keys (ram_machine k) = {}" "pinned (ram_machine k) = {}"
  "bview (ram_machine k) = (\<lambda>_ _. replicate BSIZE 0)" "disk (ram_machine k) = (\<lambda>_ _. replicate BSIZE 0)"
  by (simp_all add: ram_machine_def binit_inv) (simp add: binit_def)

lemma ram_machine_io: "io_ok (ram_machine k) 28 n \<longleftrightarrow> ucast n + 1 \<le> k"
  by (simp add: io_ok_def ram_machine_def binit_def)

theorem bread_coherent_witness:
  "\<exists>i t. bread 28 5 (ram_machine 10) = Some (i, t) \<and> b_data (bcache t i) = replicate BSIZE 0"
proof -
  have "io_ok (ram_machine 10) 28 5" by (simp add: ram_machine_io)
  then show ?thesis
    using bread_coherent [of "ram_machine 10" 28 5] ram_machine_inv [of 10] by auto
qed

text \<open>C21. A read-modify-write cycle is written through: taking a block, storing a new
  content, \<^verbatim>\<open>bwrite\<close> and \<^verbatim>\<open>brelse\<close> put exactly that content on the medium as one disk write,
  make it the block's content, and change no other block.\<close>

theorem bwrite_through:
  assumes "bio_inv s" "(d, n) \<notin> held_keys s" "io_ok s d n"
    and "card (held_keys s) + card (pinned s) < NBUF" "length v = BSIZE"
  shows "\<exists>i t u w. bread d n s = Some (i, t) \<and> bwrite i (set_data i v t) = Some u \<and> brelse i u = Some w \<and>
    bio_inv w \<and> bview w = (bview s)(d := (bview s d)(n := v)) \<and>
    disk w = (disk s)(d := (disk s d)(n := v)) \<and> disk_log w = disk_log s @ [(d, n, v)] \<and>
    held_keys w = held_keys s"
proof -
  from bread_ok [OF assms(1-3) disjI2 [OF assms(4)]] obtain i t where t: "bread d n s = Some (i, t)" "bio_inv t" "holds t i d n"
    "held_keys t = insert (d, n) (held_keys s)" "bview t = bview s" "disk t = disk s"
    "disk_log t = disk_log s" "bio_frame s t" by metis
  note p = set_data_ok [OF t(2,3) assms(5)]
  have "io_ok (set_data i v t) d n" using assms(3) io_ok_frame [OF t(8)] io_ok_frame [OF p(8)] by simp
  moreover have "holds (set_data i v t) i d n" using p(2) t(3) by simp
  ultimately obtain u where u: "bwrite i (set_data i v t) = Some u" "bio_inv u"
    "holds u = holds (set_data i v t)" "held_keys u = held_keys (set_data i v t)"
    "bview u = bview (set_data i v t)"
    "disk u = (disk (set_data i v t))(d := (disk (set_data i v t) d)(n := bview (set_data i v t) d n))"
    "disk_log u = disk_log (set_data i v t) @ [(d, n, bview (set_data i v t) d n)]"
    using bwrite_ok [OF p(1)] by metis
  have "holds u i d n" "(d, n) \<in> pinned u \<or> bview u d n = disk u d n"
    using u p t(3) by simp_all
  from brelse_ok [OF u(2) this] obtain w where "brelse i u = Some w" "bio_inv w"
    "held_keys w = held_keys u - {(d, n)}" "bview w = bview u" "disk w = disk u" "disk_log w = disk_log u"
    by metis
  with t u p assms(2) show ?thesis
    by (intro exI [of _ i] exI [of _ t] exI [of _ u] exI [of _ w]) simp
qed

theorem bwrite_through_witness:
  "\<exists>i t u w. bread 28 5 (ram_machine 10) = Some (i, t) \<and>
     bwrite i (set_data i (replicate BSIZE 7) t) = Some u \<and> brelse i u = Some w \<and>
     disk w 28 5 = replicate BSIZE 7"
proof -
  have "io_ok (ram_machine 10) 28 5" by (simp add: ram_machine_io)
  from bwrite_through [OF ram_machine_inv(1) _ this, of "replicate BSIZE 7"] show ?thesis
    by (auto simp: ram_machine_inv simp del: replicate.simps)
qed

text \<open>The cache does run out: when every buffer is held or pinned by an uncommitted
  transaction and none of them is the block asked for, \<^verbatim>\<open>bread\<close> does not return (\<^verbatim>\<open>bget\<close>
  panics), whatever the block.\<close>

theorem bread_no_buffers:
  assumes "\<forall>i \<in> set (mru s). b_refcnt (bcache s i) \<noteq> 0 \<or> b_dirty (bcache s i)"
    and "\<forall>i \<in> set (mru s). bkey (bcache s i) \<noteq> (d, n)"
  shows "bread d n s = None"
proof -
  have "cached s (d, n) = None" using assms(2) by (auto simp: cached_def find_None_iff)
  moreover have "find (\<lambda>i. recyclable (bcache s i)) (rev (mru s)) = None"
    using assms(1) by (auto simp: find_None_iff recyclable_def)
  ultimately show ?thesis by (simp add: bread_def bget_def)
qed

theorem bread_no_buffers_witness:
  "bread 28 77 ((ram_machine 99)\<lparr>bcache := (\<lambda>i. \<lparr>b_valid = True, b_dirty = True, b_dev = 28,
     b_blockno = of_nat i, b_lock = initsleeplock, b_refcnt = 0, b_data = replicate BSIZE 0\<rparr>)\<rparr>) = None"
proof (rule bread_no_buffers)
  have "mru (ram_machine 99) = rev [0..<NBUF]" by (simp add: ram_machine_def binit_def)
  moreover have "(of_nat i :: u32) \<noteq> 77" if "i < NBUF" for i
  proof
    assume "(of_nat i :: u32) = 77"
    then have "unat (of_nat i :: u32) = 77" by simp
    then show False using that by simp
  qed
  ultimately show "\<forall>i \<in> set (mru ((ram_machine 99)\<lparr>bcache := (\<lambda>i. \<lparr>b_valid = True, b_dirty = True,
      b_dev = 28, b_blockno = of_nat i, b_lock = initsleeplock, b_refcnt = 0, b_data = replicate BSIZE 0\<rparr>)\<rparr>)).
    bkey (bcache ((ram_machine 99)\<lparr>bcache := (\<lambda>i. \<lparr>b_valid = True, b_dirty = True, b_dev = 28,
      b_blockno = of_nat i, b_lock = initsleeplock, b_refcnt = 0, b_data = replicate BSIZE 0\<rparr>)\<rparr>) i) \<noteq> (28, 77)"
    by (simp add: bkey_def)
qed (simp add: ram_machine_def)

end
