(* ===== verification/Blockdev.thy ===== *)
theory Blockdev
  imports Bio
begin

text \<open>
  The byte-range transport of \<^verbatim>\<open>kern/blockdev.c\<close>: \<^verbatim>\<open>blockdev_read\<close> and \<^verbatim>\<open>blockdev_write\<close> on
  a bounded volume, sector by sector through the buffer cache.  A result is the C
  return value, the bytes stored at \<open>dst\<close> so far, and the state.  The volume and the
  buffers are values, so the tests for null pointers have no counterpart.
\<close>

record blockdev =
  bd_device :: u32
  bd_first_lba :: u64
  bd_sector_count :: u64

abbreviation SECTOR :: u64 where "SECTOR \<equiv> 512"

definition range_refused :: "blockdev \<Rightarrow> u64 \<Rightarrow> u32 \<Rightarrow> bool" where
  "range_refused vol offset len \<longleftrightarrow>
     bd_sector_count vol > NOT 0 div SECTOR \<or>
     offset > bd_sector_count vol * SECTOR \<or>
     ucast len > bd_sector_count vol * SECTOR - offset"

definition in_sector :: "u64 \<Rightarrow> u32" where
  "in_sector offset = ucast (offset mod SECTOR)"

definition chunk :: "u64 \<Rightarrow> u32 \<Rightarrow> u32" where
  "chunk offset len = (let count = 512 - in_sector offset in if count > len then len else count)"

definition absolute_lba :: "blockdev \<Rightarrow> u64 \<Rightarrow> u64" where
  "absolute_lba vol offset = bd_first_lba vol + offset div SECTOR"

lemma unat_in_sector: "unat (in_sector offset) = unat offset mod 512"
proof -
  have "unat (offset mod SECTOR) = unat offset mod 512" by (simp add: unat_mod)
  moreover have "unat (ucast (w :: u64) :: u32) = unat w" if "unat w < 512" for w
    using that by (simp add: unsigned_ucast_eq take_bit_nat_eq_self)
  ultimately show ?thesis by (simp add: in_sector_def)
qed

lemma unat_chunk: "unat (chunk offset len) = min (unat len) (512 - unat offset mod 512)"
proof -
  have "unat (512 - in_sector offset) = 512 - unat offset mod 512"
    using unat_in_sector [of offset] by (subst unat_sub) (simp_all add: word_le_nat_alt)
  then show ?thesis by (auto simp: chunk_def Let_def word_less_nat_alt min_def)
qed

lemma chunk_pos: "len \<noteq> 0 \<Longrightarrow> 0 < unat (chunk offset len) \<and> unat (chunk offset len) \<le> unat len"
  using unat_gt_0 [of len] by (simp add: unat_chunk)

lemma chunk_decreases: "len \<noteq> 0 \<Longrightarrow> unat (len - chunk offset len) < unat len"
  using chunk_pos [of len offset] by (simp add: unat_sub word_le_nat_alt)

function blockdev_read_loop ::
  "blockdev \<Rightarrow> u64 \<Rightarrow> u32 \<Rightarrow> bytes \<Rightarrow> 'a bio_state_scheme \<Rightarrow> (int \<times> bytes \<times> 'a bio_state_scheme) option" where
  "blockdev_read_loop vol offset len out s =
     (if len = 0 then Some (0, out, s)
      else if absolute_lba vol offset > 0xffffffff then Some (-1, out, s)
      else do {
        (i, s) \<leftarrow> bread (bd_device vol) (ucast (absolute_lba vol offset)) s;
        let got = get_bytes (b_data (bcache s i)) (unat (in_sector offset)) (unat (chunk offset len));
        s \<leftarrow> brelse i s;
        blockdev_read_loop vol (offset + ucast (chunk offset len)) (len - chunk offset len) (out @ got) s })"
  by pat_completeness auto
termination
  by (relation "measure (\<lambda>(vol, offset, len, out, s). unat len)") (simp_all add: chunk_decreases)

declare blockdev_read_loop.simps [simp del]

definition blockdev_read ::
  "blockdev \<Rightarrow> u64 \<Rightarrow> u32 \<Rightarrow> 'a bio_state_scheme \<Rightarrow> (int \<times> bytes \<times> 'a bio_state_scheme) option" where
  "blockdev_read vol offset len s =
     (if range_refused vol offset len then Some (-1, [], s)
      else blockdev_read_loop vol offset len [] s)"

function blockdev_write_loop ::
  "blockdev \<Rightarrow> u64 \<Rightarrow> u32 \<Rightarrow> bytes \<Rightarrow> 'a bio_state_scheme \<Rightarrow> (int \<times> 'a bio_state_scheme) option" where
  "blockdev_write_loop vol offset len src s =
     (if len = 0 then Some (0, s)
      else if absolute_lba vol offset > 0xffffffff then Some (-1, s)
      else do {
        (i, s) \<leftarrow> bread (bd_device vol) (ucast (absolute_lba vol offset)) s;
        let count = unat (chunk offset len);
        s \<leftarrow> bwrite i (set_data i (put_bytes (b_data (bcache s i)) (unat (in_sector offset)) (take count src)) s);
        s \<leftarrow> brelse i s;
        blockdev_write_loop vol (offset + ucast (chunk offset len)) (len - chunk offset len) (drop count src) s })"
  by pat_completeness auto
termination
  by (relation "measure (\<lambda>(vol, offset, len, src, s). unat len)") (simp_all add: chunk_decreases)

declare blockdev_write_loop.simps [simp del]

definition blockdev_write ::
  "blockdev \<Rightarrow> u64 \<Rightarrow> u32 \<Rightarrow> bytes \<Rightarrow> 'a bio_state_scheme \<Rightarrow> (int \<times> 'a bio_state_scheme) option" where
  "blockdev_write vol offset len src s =
     (if range_refused vol offset len then Some (-1, s)
      else blockdev_write_loop vol offset len src s)"

section \<open>Volumes as byte arrays\<close>

definition vol_lba :: "blockdev \<Rightarrow> nat \<Rightarrow> u32" where
  "vol_lba vol a = of_nat (unat (bd_first_lba vol) + a div 512)"

definition vol_byte :: "blockdev \<Rightarrow> 'a bio_state_scheme \<Rightarrow> nat \<Rightarrow> u8" where
  "vol_byte vol s a = bview s (bd_device vol) (vol_lba vol a) ! (a mod 512)"

definition vol_bytes :: "blockdev \<Rightarrow> 'a bio_state_scheme \<Rightarrow> nat \<Rightarrow> nat \<Rightarrow> bytes" where
  "vol_bytes vol s a n = map (vol_byte vol s) [a..<a + n]"

text \<open>A volume that the transport can address: its sectors have 32-bit numbers, the
  drivers can transfer them, and the caller holds none of their buffers.\<close>

definition vol_ok :: "blockdev \<Rightarrow> 'a bio_state_scheme \<Rightarrow> bool" where
  "vol_ok vol s \<longleftrightarrow> unat (bd_first_lba vol) + unat (bd_sector_count vol) \<le> 2 ^ 32 \<and>
     (\<forall>a < unat (bd_sector_count vol) * 512. io_ok s (bd_device vol) (vol_lba vol a) \<and>
        (bd_device vol, vol_lba vol a) \<notin> held_keys s)"

lemma vol_ok_frame: "bio_frame s t \<Longrightarrow> held_keys t = held_keys s \<Longrightarrow> vol_ok vol t = vol_ok vol s"
  by (simp add: vol_ok_def io_ok_frame)

lemma vol_bytes_cong: "bview t = bview s \<Longrightarrow> vol_bytes vol t = vol_bytes vol s"
  by (simp add: vol_bytes_def vol_byte_def fun_eq_iff)

lemma vol_bytes_append: "vol_bytes vol s a (m + n) = vol_bytes vol s a m @ vol_bytes vol s (a + m) n"
  using upt_add_eq_append [of a "a + m" n] by (simp add: vol_bytes_def add.assoc)

lemma length_vol_bytes [simp]: "length (vol_bytes vol s a n) = n"
  by (simp add: vol_bytes_def)

lemma same_sector:
  fixes a k :: nat
  assumes "a mod 512 + k < 512"
  shows "(a + k) div 512 = a div 512" "(a + k) mod 512 = a mod 512 + k"
proof -
  have split: "a + k = 512 * (a div 512) + (a mod 512 + k)"
    using mult_div_mod_eq [of 512 a] by linarith
  have "(512 * q + x) div 512 = q \<and> (512 * q + x) mod 512 = x" if "x < 512" for q x :: nat
    using that by simp
  from this [OF assms, of "a div 512", folded split]
  show "(a + k) div 512 = a div 512" "(a + k) mod 512 = a mod 512 + k" by simp_all
qed

lemma vol_bytes_sector:
  assumes "bio_inv s" "a mod 512 + n \<le> 512"
  shows "vol_bytes vol s a n = get_bytes (bview s (bd_device vol) (vol_lba vol a)) (a mod 512) n"
proof (rule nth_equalityI)
  show "length (vol_bytes vol s a n) =
      length (get_bytes (bview s (bd_device vol) (vol_lba vol a)) (a mod 512) n)"
    using assms bview_length [OF assms(1)] by simp
  fix k assume "k < length (vol_bytes vol s a n)"
  then have k: "k < n" "a mod 512 + k < 512" using assms(2) by simp_all
  show "vol_bytes vol s a n ! k =
      get_bytes (bview s (bd_device vol) (vol_lba vol a)) (a mod 512) n ! k"
    using k assms bview_length [OF assms(1)] same_sector [OF k(2)]
    by (simp add: vol_bytes_def vol_byte_def vol_lba_def get_bytes_nth)
qed

lemma unat_absolute_lba:
  assumes "vol_ok vol s" "unat off < unat (bd_sector_count vol) * 512"
  shows "unat (absolute_lba vol off) = unat (bd_first_lba vol) + unat off div 512"
    "unat (bd_first_lba vol) + unat off div 512 < 2 ^ 32"
proof -
  have "unat off div 512 < unat (bd_sector_count vol)" using assms(2) by (simp add: div_less_iff_less_mult)
  then show lt: "unat (bd_first_lba vol) + unat off div 512 < 2 ^ 32"
    using assms(1) by (simp add: vol_ok_def)
  have "unat (off div SECTOR) = unat off div 512" by (simp add: unat_div)
  then show "unat (absolute_lba vol off) = unat (bd_first_lba vol) + unat off div 512"
    using lt by (simp add: absolute_lba_def unat_plus_if')
qed

lemma absolute_lba_ok:
  assumes "vol_ok vol s" "unat off < unat (bd_sector_count vol) * 512"
  shows "\<not> absolute_lba vol off > 0xffffffff" "ucast (absolute_lba vol off) = vol_lba vol (unat off)"
    "io_ok s (bd_device vol) (vol_lba vol (unat off))" "(bd_device vol, vol_lba vol (unat off)) \<notin> held_keys s"
proof -
  note u = unat_absolute_lba [OF assms]
  show "\<not> absolute_lba vol off > 0xffffffff" using u by (simp add: word_less_nat_alt)
  have "(ucast (absolute_lba vol off) :: u32) = of_nat (unat (absolute_lba vol off))" by simp
  then show "ucast (absolute_lba vol off) = vol_lba vol (unat off)" using u(1) by (simp add: vol_lba_def)
  show "io_ok s (bd_device vol) (vol_lba vol (unat off))" "(bd_device vol, vol_lba vol (unat off)) \<notin> held_keys s"
    using assms by (auto simp: vol_ok_def)
qed

text \<open>What one turn of either loop moves, and where it goes on.\<close>

lemma chunk_facts:
  assumes "unat off + unat len \<le> M * 512" "M \<le> 2 ^ 32" "len \<noteq> 0"
  defines "c \<equiv> unat (chunk off len)"
  shows "0 < c" "c \<le> unat len" "unat off mod 512 + c \<le> 512"
    "unat (off + ucast (chunk off len)) = unat off + c" "unat (len - chunk off len) = unat len - c"
    "unat off < M * 512"
proof -
  note cp = chunk_pos [OF assms(3), of off]
  show "0 < c" "c \<le> unat len" using cp by (simp_all add: c_def)
  show "unat off mod 512 + c \<le> 512" by (simp add: c_def unat_chunk)
  show "unat off < M * 512" using assms(1) cp by linarith
  show "unat (len - chunk off len) = unat len - c"
    using cp by (simp add: c_def unat_sub word_le_nat_alt)
  have "unat off + c < 18446744073709551616" using assms(1,2) cp by (simp add: c_def)
  then show "unat (off + ucast (chunk off len)) = unat off + c"
    by (simp add: c_def unat_plus_if')
qed

lemma range_refused_iff:
  assumes "vol_ok vol s"
  shows "range_refused vol off len \<longleftrightarrow> unat off + unat len > unat (bd_sector_count vol) * 512"
proof -
  have c: "unat (bd_sector_count vol) \<le> 2 ^ 32" using assms by (simp add: vol_ok_def)
  have "unat (bd_sector_count vol * SECTOR) = unat (bd_sector_count vol) * 512"
    using c by (simp add: unat_mult_lem [THEN iffD1])
  moreover have "\<not> bd_sector_count vol > NOT 0 div SECTOR"
    using c by (simp add: word_less_nat_alt unat_div unat_minus_1_u64)
  ultimately show ?thesis
    by (auto simp: range_refused_def word_less_nat_alt unat_sub_if' not_less)
qed

section \<open>Reading\<close>

lemma read_loop_ok:
  assumes "bio_inv s" "vol_ok vol s" "slot_free s"
    and "unat off + unat len \<le> unat (bd_sector_count vol) * 512"
  shows "\<exists>t. blockdev_read_loop vol off len out s = Some (0, out @ vol_bytes vol s (unat off) (unat len), t) \<and>
    bio_inv t \<and> bview t = bview s \<and> disk t = disk s \<and> pinned t = pinned s \<and>
    held_keys t = held_keys s \<and> disk_log t = disk_log s \<and> bio_frame s t"
  using assms
proof (induction "unat len" arbitrary: off len out s rule: less_induct)
  case less
  show ?case
  proof (cases "len = 0")
    case True
    then show ?thesis using less.prems by (simp add: blockdev_read_loop.simps vol_bytes_def)
  next
    case False
    let ?k = "(bd_device vol, vol_lba vol (unat off))"
    define c where "c = unat (chunk off len)"
    have M: "unat (bd_sector_count vol) \<le> 2 ^ 32" using less.prems(2) by (simp add: vol_ok_def)
    note ch = chunk_facts [OF less.prems(4) M False, folded c_def]
    note ab = absolute_lba_ok [OF less.prems(2) ch(6)]
    obtain i s1 s2 where g: "bread (bd_device vol) (vol_lba vol (unat off)) s = Some (i, s1)"
      "b_data (bcache s1 i) = bview s (bd_device vol) (vol_lba vol (unat off))" "brelse i s1 = Some s2"
      "bio_inv s2" "held_keys s2 = held_keys s" "bview s2 = bview s" "disk s2 = disk s"
      "disk_log s2 = disk_log s" "pinned s2 = pinned s" "bio_frame s s2"
      by (rule bread_release [OF less.prems(1) ab(4,3) less.prems(3)])
    have ok2: "vol_ok vol s2" "slot_free s2"
      using less.prems(2,3) vol_ok_frame [OF g(10,5)] g(5,9) by (simp_all add: slot_free_def)
    have shrink: "unat (len - chunk off len) < unat len" using chunk_decreases [OF False] .
    have range2: "unat (off + ucast (chunk off len)) + unat (len - chunk off len) \<le>
        unat (bd_sector_count vol) * 512"
      using ch(2,4,5) less.prems(4) by simp
    obtain t where t: "blockdev_read_loop vol (off + ucast (chunk off len)) (len - chunk off len)
        (out @ vol_bytes vol s (unat off) c) s2 =
        Some (0, (out @ vol_bytes vol s (unat off) c) @ vol_bytes vol s2 (unat off + c) (unat len - c), t)"
      "bio_inv t" "bview t = bview s2" "disk t = disk s2" "pinned t = pinned s2"
      "held_keys t = held_keys s2" "disk_log t = disk_log s2" "bio_frame s2 t"
      using less.hyps [OF shrink g(4) ok2 range2, of "out @ vol_bytes vol s (unat off) c"]
      unfolding ch(4,5) by blast
    have "vol_bytes vol s (unat off) c = get_bytes (bview s (bd_device vol) (vol_lba vol (unat off))) (unat off mod 512) c"
      by (rule vol_bytes_sector [OF less.prems(1) ch(3)])
    then have "blockdev_read_loop vol off len out s = blockdev_read_loop vol (off + ucast (chunk off len))
        (len - chunk off len) (out @ vol_bytes vol s (unat off) c) s2"
      using False ab(1,2) g(1,2,3) by (subst blockdev_read_loop.simps) (simp add: unat_in_sector c_def)
    moreover have "vol_bytes vol s (unat off) (unat len) =
        vol_bytes vol s (unat off) c @ vol_bytes vol s (unat off + c) (unat len - c)"
      using vol_bytes_append [of vol s "unat off" c "unat len - c"] ch(2) by simp
    ultimately show ?thesis
      using t g vol_bytes_cong [OF g(6)] bio_frame_trans [OF g(10) t(8)] by simp
  qed
qed

section \<open>Writing\<close>

lemma vol_lba_inj:
  assumes "vol_ok vol s" "a < unat (bd_sector_count vol) * 512" "b < unat (bd_sector_count vol) * 512"
  shows "vol_lba vol a = vol_lba vol b \<longleftrightarrow> a div 512 = b div 512"
proof -
  have "unat (bd_first_lba vol) + x div 512 < 4294967296" if "x < unat (bd_sector_count vol) * 512" for x
    using assms(1) that by (auto simp: vol_ok_def div_less_iff_less_mult)
  then show ?thesis unfolding vol_lba_def
    using assms(2,3) by (metis add_left_cancel unat_of_nat_small(1))
qed

lemma sector_update:
  assumes "bio_inv s" "vol_ok vol s" "off < unat (bd_sector_count vol) * 512"
    and "a < unat (bd_sector_count vol) * 512" "off mod 512 + length ys \<le> 512"
    and "bview t = (bview s)(bd_device vol := (bview s (bd_device vol))(vol_lba vol off :=
      put_bytes (bview s (bd_device vol) (vol_lba vol off)) (off mod 512) ys))"
  shows "vol_byte vol t a = (if off \<le> a \<and> a < off + length ys then ys ! (a - off) else vol_byte vol s a)"
proof (cases "a div 512 = off div 512")
  case True
  then have lba: "vol_lba vol a = vol_lba vol off" by (simp add: vol_lba_def)
  have a: "a = 512 * (off div 512) + a mod 512" "off = 512 * (off div 512) + off mod 512"
    using True mult_div_mod_eq [of 512 a] mult_div_mod_eq [of 512 off] by simp_all
  then have "off \<le> a \<longleftrightarrow> off mod 512 \<le> a mod 512" "a - off = a mod 512 - off mod 512"
    "a < off + length ys \<longleftrightarrow> a mod 512 < off mod 512 + length ys"
    by linarith+
  then show ?thesis
    using assms(5) bview_length [OF assms(1)] by (simp add: vol_byte_def lba assms(6) put_bytes_nth)
next
  case False
  then have "vol_lba vol a \<noteq> vol_lba vol off" using vol_lba_inj [OF assms(2,4,3)] by simp
  then have "vol_byte vol t a = vol_byte vol s a" by (simp add: vol_byte_def assms(6))
  moreover have "\<not> (off \<le> a \<and> a < off + length ys)"
  proof
    assume r: "off \<le> a \<and> a < off + length ys"
    then have "off mod 512 + (a - off) < 512" using assms(5) by linarith
    from same_sector(1) [OF this] show False using r False by simp
  qed
  ultimately show ?thesis by auto
qed

definition outside :: "blockdev \<Rightarrow> u32 \<Rightarrow> u32 \<Rightarrow> bool" where
  "outside vol d n \<longleftrightarrow> (\<forall>a < unat (bd_sector_count vol) * 512. (d, n) \<noteq> (bd_device vol, vol_lba vol a))"

lemma write_loop_ok:
  assumes "bio_inv s" "vol_ok vol s" "slot_free s"
    and "unat off + unat len \<le> unat (bd_sector_count vol) * 512" "length src = unat len"
  shows "\<exists>t. blockdev_write_loop vol off len src s = Some (0, t) \<and> bio_inv t \<and> vol_ok vol t \<and> slot_free t \<and>
    held_keys t = held_keys s \<and> bio_frame s t \<and>
    (\<forall>a < unat (bd_sector_count vol) * 512. vol_byte vol t a =
      (if unat off \<le> a \<and> a < unat off + unat len then src ! (a - unat off) else vol_byte vol s a)) \<and>
    (\<forall>d n. outside vol d n \<longrightarrow> bview t d n = bview s d n \<and> disk t d n = disk s d n)"
  using assms
proof (induction "unat len" arbitrary: off len src s rule: less_induct)
  case less
  show ?case
  proof (cases "len = 0")
    case True
    then show ?thesis using less.prems by (auto simp: blockdev_write_loop.simps)
  next
    case False
    let ?d = "bd_device vol" and ?n = "vol_lba vol (unat off)" and ?M = "unat (bd_sector_count vol) * 512"
    define c where "c = unat (chunk off len)"
    have M: "unat (bd_sector_count vol) \<le> 2 ^ 32" using less.prems(2) by (simp add: vol_ok_def)
    note ch = chunk_facts [OF less.prems(4) M False, folded c_def]
    note ab = absolute_lba_ok [OF less.prems(2) ch(6)]
    have lsrc: "length (take c src) = c" using ch(2) less.prems(5) by simp
    let ?f = "\<lambda>old. put_bytes old (unat off mod 512) (take c src)"
    have "length (?f (bview s ?d ?n)) = BSIZE"
      using ch(3) lsrc bview_length [OF less.prems(1)] by simp
    from bread_write_release [OF less.prems(1) ab(4,3) less.prems(3), of ?f, OF this]
    obtain i s1 s2 u where g: "bread ?d ?n s = Some (i, s1)" "b_data (bcache s1 i) = bview s ?d ?n"
      "bwrite i (set_data i (?f (bview s ?d ?n)) s1) = Some s2" "brelse i s2 = Some u" "bio_inv u"
      "held_keys u = held_keys s" "bview u = (bview s)(?d := (bview s ?d)(?n := ?f (bview s ?d ?n)))"
      "disk u = (disk s)(?d := (disk s ?d)(?n := ?f (bview s ?d ?n)))"
      "pinned u = pinned s - {(?d, ?n)}" "bio_frame s u" by metis
    have ok2: "vol_ok vol u" using less.prems(2) vol_ok_frame [OF g(10,6)] by simp
    have slot2: "slot_free u"
      using less.prems(3) g(6,9) card_Diff1_le [of "pinned s" "(?d, ?n)"] by (simp add: slot_free_def)
    have shrink: "unat (len - chunk off len) < unat len" using chunk_decreases [OF False] .
    have range2: "unat (off + ucast (chunk off len)) + unat (len - chunk off len) \<le> ?M"
      using ch(2,4,5) less.prems(4) by simp
    have len2: "length (drop c src) = unat (len - chunk off len)" using less.prems(5) ch(5) by simp
    obtain t where t: "blockdev_write_loop vol (off + ucast (chunk off len)) (len - chunk off len) (drop c src) u = Some (0, t)"
      "bio_inv t" "vol_ok vol t" "slot_free t" "held_keys t = held_keys u" "bio_frame u t"
      "\<forall>a < ?M. vol_byte vol t a = (if unat off + c \<le> a \<and> a < unat off + c + (unat len - c)
         then drop c src ! (a - (unat off + c)) else vol_byte vol u a)"
      "\<forall>d n. outside vol d n \<longrightarrow> bview t d n = bview u d n \<and> disk t d n = disk u d n"
      using less.hyps [OF shrink g(5) ok2 slot2 range2 len2] unfolding ch(4,5) by blast
    have "blockdev_write_loop vol off len src s = Some (0, t)"
      using False ab(1,2) g(1-4) t(1)
      by (subst blockdev_write_loop.simps) (simp add: unat_in_sector c_def)
    moreover have "vol_byte vol t a =
        (if unat off \<le> a \<and> a < unat off + unat len then src ! (a - unat off) else vol_byte vol s a)"
      if "a < ?M" for a
      using t(7) that sector_update [OF less.prems(1,2) ch(6) that _ g(7)] ch(1-3) lsrc less.prems(5)
      by (auto simp: nth_drop)
    moreover have "bview t d n = bview s d n \<and> disk t d n = disk s d n" if "outside vol d n" for d n
    proof -
      have "(d, n) \<noteq> (?d, ?n)" using that ch(6) by (auto simp: outside_def)
      then have "bview u d n = bview s d n" "disk u d n = disk s d n" by (auto simp: g(7,8))
      then show ?thesis using t(8) that by simp
    qed
    ultimately show ?thesis
      using t(2-6) g(6) bio_frame_trans [OF g(10) t(6)] by auto
  qed
qed

section \<open>Properties of the transport\<close>

text \<open>C26. On an addressable volume \<^verbatim>\<open>blockdev_read\<close> returns \<open>-1\<close> with nothing read exactly
  when the range leaves the volume, and otherwise returns 0 with exactly the bytes of the
  range, changing no block.\<close>

theorem blockdev_read_correct:
  assumes "bio_inv s" "vol_ok vol s" "slot_free s"
  shows "\<exists>t. blockdev_read vol off len s =
      Some (if unat off + unat len \<le> unat (bd_sector_count vol) * 512
            then (0, vol_bytes vol s (unat off) (unat len), t) else (-1, [], s)) \<and>
    bio_inv t \<and> bview t = bview s \<and> disk t = disk s \<and> held_keys t = held_keys s"
proof (cases "unat off + unat len \<le> unat (bd_sector_count vol) * 512")
  case True
  with read_loop_ok [OF assms True, of "[]"] show ?thesis
    using range_refused_iff [OF assms(2), of off len] by (auto simp: blockdev_read_def)
next
  case False
  then show ?thesis
    using assms(1) range_refused_iff [OF assms(2), of off len] by (auto simp: blockdev_read_def)
qed

definition demo_vol :: blockdev where
  "demo_vol = \<lparr>bd_device = 28, bd_first_lba = 2, bd_sector_count = 3\<rparr>"

lemma demo_vol_ok: "vol_ok demo_vol (ram_machine 8)" "slot_free (ram_machine 8)"
proof -
  have "a < 1536 \<Longrightarrow> unat (of_nat (2 + a div 512) :: u32) < 8" for a :: nat
  proof -
    assume "a < 1536"
    then have "a div 512 < 3" by (simp add: div_less_iff_less_mult)
    then show ?thesis by (subst unat_of_nat_small(1)) simp_all
  qed
  then have "(ucast (of_nat (2 + a div 512) :: u32) :: u64) + 1 \<le> 8" if "a < 1536" for a :: nat
    using that by (simp add: word_le_nat_alt unat_plus_if' Suc_le_eq del: of_nat_add)
  then show "vol_ok demo_vol (ram_machine 8)"
    by (simp add: vol_ok_def vol_lba_def demo_vol_def ram_machine_io ram_machine_inv del: of_nat_add)
qed (simp add: slot_free_def ram_machine_inv)

theorem blockdev_read_correct_witness:
  "\<exists>t. blockdev_read demo_vol 700 100 (ram_machine 8) = Some (0, vol_bytes demo_vol (ram_machine 8) 700 100, t)"
  using blockdev_read_correct [OF ram_machine_inv(1) demo_vol_ok, of 700 100]
  by (auto simp: demo_vol_def)

text \<open>C22. \<^verbatim>\<open>blockdev_write\<close> and \<^verbatim>\<open>blockdev_read\<close> round-trip: writing a range of an addressable
  volume returns 0; afterwards every byte of the volume is the byte written or, outside
  the range, the byte that was there; a read of the range gives the bytes written; and
  no block outside the volume has changed, in the cache or on a medium.\<close>

theorem blockdev_write_read:
  assumes "bio_inv s" "vol_ok vol s" "slot_free s"
    and "unat off + unat len \<le> unat (bd_sector_count vol) * 512" "length src = unat len"
  shows "\<exists>t u. blockdev_write vol off len src s = Some (0, t) \<and> bio_inv t \<and>
    (\<forall>a < unat (bd_sector_count vol) * 512. vol_byte vol t a =
      (if unat off \<le> a \<and> a < unat off + unat len then src ! (a - unat off) else vol_byte vol s a)) \<and>
    blockdev_read vol off len t = Some (0, src, u) \<and>
    (\<forall>d n. outside vol d n \<longrightarrow> bview t d n = bview s d n \<and> disk t d n = disk s d n)"
proof -
  from write_loop_ok [OF assms] obtain t where t: "blockdev_write_loop vol off len src s = Some (0, t)"
    "bio_inv t" "vol_ok vol t" "slot_free t"
    "\<forall>a < unat (bd_sector_count vol) * 512. vol_byte vol t a =
      (if unat off \<le> a \<and> a < unat off + unat len then src ! (a - unat off) else vol_byte vol s a)"
    "\<forall>d n. outside vol d n \<longrightarrow> bview t d n = bview s d n \<and> disk t d n = disk s d n" by blast
  from read_loop_ok [OF t(2-4) assms(4), of "[]"] obtain u where
    u: "blockdev_read_loop vol off len [] t = Some (0, vol_bytes vol t (unat off) (unat len), u)" by auto
  have "vol_bytes vol t (unat off) (unat len) = src"
    using t(5) assms(4,5) by (intro nth_equalityI) (simp_all add: vol_bytes_def)
  then show ?thesis
    using t u assms(4) range_refused_iff [OF assms(2), of off len]
    by (auto simp: blockdev_read_def blockdev_write_def)
qed

theorem blockdev_write_read_witness:
  "\<exists>t u. blockdev_write demo_vol 510 4 [1, 2, 3, 4] (ram_machine 8) = Some (0, t) \<and>
     blockdev_read demo_vol 510 4 t = Some (0, [1, 2, 3, 4], u)"
  using blockdev_write_read [OF ram_machine_inv(1) demo_vol_ok, of 510 4 "[1, 2, 3, 4]"]
  by (auto simp: demo_vol_def)

end
