(* ===== verification/Log.thy ===== *)
theory Log
  imports Bio
begin

text \<open>
  \<^verbatim>\<open>kern/log.c\<close>: the write-ahead log.  The in-memory header \<open>{n, block[]}\<close> is the list of
  its first \<^verbatim>\<open>n\<close> entries.  On the medium the header block holds the count and the block
  numbers as little-endian words, and the blocks behind it hold the logged contents.
  Waiting for other processes in \<^verbatim>\<open>begin_op\<close>, and every panic, is \<open>None\<close>.
  \<^verbatim>\<open>readsb\<close> of \<^verbatim>\<open>kern/fs.c\<close> is here because \<^verbatim>\<open>initlog\<close> calls it.
\<close>

section \<open>State\<close>

abbreviation LOGSIZE :: nat where "LOGSIZE \<equiv> 30"
abbreviation MAXOPBLOCKS :: int where "MAXOPBLOCKS \<equiv> 10"

record log_state = bio_state +
  lg_start :: u32
  lg_size :: int
  lg_outstanding :: int
  lg_committing :: bool
  lg_dev :: u32
  lg_lh :: "u32 list"
  lg_readonly :: bool

record superblock =
  sb_size :: u32
  sb_nblocks :: u32
  sb_ninodes :: u32
  sb_nlog :: u32
  sb_logstart :: u32
  sb_inodestart :: u32
  sb_bmapstart :: u32

definition decode_superblock :: "bytes \<Rightarrow> superblock" where
  "decode_superblock d =
     \<lparr>sb_size = le32_of (get_bytes d 0 4), sb_nblocks = le32_of (get_bytes d 4 4),
      sb_ninodes = le32_of (get_bytes d 8 4), sb_nlog = le32_of (get_bytes d 12 4),
      sb_logstart = le32_of (get_bytes d 16 4), sb_inodestart = le32_of (get_bytes d 20 4),
      sb_bmapstart = le32_of (get_bytes d 24 4)\<rparr>"

definition readsb :: "u32 \<Rightarrow> 'a bio_state_scheme \<Rightarrow> (superblock \<times> 'a bio_state_scheme) option" where
  "readsb dev s = do {
     (i, s) \<leftarrow> bread dev 1 s;
     let sb = decode_superblock (b_data (bcache s i));
     s \<leftarrow> brelse i s;
     Some (sb, s) }"

section \<open>The header block\<close>

definition head_bytes :: "u32 list \<Rightarrow> bytes" where
  "head_bytes bs = concat (map bytes_of_le32 (of_nat (length bs) # bs))"

definition head_n :: "bytes \<Rightarrow> int" where
  "head_n d = sint (le32_of (get_bytes d 0 4))"

definition head_blocks :: "bytes \<Rightarrow> u32 list" where
  "head_blocks d = map (\<lambda>i. le32_of (get_bytes d (4 + 4 * i) 4)) [0..<nat (head_n d)]"

text \<open>\<^verbatim>\<open>read_head\<close> copies as many entries as the block says: more than \<^verbatim>\<open>LOGSIZE\<close> of them
  run past the in-memory array.\<close>

definition read_head :: "'a log_state_scheme \<Rightarrow> 'a log_state_scheme option" where
  "read_head s = do {
     (i, s) \<leftarrow> bread (lg_dev s) (lg_start s) s;
     let d = b_data (bcache s i);
     if head_n d > int LOGSIZE then None
     else do {
       let s = s\<lparr>lg_lh := head_blocks d\<rparr>;
       brelse i s } }"

definition write_head :: "'a log_state_scheme \<Rightarrow> 'a log_state_scheme option" where
  "write_head s = do {
     (i, s) \<leftarrow> bread (lg_dev s) (lg_start s) s;
     s \<leftarrow> bwrite i (set_data i (put_bytes (b_data (bcache s i)) 0 (head_bytes (lg_lh s))) s);
     brelse i s }"

section \<open>Installing and logging\<close>

fun install_loop :: "u32 \<Rightarrow> u32 list \<Rightarrow> 'a log_state_scheme \<Rightarrow> 'a log_state_scheme option" where
  "install_loop tail [] s = Some s"
| "install_loop tail (b # bs) s = do {
     (lbuf, s) \<leftarrow> bread (lg_dev s) (lg_start s + tail + 1) s;
     (dbuf, s) \<leftarrow> bread (lg_dev s) b s;
     s \<leftarrow> bwrite dbuf (set_data dbuf (b_data (bcache s lbuf)) s);
     s \<leftarrow> brelse lbuf s;
     s \<leftarrow> brelse dbuf s;
     install_loop (tail + 1) bs s }"

definition install_trans :: "'a log_state_scheme \<Rightarrow> 'a log_state_scheme option" where
  "install_trans s = install_loop 0 (lg_lh s) s"

fun write_log_loop :: "u32 \<Rightarrow> u32 list \<Rightarrow> 'a log_state_scheme \<Rightarrow> 'a log_state_scheme option" where
  "write_log_loop tail [] s = Some s"
| "write_log_loop tail (b # bs) s = do {
     (dst, s) \<leftarrow> bread (lg_dev s) (lg_start s + tail + 1) s;
     (src, s) \<leftarrow> bread (lg_dev s) b s;
     s \<leftarrow> bwrite dst (set_data dst (b_data (bcache s src)) s);
     s \<leftarrow> brelse src s;
     s \<leftarrow> brelse dst s;
     write_log_loop (tail + 1) bs s }"

definition write_log :: "'a log_state_scheme \<Rightarrow> 'a log_state_scheme option" where
  "write_log s = write_log_loop 0 (lg_lh s) s"

definition commit :: "'a log_state_scheme \<Rightarrow> 'a log_state_scheme option" where
  "commit s = (if lg_lh s \<noteq> [] then do {
       s \<leftarrow> write_log s;
       s \<leftarrow> write_head s;
       s \<leftarrow> install_trans s;
       write_head (s\<lparr>lg_lh := []\<rparr>) }
     else Some s)"

definition recover_from_log :: "'a log_state_scheme \<Rightarrow> 'a log_state_scheme option" where
  "recover_from_log s = do {
     s \<leftarrow> read_head s;
     s \<leftarrow> install_trans s;
     write_head (s\<lparr>lg_lh := []\<rparr>) }"

definition initlog :: "u32 \<Rightarrow> 'a log_state_scheme \<Rightarrow> 'a log_state_scheme option" where
  "initlog dev s = do {
     (sb, s) \<leftarrow> readsb dev (s\<lparr>lg_readonly := False\<rparr>);
     recover_from_log (s\<lparr>lg_start := sb_logstart sb, lg_size := sint (sb_nlog sb), lg_dev := dev\<rparr>) }"

definition initlog_readonly :: "'a log_state_scheme \<Rightarrow> 'a log_state_scheme" where
  "initlog_readonly s = s\<lparr>lg_readonly := True\<rparr>"

section \<open>Operations\<close>

definition begin_op :: "'a log_state_scheme \<Rightarrow> 'a log_state_scheme option" where
  "begin_op s =
     (if lg_readonly s then Some s
      else if lg_committing s then None
      else if int (length (lg_lh s)) + (lg_outstanding s + 1) * MAXOPBLOCKS > int LOGSIZE then None
      else Some (s\<lparr>lg_outstanding := lg_outstanding s + 1\<rparr>))"

definition end_op :: "'a log_state_scheme \<Rightarrow> 'a log_state_scheme option" where
  "end_op s =
     (if lg_readonly s then Some s
      else let s = s\<lparr>lg_outstanding := lg_outstanding s - 1\<rparr> in
        if lg_committing s then None
        else if lg_outstanding s = 0 then do {
          s \<leftarrow> commit (s\<lparr>lg_committing := True\<rparr>);
          Some (s\<lparr>lg_committing := False\<rparr>) }
        else Some s)"

definition log_add :: "u32 \<Rightarrow> u32 list \<Rightarrow> u32 list" where
  "log_add b bs = (if b \<in> set bs then bs else bs @ [b])"

definition log_write :: "nat \<Rightarrow> 'a log_state_scheme \<Rightarrow> 'a log_state_scheme option" where
  "log_write i s =
     (if lg_readonly s then None
      else if length (lg_lh s) \<ge> LOGSIZE \<or> int (length (lg_lh s)) \<ge> lg_size s - 1 then None
      else if lg_outstanding s < 1 then None
      else let s = s\<lparr>lg_lh := log_add (b_blockno (bcache s i)) (lg_lh s)\<rparr>
           in Some (upd_buf i (\<lambda>b. b\<lparr>b_dirty := True\<rparr>) s))"

text \<open>The log's own fields are no concern of the cache.\<close>

lemma bio_lg_lh [simp]:
  "bio_inv (s\<lparr>lg_lh := x\<rparr>) = bio_inv s" "held_keys (s\<lparr>lg_lh := x\<rparr>) = held_keys s"
  "pinned (s\<lparr>lg_lh := x\<rparr>) = pinned s" "bview (s\<lparr>lg_lh := x\<rparr>) = bview s"
  "holds (s\<lparr>lg_lh := x\<rparr>) = holds s" "io_ok (s\<lparr>lg_lh := x\<rparr>) = io_ok s"
  by (simp_all add: bio_cong [of "s\<lparr>lg_lh := x\<rparr>" s] io_ok_cong [of "s\<lparr>lg_lh := x\<rparr>" s])

lemma bio_lg_outstanding [simp]:
  "bio_inv (s\<lparr>lg_outstanding := x\<rparr>) = bio_inv s" "held_keys (s\<lparr>lg_outstanding := x\<rparr>) = held_keys s"
  "pinned (s\<lparr>lg_outstanding := x\<rparr>) = pinned s" "bview (s\<lparr>lg_outstanding := x\<rparr>) = bview s"
  "holds (s\<lparr>lg_outstanding := x\<rparr>) = holds s" "io_ok (s\<lparr>lg_outstanding := x\<rparr>) = io_ok s"
  by (simp_all add: bio_cong [of "s\<lparr>lg_outstanding := x\<rparr>" s] io_ok_cong [of "s\<lparr>lg_outstanding := x\<rparr>" s])

lemma bio_lg_committing [simp]:
  "bio_inv (s\<lparr>lg_committing := x\<rparr>) = bio_inv s" "held_keys (s\<lparr>lg_committing := x\<rparr>) = held_keys s"
  "pinned (s\<lparr>lg_committing := x\<rparr>) = pinned s" "bview (s\<lparr>lg_committing := x\<rparr>) = bview s"
  "holds (s\<lparr>lg_committing := x\<rparr>) = holds s" "io_ok (s\<lparr>lg_committing := x\<rparr>) = io_ok s"
  by (simp_all add: bio_cong [of "s\<lparr>lg_committing := x\<rparr>" s] io_ok_cong [of "s\<lparr>lg_committing := x\<rparr>" s])

lemma bio_lg_readonly [simp]:
  "bio_inv (s\<lparr>lg_readonly := x\<rparr>) = bio_inv s" "held_keys (s\<lparr>lg_readonly := x\<rparr>) = held_keys s"
  "pinned (s\<lparr>lg_readonly := x\<rparr>) = pinned s" "bview (s\<lparr>lg_readonly := x\<rparr>) = bview s"
  "holds (s\<lparr>lg_readonly := x\<rparr>) = holds s" "io_ok (s\<lparr>lg_readonly := x\<rparr>) = io_ok s"
  by (simp_all add: bio_cong [of "s\<lparr>lg_readonly := x\<rparr>" s] io_ok_cong [of "s\<lparr>lg_readonly := x\<rparr>" s])

lemma bio_lg_start [simp]:
  "bio_inv (s\<lparr>lg_start := x\<rparr>) = bio_inv s" "held_keys (s\<lparr>lg_start := x\<rparr>) = held_keys s"
  "pinned (s\<lparr>lg_start := x\<rparr>) = pinned s" "bview (s\<lparr>lg_start := x\<rparr>) = bview s"
  "holds (s\<lparr>lg_start := x\<rparr>) = holds s" "io_ok (s\<lparr>lg_start := x\<rparr>) = io_ok s"
  by (simp_all add: bio_cong [of "s\<lparr>lg_start := x\<rparr>" s] io_ok_cong [of "s\<lparr>lg_start := x\<rparr>" s])

lemma bio_lg_size [simp]:
  "bio_inv (s\<lparr>lg_size := x\<rparr>) = bio_inv s" "held_keys (s\<lparr>lg_size := x\<rparr>) = held_keys s"
  "pinned (s\<lparr>lg_size := x\<rparr>) = pinned s" "bview (s\<lparr>lg_size := x\<rparr>) = bview s"
  "holds (s\<lparr>lg_size := x\<rparr>) = holds s" "io_ok (s\<lparr>lg_size := x\<rparr>) = io_ok s"
  by (simp_all add: bio_cong [of "s\<lparr>lg_size := x\<rparr>" s] io_ok_cong [of "s\<lparr>lg_size := x\<rparr>" s])

lemma bio_lg_dev [simp]:
  "bio_inv (s\<lparr>lg_dev := x\<rparr>) = bio_inv s" "held_keys (s\<lparr>lg_dev := x\<rparr>) = held_keys s"
  "pinned (s\<lparr>lg_dev := x\<rparr>) = pinned s" "bview (s\<lparr>lg_dev := x\<rparr>) = bview s"
  "holds (s\<lparr>lg_dev := x\<rparr>) = holds s" "io_ok (s\<lparr>lg_dev := x\<rparr>) = io_ok s"
  by (simp_all add: bio_cong [of "s\<lparr>lg_dev := x\<rparr>" s] io_ok_cong [of "s\<lparr>lg_dev := x\<rparr>" s])

section \<open>The header block round-trips\<close>

lemma get_put_inside:
  "off + n \<le> length ys \<Longrightarrow> length ys \<le> length d \<Longrightarrow> get_bytes (put_bytes d 0 ys) off n = get_bytes ys off n"
  by (intro nth_equalityI) (simp_all add: get_bytes_nth put_bytes_nth)

lemma length_words [simp]: "length (concat (map bytes_of_le32 xs)) = 4 * length xs"
  by (induction xs) simp_all

lemma get_words: "i < length xs \<Longrightarrow> get_bytes (concat (map bytes_of_le32 xs)) (4 * i) 4 = bytes_of_le32 (xs ! i)"
proof (induction xs arbitrary: i)
  case (Cons x xs)
  then show ?case by (cases i) (simp_all add: get_bytes_def)
qed simp

lemma length_head_bytes [simp]: "length (head_bytes bs) = 4 + 4 * length bs"
  unfolding head_bytes_def length_words by simp

lemma sint_small: "n < 2 ^ 31 \<Longrightarrow> sint (of_nat n :: u32) = int n"
  by (simp add: signed_of_nat signed_take_bit_int_eq_self)

lemma head_round_trip:
  assumes "length bs \<le> LOGSIZE" "length d = BSIZE"
  shows "head_n (put_bytes d 0 (head_bytes bs)) = int (length bs)"
    "head_blocks (put_bytes d 0 (head_bytes bs)) = bs"
proof -
  have le: "length (head_bytes bs) \<le> length d" using assms by simp
  have w: "get_bytes (put_bytes d 0 (head_bytes bs)) (4 * i) 4 =
      bytes_of_le32 ((of_nat (length bs) # bs) ! i)" if "i \<le> length bs" for i
    using that get_put_inside [of "4 * i" 4 "head_bytes bs" d] le
      get_words [of i "of_nat (length bs) # bs"]
    by (simp add: head_bytes_def)
  show n: "head_n (put_bytes d 0 (head_bytes bs)) = int (length bs)"
    using w [of 0] assms(1) by (simp add: head_n_def sint_small)
  show "head_blocks (put_bytes d 0 (head_bytes bs)) = bs"
    using w [of "Suc i" for i] by (intro nth_equalityI) (simp_all add: head_blocks_def n)
qed

section \<open>Writes\<close>

fun apply_writes :: "(u32 \<times> u32 \<times> bytes) list \<Rightarrow> (u32 \<Rightarrow> u32 \<Rightarrow> bytes) \<Rightarrow> u32 \<Rightarrow> u32 \<Rightarrow> bytes" where
  "apply_writes [] D = D"
| "apply_writes ((d, n, v) # ws) D = apply_writes ws (D(d := (D d)(n := v)))"

lemma apply_writes_append: "apply_writes (us @ ws) D = apply_writes ws (apply_writes us D)"
  by (induction us arbitrary: D) auto

lemma apply_writes_other:
  "(\<forall>w \<in> set ws. (fst w, fst (snd w)) \<noteq> (d, n)) \<Longrightarrow> apply_writes ws D d n = D d n"
  by (induction ws D rule: apply_writes.induct) auto

lemma apply_writes_length:
  "(\<forall>w \<in> set ws. length (snd (snd w)) = BSIZE) \<Longrightarrow> (\<forall>d n. length (D d n) = BSIZE) \<Longrightarrow>
   length (apply_writes ws D d n) = BSIZE"
  by (induction ws D rule: apply_writes.induct) simp_all

text \<open>The writes of the two loops: the blocks \<open>bs\<close> into consecutive log blocks from \<open>a\<close>
  on, and from there to their homes.\<close>

fun log_writes :: "u32 \<Rightarrow> u32 \<Rightarrow> u32 list \<Rightarrow> (u32 \<Rightarrow> u32 \<Rightarrow> bytes) \<Rightarrow> (u32 \<times> u32 \<times> bytes) list" where
  "log_writes d a [] V = []"
| "log_writes d a (b # bs) V = (d, a, V d b) # log_writes d (a + 1) bs V"

fun home_writes :: "u32 \<Rightarrow> u32 \<Rightarrow> u32 list \<Rightarrow> (u32 \<Rightarrow> u32 \<Rightarrow> bytes) \<Rightarrow> (u32 \<times> u32 \<times> bytes) list" where
  "home_writes d a [] V = []"
| "home_writes d a (b # bs) V = (d, b, V d a) # home_writes d (a + 1) bs V"

fun apart :: "u32 \<Rightarrow> u32 list \<Rightarrow> nat \<Rightarrow> bool" where
  "apart a bs 0 = True"
| "apart a bs (Suc n) = (a \<notin> set bs \<and> apart (a + 1) bs n)"

lemma apart_Cons: "apart a (b # bs) n \<Longrightarrow> apart a bs n"
  by (induction n arbitrary: a) auto

lemma apart_nth: "apart a bs n \<Longrightarrow> k < n \<Longrightarrow> a + of_nat k \<notin> set bs"
proof (induction n arbitrary: a k)
  case (Suc n)
  show ?case
  proof (cases k)
    case 0
    then show ?thesis using Suc.prems by simp
  next
    case (Suc j)
    then show ?thesis using Suc.prems Suc.IH [of "a + 1" j] by (simp add: add.assoc)
  qed
qed simp

lemma log_writes_cong: "(\<forall>b \<in> set bs. V d b = V' d b) \<Longrightarrow> log_writes d a bs V = log_writes d a bs V'"
  by (induction bs arbitrary: a) auto

lemma home_writes_cong:
  "(\<forall>k < length bs. V d (a + of_nat k) = V' d (a + of_nat k)) \<Longrightarrow> home_writes d a bs V = home_writes d a bs V'"
proof (induction bs arbitrary: a)
  case (Cons b bs)
  have "V d a = V' d a" using Cons.prems [rule_format, of 0] by simp
  moreover have "\<forall>k < length bs. V d (a + 1 + of_nat k) = V' d (a + 1 + of_nat k)"
    using Cons.prems [rule_format, of "Suc k" for k] by (simp add: algebra_simps)
  ultimately show ?case using Cons.IH [of "a + 1"] by simp
qed simp

section \<open>Copying between two blocks\<close>

lemma copy_to_first:
  assumes inv: "bio_inv s" and held: "held_keys s = {}" and xy: "x \<noteq> y"
    and io: "io_ok s d x" "io_ok s d y" and pin: "card (pinned s) < NBUF" "(d, y) \<in> pinned s" "(d, x) \<notin> pinned s"
  obtains i s1 j s2 s3 s4 t where "bread d x s = Some (i, s1)" "bread d y s1 = Some (j, s2)"
    "bwrite i (set_data i (b_data (bcache s2 j)) s2) = Some s3" "brelse j s3 = Some s4" "brelse i s4 = Some t"
    "bio_inv t" "held_keys t = {}" "pinned t = pinned s" "bview t = (bview s)(d := (bview s d)(x := bview s d y))"
    "disk t = (disk s)(d := (disk s d)(x := bview s d y))" "disk_log t = disk_log s @ [(d, x, bview s d y)]"
    "bio_frame s t" "bio_frame s s1"
proof -
  have k: "(d, x) \<notin> held_keys s" "(d, x) \<in> pinned s \<or> card (held_keys s) + card (pinned s) < NBUF"
    using held pin(1) by simp_all
  obtain i s1 where a: "bread d x s = Some (i, s1)" "bio_inv s1" "holds s1 i d x"
    "b_data (bcache s1 i) = bview s d x" "\<forall>j d' n'. holds s j d' n' \<longrightarrow> holds s1 j d' n'"
    "held_keys s1 = insert (d, x) (held_keys s)" "bview s1 = bview s" "pinned s1 = pinned s"
    "disk s1 = disk s" "disk_log s1 = disk_log s" "bio_frame s s1"
    by (rule bread_ok [OF inv k(1) io(1) k(2)])
  have k1: "(d, y) \<notin> held_keys s1" "io_ok s1 d y" "(d, y) \<in> pinned s1"
    using xy held io_ok_frame [OF a(11)] io(2) pin(2) by (simp_all add: a(6,8))
  obtain j s2 where b: "bread d y s1 = Some (j, s2)" "bio_inv s2" "holds s2 j d y"
    "b_data (bcache s2 j) = bview s1 d y" "\<forall>j d' n'. holds s1 j d' n' \<longrightarrow> holds s2 j d' n'"
    "held_keys s2 = insert (d, y) (held_keys s1)" "bview s2 = bview s1" "pinned s2 = pinned s1"
    "disk s2 = disk s1" "disk_log s2 = disk_log s1" "bio_frame s1 s2"
    by (rule bread_ok [OF a(2) k1(1,2) disjI1 [OF k1(3)]])
  let ?v = "bview s d y" let ?p = "set_data i ?v s2"
  have hi: "holds s2 i d x" using b(5) a(3) by blast
  have "length ?v = BSIZE" by (rule bview_length [OF inv])
  note p = set_data_ok [OF b(2) hi this]
  have fr: "bio_frame s ?p" using a(11) b(11) p(8) by (blast intro: bio_frame_trans)
  have hp: "holds ?p i d x" "io_ok ?p d x" using p(2) hi io(1) io_ok_frame [OF fr] by simp_all
  obtain s3 where c: "bwrite i ?p = Some s3" "bio_inv s3" "holds s3 = holds ?p"
    "held_keys s3 = held_keys ?p" "bview s3 = bview ?p" "pinned s3 = pinned ?p - {(d, x)}"
    "disk s3 = (disk ?p)(d := (disk ?p d)(x := bview ?p d x))"
    "disk_log s3 = disk_log ?p @ [(d, x, bview ?p d x)]" "bio_frame ?p s3"
    by (rule bwrite_ok [OF p(1) hp])
  have hj: "holds s3 j d y" "(d, y) \<in> pinned s3 \<or> bview s3 d y = disk s3 d y"
    using b(3) pin(2) xy by (simp_all add: c(3,6) p(2,5) b(8) a(8))
  obtain s4 where e: "brelse j s3 = Some s4" "bio_inv s4"
    "\<forall>h d' n'. holds s4 h d' n' \<longleftrightarrow> holds s3 h d' n' \<and> h \<noteq> j"
    "held_keys s4 = held_keys s3 - {(d, y)}" "bview s4 = bview s3" "pinned s4 = pinned s3"
    "disk s4 = disk s3" "disk_log s4 = disk_log s3" "bio_frame s3 s4"
    by (rule brelse_ok [OF c(2) hj])
  have "i \<noteq> j" using hi b(3) xy by (auto simp: holds_def)
  then have hi4: "holds s4 i d x" "(d, x) \<in> pinned s4 \<or> bview s4 d x = disk s4 d x"
    using hi by (simp_all add: e(3,5,7) c(3,5,7) p(2))
  obtain t where f: "brelse i s4 = Some t" "bio_inv t"
    "\<forall>h d' n'. holds t h d' n' \<longleftrightarrow> holds s4 h d' n' \<and> h \<noteq> i"
    "held_keys t = held_keys s4 - {(d, x)}" "bview t = bview s4" "pinned t = pinned s4"
    "disk t = disk s4" "disk_log t = disk_log s4" "bio_frame s4 t"
    by (rule brelse_ok [OF e(2) hi4])
  show ?thesis
  proof (rule that [OF a(1) b(1) _ e(1) f(1,2)])
    show "bwrite i (set_data i (b_data (bcache s2 j)) s2) = Some s3" using c(1) b(4) a(7) by simp
    show "held_keys t = {}" by (simp add: f(4) e(4) c(4) p(3) b(6) a(6) held)
    show "pinned t = pinned s" using pin(3) by (simp add: f(6) e(6) c(6) p(5) b(8) a(8))
    show "bview t = (bview s)(d := (bview s d)(x := ?v))" by (simp only: f(5) e(5) c(5) p(4) b(7) a(7))
    show "disk t = (disk s)(d := (disk s d)(x := ?v))"
      by (simp only: f(7) e(7) c(7) p(4,6) b(9) a(9) fun_upd_same)
    show "disk_log t = disk_log s @ [(d, x, ?v)]"
      by (simp only: f(8) e(8) c(8) p(4,7) b(10) a(10) fun_upd_same)
    show "bio_frame s t" using fr c(9) e(9) f(9) by (blast intro: bio_frame_trans)
  qed (rule a(11))
qed

lemma copy_to_second:
  assumes inv: "bio_inv s" and held: "held_keys s = {}" and xy: "x \<noteq> y"
    and io: "io_ok s d x" "io_ok s d y" and pin: "card (pinned s) < NBUF" "(d, x) \<notin> pinned s"
      "(d, y) \<in> pinned s \<or> card (pinned s) + 1 < NBUF"
  obtains i s1 j s2 s3 s4 t where "bread d x s = Some (i, s1)" "bread d y s1 = Some (j, s2)"
    "bwrite j (set_data j (b_data (bcache s2 i)) s2) = Some s3" "brelse i s3 = Some s4" "brelse j s4 = Some t"
    "bio_inv t" "held_keys t = {}" "pinned t = pinned s - {(d, y)}"
    "bview t = (bview s)(d := (bview s d)(y := bview s d x))"
    "disk t = (disk s)(d := (disk s d)(y := bview s d x))" "disk_log t = disk_log s @ [(d, y, bview s d x)]"
    "bio_frame s t" "bio_frame s s1"
proof -
  have k: "(d, x) \<notin> held_keys s" "(d, x) \<in> pinned s \<or> card (held_keys s) + card (pinned s) < NBUF"
    using held pin(1) by simp_all
  obtain i s1 where a: "bread d x s = Some (i, s1)" "bio_inv s1" "holds s1 i d x"
    "b_data (bcache s1 i) = bview s d x" "\<forall>j d' n'. holds s j d' n' \<longrightarrow> holds s1 j d' n'"
    "held_keys s1 = insert (d, x) (held_keys s)" "bview s1 = bview s" "pinned s1 = pinned s"
    "disk s1 = disk s" "disk_log s1 = disk_log s" "bio_frame s s1"
    by (rule bread_ok [OF inv k(1) io(1) k(2)])
  have k1: "(d, y) \<notin> held_keys s1" "io_ok s1 d y"
    "(d, y) \<in> pinned s1 \<or> card (held_keys s1) + card (pinned s1) < NBUF"
    using xy held io_ok_frame [OF a(11)] io(2) pin(3) by (simp_all add: a(6,8))
  obtain j s2 where b: "bread d y s1 = Some (j, s2)" "bio_inv s2" "holds s2 j d y"
    "b_data (bcache s2 j) = bview s1 d y" "\<forall>j d' n'. holds s1 j d' n' \<longrightarrow> holds s2 j d' n'"
    "held_keys s2 = insert (d, y) (held_keys s1)" "bview s2 = bview s1" "pinned s2 = pinned s1"
    "disk s2 = disk s1" "disk_log s2 = disk_log s1" "bio_frame s1 s2"
    by (rule bread_ok [OF a(2) k1])
  let ?v = "bview s d x" let ?p = "set_data j ?v s2"
  have hi: "holds s2 i d x" using b(5) a(3) by blast
  have data: "b_data (bcache s2 i) = ?v" using holdsD(2) [OF b(2) hi] by (simp add: b(7) a(7))
  have "length ?v = BSIZE" by (rule bview_length [OF inv])
  note p = set_data_ok [OF b(2,3) this]
  have fr: "bio_frame s ?p" using a(11) b(11) p(8) by (blast intro: bio_frame_trans)
  have hp: "holds ?p j d y" "io_ok ?p d y" using p(2) b(3) io(2) io_ok_frame [OF fr] by simp_all
  obtain s3 where c: "bwrite j ?p = Some s3" "bio_inv s3" "holds s3 = holds ?p"
    "held_keys s3 = held_keys ?p" "bview s3 = bview ?p" "pinned s3 = pinned ?p - {(d, y)}"
    "disk s3 = (disk ?p)(d := (disk ?p d)(y := bview ?p d y))"
    "disk_log s3 = disk_log ?p @ [(d, y, bview ?p d y)]" "bio_frame ?p s3"
    by (rule bwrite_ok [OF p(1) hp])
  have "bview s3 d x = bview s d x" "disk s3 d x = disk s d x"
    using xy by (simp_all add: c(5,7) p(4,6) b(7,9) a(7,9))
  moreover have "bview s d x = disk s d x" using pinned_or_clean [OF inv k(1)] pin(2) by simp
  ultimately have hi3': "(d, x) \<in> pinned s3 \<or> bview s3 d x = disk s3 d x" by simp
  have hi3: "holds s3 i d x" using hi by (simp add: c(3) p(2))
  obtain s4 where e: "brelse i s3 = Some s4" "bio_inv s4"
    "\<forall>h d' n'. holds s4 h d' n' \<longleftrightarrow> holds s3 h d' n' \<and> h \<noteq> i"
    "held_keys s4 = held_keys s3 - {(d, x)}" "bview s4 = bview s3" "pinned s4 = pinned s3"
    "disk s4 = disk s3" "disk_log s4 = disk_log s3" "bio_frame s3 s4"
    by (rule brelse_ok [OF c(2) hi3 hi3'])
  have "j \<noteq> i" using hi b(3) xy by (auto simp: holds_def)
  then have hj4: "holds s4 j d y" "(d, y) \<in> pinned s4 \<or> bview s4 d y = disk s4 d y"
    using b(3) by (simp_all add: e(3,5,7) c(3,5,7) p(2))
  obtain t where f: "brelse j s4 = Some t" "bio_inv t"
    "\<forall>h d' n'. holds t h d' n' \<longleftrightarrow> holds s4 h d' n' \<and> h \<noteq> j"
    "held_keys t = held_keys s4 - {(d, y)}" "bview t = bview s4" "pinned t = pinned s4"
    "disk t = disk s4" "disk_log t = disk_log s4" "bio_frame s4 t"
    by (rule brelse_ok [OF e(2) hj4])
  show ?thesis
  proof (rule that [OF a(1) b(1) _ e(1) f(1,2)])
    show "bwrite j (set_data j (b_data (bcache s2 i)) s2) = Some s3" using c(1) data by simp
    show "held_keys t = {}" by (auto simp: f(4) e(4) c(4) p(3) b(6) a(6) held)
    show "pinned t = pinned s - {(d, y)}" by (simp add: f(6) e(6) c(6) p(5) b(8) a(8))
    show "bview t = (bview s)(d := (bview s d)(y := ?v))" by (simp only: f(5) e(5) c(5) p(4) b(7) a(7))
    show "disk t = (disk s)(d := (disk s d)(y := ?v))"
      by (simp only: f(7) e(7) c(7) p(4,6) b(9) a(9) fun_upd_same)
    show "disk_log t = disk_log s @ [(d, y, ?v)]"
      by (simp only: f(8) e(8) c(8) p(4,7) b(10) a(10) fun_upd_same)
    show "bio_frame s t" using fr c(9) e(9) f(9) by (blast intro: bio_frame_trans)
  qed (rule a(11))
qed

section \<open>The loops\<close>

lemma log_frame:
  assumes "bio_frame s t"
  shows "lg_dev t = lg_dev s" "lg_start t = lg_start s" "lg_lh t = lg_lh s" "lg_size t = lg_size s"
    "lg_outstanding t = lg_outstanding s" "lg_committing t = lg_committing s"
    "lg_readonly t = lg_readonly s" "log_state.more t = log_state.more s"
  using assms by (cases s; cases t; simp add: bio_frame_def)+

lemma write_log_loop_ok:
  assumes "bio_inv s" "held_keys s = {}" "card (pinned s) < NBUF"
    and "\<forall>b \<in> set bs. (lg_dev s, b) \<in> pinned s \<and> io_ok s (lg_dev s) b"
    and "\<forall>k < length bs. io_ok s (lg_dev s) (lg_start s + tail + 1 + of_nat k) \<and>
      (lg_dev s, lg_start s + tail + 1 + of_nat k) \<notin> pinned s"
    and "apart (lg_start s + tail + 1) bs (length bs)"
  defines "ws \<equiv> log_writes (lg_dev s) (lg_start s + tail + 1) bs (bview s)"
  shows "\<exists>t. write_log_loop tail bs s = Some t \<and> bio_inv t \<and> held_keys t = {} \<and> pinned t = pinned s \<and>
    bview t = apply_writes ws (bview s) \<and> disk t = apply_writes ws (disk s) \<and>
    disk_log t = disk_log s @ ws \<and> bio_frame s t"
  using assms(1-6) unfolding ws_def
proof (induction bs arbitrary: s tail)
  case Nil
  then show ?case by simp
next
  case (Cons b bs)
  let ?d = "lg_dev s" and ?a = "lg_start s + tail + 1"
  have a: "io_ok s ?d ?a" "(?d, ?a) \<notin> pinned s"
    using Cons.prems(5) [rule_format, of 0] by simp_all
  have b: "io_ok s ?d b" "(?d, b) \<in> pinned s" using Cons.prems(4) by simp_all
  have ab: "?a \<noteq> b" "?a \<notin> set bs" using Cons.prems(6) by auto
  obtain i s1 j s2 s3 s4 u where c: "bread ?d ?a s = Some (i, s1)" "bread ?d b s1 = Some (j, s2)"
    "bwrite i (set_data i (b_data (bcache s2 j)) s2) = Some s3" "brelse j s3 = Some s4" "brelse i s4 = Some u"
    "bio_inv u" "held_keys u = {}" "pinned u = pinned s" "bview u = (bview s)(?d := (bview s ?d)(?a := bview s ?d b))"
    "disk u = (disk s)(?d := (disk s ?d)(?a := bview s ?d b))"
    "disk_log u = disk_log s @ [(?d, ?a, bview s ?d b)]" "bio_frame s u" "bio_frame s s1"
    by (rule copy_to_first [OF Cons.prems(1,2) ab(1) a(1) b(1) Cons.prems(3) b(2) a(2)])
  note fr = log_frame [OF c(12)] io_ok_frame [OF c(12)]
  have a1: "lg_start u + (tail + 1) + 1 = ?a + 1" by (simp add: fr(2))
  have ap: "apart (?a + 1) bs (length bs)" using Cons.prems(6) apart_Cons by auto
  have pre5: "\<forall>k < length bs. io_ok u (lg_dev u) (lg_start u + (tail + 1) + 1 + of_nat k) \<and>
      (lg_dev u, lg_start u + (tail + 1) + 1 + of_nat k) \<notin> pinned u"
    using Cons.prems(5) [rule_format, of "Suc k" for k] unfolding a1 by (simp add: fr c(8) algebra_simps)
  have "\<exists>t. write_log_loop (tail + 1) bs u = Some t \<and> bio_inv t \<and> held_keys t = {} \<and> pinned t = pinned u \<and>
      bview t = apply_writes (log_writes (lg_dev u) (lg_start u + (tail + 1) + 1) bs (bview u)) (bview u) \<and>
      disk t = apply_writes (log_writes (lg_dev u) (lg_start u + (tail + 1) + 1) bs (bview u)) (disk u) \<and>
      disk_log t = disk_log u @ log_writes (lg_dev u) (lg_start u + (tail + 1) + 1) bs (bview u) \<and> bio_frame u t"
  proof (rule Cons.IH [OF c(6,7)])
    show "card (pinned u) < NBUF" using Cons.prems(3) c(8) by simp
    show "\<forall>b \<in> set bs. (lg_dev u, b) \<in> pinned u \<and> io_ok u (lg_dev u) b"
      using Cons.prems(4) by (simp add: fr c(8))
    show "apart (lg_start u + (tail + 1) + 1) bs (length bs)" unfolding a1 by (rule ap)
  qed (rule pre5)
  then obtain t where t: "write_log_loop (tail + 1) bs u = Some t" "bio_inv t" "held_keys t = {}"
    "pinned t = pinned u" "bview t = apply_writes (log_writes ?d (?a + 1) bs (bview u)) (bview u)"
    "disk t = apply_writes (log_writes ?d (?a + 1) bs (bview u)) (disk u)"
    "disk_log t = disk_log u @ log_writes ?d (?a + 1) bs (bview u)" "bio_frame u t"
    unfolding a1 fr(1) by blast
  have same: "log_writes ?d (?a + 1) bs (bview u) = log_writes ?d (?a + 1) bs (bview s)"
    using ab(2) by (intro log_writes_cong) (auto simp: c(9))
  have "write_log_loop tail (b # bs) s = Some t"
    using c(1-5) t(1) log_frame(1) [OF c(13)] by simp
  moreover have "bio_frame s t" by (rule bio_frame_trans [OF c(12) t(8)])
  ultimately show ?case using t(2-7) c(8-11) same by (auto simp del: fun_upd_apply)
qed

lemma install_loop_ok:
  assumes "bio_inv s" "held_keys s = {}" "card (pinned s) < NBUF"
    and "\<forall>b \<in> set bs. io_ok s (lg_dev s) b \<and> ((lg_dev s, b) \<in> pinned s \<or> card (pinned s) + 1 < NBUF)"
    and "\<forall>k < length bs. io_ok s (lg_dev s) (lg_start s + tail + 1 + of_nat k) \<and>
      (lg_dev s, lg_start s + tail + 1 + of_nat k) \<notin> pinned s"
    and "apart (lg_start s + tail + 1) bs (length bs)" "distinct bs"
  defines "ws \<equiv> home_writes (lg_dev s) (lg_start s + tail + 1) bs (bview s)"
  shows "\<exists>t. install_loop tail bs s = Some t \<and> bio_inv t \<and> held_keys t = {} \<and>
    pinned t = pinned s - {lg_dev s} \<times> set bs \<and>
    bview t = apply_writes ws (bview s) \<and> disk t = apply_writes ws (disk s) \<and>
    disk_log t = disk_log s @ ws \<and> bio_frame s t"
  using assms(1-7) unfolding ws_def
proof (induction bs arbitrary: s tail)
  case Nil
  then show ?case by simp
next
  case (Cons b bs)
  let ?d = "lg_dev s" and ?a = "lg_start s + tail + 1"
  have a: "io_ok s ?d ?a" "(?d, ?a) \<notin> pinned s"
    using Cons.prems(5) [rule_format, of 0] by simp_all
  have b: "io_ok s ?d b" "(?d, b) \<in> pinned s \<or> card (pinned s) + 1 < NBUF"
    using Cons.prems(4) by simp_all
  have ab: "?a \<noteq> b" using Cons.prems(6) by auto
  obtain i s1 j s2 s3 s4 u where c: "bread ?d ?a s = Some (i, s1)" "bread ?d b s1 = Some (j, s2)"
    "bwrite j (set_data j (b_data (bcache s2 i)) s2) = Some s3" "brelse i s3 = Some s4" "brelse j s4 = Some u"
    "bio_inv u" "held_keys u = {}" "pinned u = pinned s - {(?d, b)}"
    "bview u = (bview s)(?d := (bview s ?d)(b := bview s ?d ?a))"
    "disk u = (disk s)(?d := (disk s ?d)(b := bview s ?d ?a))"
    "disk_log u = disk_log s @ [(?d, b, bview s ?d ?a)]" "bio_frame s u" "bio_frame s s1"
    by (rule copy_to_second [OF Cons.prems(1,2) ab a(1) b(1) Cons.prems(3) a(2) b(2)])
  note fr = log_frame [OF c(12)] io_ok_frame [OF c(12)]
  have a1: "lg_start u + (tail + 1) + 1 = ?a + 1" by (simp add: fr(2))
  have ap: "apart (?a + 1) bs (length bs)" using Cons.prems(6) apart_Cons by auto
  have nb: "?a + 1 + of_nat k \<noteq> b" if "k < length bs" for k
    using apart_nth [OF Cons.prems(6), of "Suc k"] that by (auto simp: algebra_simps)
  have cd: "card (pinned u) \<le> card (pinned s)" unfolding c(8) by (rule card_Diff1_le)
  have pre4: "\<forall>b' \<in> set bs. io_ok u (lg_dev u) b' \<and>
      ((lg_dev u, b') \<in> pinned u \<or> card (pinned u) + 1 < NBUF)"
    using Cons.prems(4,7) cd by (fastforce simp: fr c(8))
  have pre5: "\<forall>k < length bs. io_ok u (lg_dev u) (lg_start u + (tail + 1) + 1 + of_nat k) \<and>
      (lg_dev u, lg_start u + (tail + 1) + 1 + of_nat k) \<notin> pinned u"
    using Cons.prems(5) [rule_format, of "Suc k" for k] unfolding a1 by (simp add: fr c(8) algebra_simps)
  have "\<exists>t. install_loop (tail + 1) bs u = Some t \<and> bio_inv t \<and> held_keys t = {} \<and>
      pinned t = pinned u - {lg_dev u} \<times> set bs \<and>
      bview t = apply_writes (home_writes (lg_dev u) (lg_start u + (tail + 1) + 1) bs (bview u)) (bview u) \<and>
      disk t = apply_writes (home_writes (lg_dev u) (lg_start u + (tail + 1) + 1) bs (bview u)) (disk u) \<and>
      disk_log t = disk_log u @ home_writes (lg_dev u) (lg_start u + (tail + 1) + 1) bs (bview u) \<and> bio_frame u t"
  proof (rule Cons.IH [OF c(6,7) _ pre4 pre5])
    show "card (pinned u) < NBUF" using Cons.prems(3) cd by simp
    show "apart (lg_start u + (tail + 1) + 1) bs (length bs)" unfolding a1 by (rule ap)
    show "distinct bs" using Cons.prems(7) by simp
  qed
  then obtain t where t: "install_loop (tail + 1) bs u = Some t" "bio_inv t" "held_keys t = {}"
    "pinned t = pinned u - {?d} \<times> set bs" "bview t = apply_writes (home_writes ?d (?a + 1) bs (bview u)) (bview u)"
    "disk t = apply_writes (home_writes ?d (?a + 1) bs (bview u)) (disk u)"
    "disk_log t = disk_log u @ home_writes ?d (?a + 1) bs (bview u)" "bio_frame u t"
    unfolding a1 fr(1) by blast
  have same: "home_writes ?d (?a + 1) bs (bview u) = home_writes ?d (?a + 1) bs (bview s)"
    using nb by (intro home_writes_cong) (auto simp: c(9))
  have "install_loop tail (b # bs) s = Some t"
    using c(1-5) t(1) log_frame(1) [OF c(13)] by simp
  moreover have "bio_frame s t" by (rule bio_frame_trans [OF c(12) t(8)])
  moreover have "pinned t = pinned s - {?d} \<times> set (b # bs)" unfolding t(4) c(8) by auto
  ultimately show ?case using t(2-7) c(9-11) same by (auto simp del: fun_upd_apply)
qed

lemma write_head_ok:
  assumes "bio_inv s" "held_keys s = {}" "card (pinned s) < NBUF" "io_ok s (lg_dev s) (lg_start s)"
    and "length (lg_lh s) \<le> LOGSIZE"
  defines "v \<equiv> put_bytes (bview s (lg_dev s) (lg_start s)) 0 (head_bytes (lg_lh s))"
  shows "\<exists>t. write_head s = Some t \<and> bio_inv t \<and> held_keys t = {} \<and> pinned t = pinned s - {(lg_dev s, lg_start s)} \<and>
    bview t = (bview s)(lg_dev s := (bview s (lg_dev s))(lg_start s := v)) \<and>
    disk t = (disk s)(lg_dev s := (disk s (lg_dev s))(lg_start s := v)) \<and>
    disk_log t = disk_log s @ [(lg_dev s, lg_start s, v)] \<and> bio_frame s t"
proof -
  let ?d = "lg_dev s" and ?n = "lg_start s"
  let ?f = "\<lambda>old. put_bytes old 0 (head_bytes (lg_lh s))"
  have k: "(?d, ?n) \<notin> held_keys s" "(?d, ?n) \<in> pinned s \<or> card (held_keys s) + card (pinned s) < NBUF"
    using assms(2,3) by simp_all
  obtain i s1 where a: "bread ?d ?n s = Some (i, s1)" "bio_inv s1" "holds s1 i ?d ?n"
    "b_data (bcache s1 i) = bview s ?d ?n" "\<forall>j d' n'. holds s j d' n' \<longrightarrow> holds s1 j d' n'"
    "held_keys s1 = insert (?d, ?n) (held_keys s)" "bview s1 = bview s" "pinned s1 = pinned s"
    "disk s1 = disk s" "disk_log s1 = disk_log s" "bio_frame s s1"
    by (rule bread_ok [OF assms(1) k(1) assms(4) k(2)])
  have slot: "slot_free s" using assms(2,3) by (simp add: slot_free_def)
  have "length (?f (bview s ?d ?n)) = BSIZE" using assms(5) bview_length [OF assms(1)] by simp
  from bread_write_release [OF assms(1) k(1) assms(4) slot, of ?f, OF this]
  obtain i' s1' s2 t where g: "bread ?d ?n s = Some (i', s1')" "b_data (bcache s1' i') = bview s ?d ?n"
    "bwrite i' (set_data i' (?f (bview s ?d ?n)) s1') = Some s2" "brelse i' s2 = Some t" "bio_inv t"
    "held_keys t = held_keys s" "bview t = (bview s)(?d := (bview s ?d)(?n := ?f (bview s ?d ?n)))"
    "disk t = (disk s)(?d := (disk s ?d)(?n := ?f (bview s ?d ?n)))"
    "disk_log t = disk_log s @ [(?d, ?n, ?f (bview s ?d ?n))]" "pinned t = pinned s - {(?d, ?n)}" "bio_frame s t" .
  have "write_head s = Some t"
    using g(1-4) a(1) log_frame(3) [OF a(11)] by (simp add: write_head_def)
  then show ?thesis using g assms(2) by (simp add: v_def del: fun_upd_apply)
qed

lemma read_head_ok:
  assumes "bio_inv s" "held_keys s = {}" "card (pinned s) < NBUF" "io_ok s (lg_dev s) (lg_start s)"
    and "head_n (bview s (lg_dev s) (lg_start s)) \<le> int LOGSIZE"
  shows "\<exists>t. read_head s = Some t \<and> bio_inv t \<and> held_keys t = {} \<and> pinned t = pinned s \<and>
    bview t = bview s \<and> disk t = disk s \<and> disk_log t = disk_log s \<and>
    lg_lh t = head_blocks (bview s (lg_dev s) (lg_start s)) \<and> lg_dev t = lg_dev s \<and> lg_start t = lg_start s \<and>
    io_ok t = io_ok s"
proof -
  let ?d = "lg_dev s" and ?n = "lg_start s"
  have k: "(?d, ?n) \<notin> held_keys s" "(?d, ?n) \<in> pinned s \<or> card (held_keys s) + card (pinned s) < NBUF"
    using assms(2,3) by simp_all
  obtain i s1 where a: "bread ?d ?n s = Some (i, s1)" "bio_inv s1" "holds s1 i ?d ?n"
    "b_data (bcache s1 i) = bview s ?d ?n" "\<forall>j d' n'. holds s j d' n' \<longrightarrow> holds s1 j d' n'"
    "held_keys s1 = insert (?d, ?n) (held_keys s)" "bview s1 = bview s" "pinned s1 = pinned s"
    "disk s1 = disk s" "disk_log s1 = disk_log s" "bio_frame s s1"
    by (rule bread_ok [OF assms(1) k(1) assms(4) k(2)])
  let ?u = "s1\<lparr>lg_lh := head_blocks (bview s ?d ?n)\<rparr>"
  have u: "bio_inv ?u" "holds ?u i ?d ?n" "(?d, ?n) \<in> pinned ?u \<or> bview ?u ?d ?n = disk ?u ?d ?n"
    using pinned_or_clean [OF assms(1) k(1)] by (simp_all add: a)
  obtain t where e: "brelse i ?u = Some t" "bio_inv t"
    "\<forall>h d' n'. holds t h d' n' \<longleftrightarrow> holds ?u h d' n' \<and> h \<noteq> i"
    "held_keys t = held_keys ?u - {(?d, ?n)}" "bview t = bview ?u" "pinned t = pinned ?u"
    "disk t = disk ?u" "disk_log t = disk_log ?u" "bio_frame ?u t"
    by (rule brelse_ok [OF u])
  have "read_head s = Some t" using a(1,4) e(1) assms(5) by (simp add: read_head_def)
  then show ?thesis
    using e a(6-10) assms(2) log_frame [OF e(9)] log_frame [OF a(11)] io_ok_frame [OF e(9)] io_ok_frame [OF a(11)]
    by (simp add: insert_absorb)
qed

section \<open>Commit\<close>

definition log_addrs :: "u32 \<Rightarrow> u32 set" where
  "log_addrs st = (\<lambda>k. st + of_nat k) ` {..<LOGSIZE}"

text \<open>Between operations: nothing is held, exactly the blocks of the header are pinned,
  none of them lies in the log, and the log and its blocks can be transferred.\<close>

definition log_ok :: "'a log_state_scheme \<Rightarrow> bool" where
  "log_ok s \<longleftrightarrow> bio_inv s \<and> held_keys s = {} \<and> pinned s = {lg_dev s} \<times> set (lg_lh s) \<and>
     distinct (lg_lh s) \<and> length (lg_lh s) < LOGSIZE \<and> set (lg_lh s) \<inter> log_addrs (lg_start s) = {} \<and>
     (\<forall>b \<in> set (lg_lh s) \<union> log_addrs (lg_start s). io_ok s (lg_dev s) b)"

lemma log_addr_inj:
  assumes "i < LOGSIZE" "j < LOGSIZE" "(st :: u32) + of_nat i = st + of_nat j"
  shows "i = j"
proof -
  have "unat (of_nat i :: u32) = unat (of_nat j :: u32)" using assms(3) by simp
  then show ?thesis using assms(1,2) by simp
qed

lemma log_addrs_nth: "k < LOGSIZE \<Longrightarrow> st + of_nat k \<in> log_addrs st"
  by (simp add: log_addrs_def)

lemma log_addrs_Suc: "Suc k < LOGSIZE \<Longrightarrow> st + 1 + of_nat k \<in> log_addrs st"
  using log_addrs_nth [of "Suc k" st] by (simp add: algebra_simps)

lemma apart_log:
  assumes "set bs \<inter> log_addrs st = {}" "j + n < LOGSIZE"
  shows "apart (st + 1 + of_nat j) bs n"
  using assms(2)
proof (induction n arbitrary: j)
  case (Suc n)
  have "st + 1 + of_nat j \<notin> set bs" using assms(1) log_addrs_Suc [of j st] Suc.prems by auto
  then show ?case using Suc.IH [of "Suc j"] Suc.prems by (simp add: algebra_simps)
qed simp

lemma home_after_log:
  assumes "\<forall>k < length bs. V' d (a + of_nat k) = V d (bs ! k)"
  shows "home_writes d a bs V' = map (\<lambda>b. (d, b, V d b)) bs"
  using assms
proof (induction bs arbitrary: a)
  case (Cons b bs)
  have "V' d a = V d b" using Cons.prems [rule_format, of 0] by simp
  moreover have "\<forall>k < length bs. V' d (a + 1 + of_nat k) = V d (bs ! k)"
    using Cons.prems [rule_format, of "Suc k" for k] by (simp add: algebra_simps)
  ultimately show ?case using Cons.IH [of "a + 1"] by simp
qed simp

lemma home_writes_targets: "w \<in> set (home_writes d a bs V) \<Longrightarrow> fst w = d \<and> fst (snd w) \<in> set bs"
  by (induction bs arbitrary: a) auto

lemma log_writes_targets:
  "w \<in> set (log_writes d a bs V) \<Longrightarrow> \<exists>k < length bs. fst w = d \<and> fst (snd w) = a + of_nat k \<and> snd (snd w) = V d (bs ! k)"
proof (induction bs arbitrary: a)
  case (Cons b bs)
  show ?case
  proof (cases "w = (d, a, V d b)")
    case True
    then show ?thesis by (intro exI [of _ 0]) simp
  next
    case False
    then obtain k where "k < length bs" "fst w = d" "fst (snd w) = a + 1 + of_nat k" "snd (snd w) = V d (bs ! k)"
      using Cons.prems Cons.IH [of "a + 1"] by auto
    then show ?thesis by (intro exI [of _ "Suc k"]) (simp add: algebra_simps)
  qed
qed simp

lemma length_log_writes [simp]: "length (log_writes d a bs V) = length bs"
  by (induction bs arbitrary: a) simp_all

lemma log_writes_at:
  assumes "k < length bs" "length bs < LOGSIZE"
  shows "apply_writes (log_writes d a bs V) D d (a + of_nat k) = V d (bs ! k)"
  using assms
proof (induction bs arbitrary: a k D)
  case (Cons b bs)
  show ?case
  proof (cases k)
    case 0
    have "(fst w, fst (snd w)) \<noteq> (d, a)" if w: "w \<in> set (log_writes d (a + 1) bs V)" for w
    proof
      assume "(fst w, fst (snd w)) = (d, a)"
      then obtain j where "j < length bs" "a = a + 1 + of_nat j" using log_writes_targets [OF w] by auto
      then show False using log_addr_inj [of 0 "Suc j" a] Cons.prems(2) by (simp add: algebra_simps)
    qed
    then show ?thesis using 0 apply_writes_other [of "log_writes d (a + 1) bs V" d a] by simp
  next
    case (Suc j)
    then show ?thesis using Cons.IH [of j "a + 1"] Cons.prems by (simp add: algebra_simps)
  qed
qed simp

lemma home_writes_at:
  assumes "distinct bs" "b \<in> set bs"
  shows "apply_writes (map (\<lambda>b. (d, b, V d b)) bs) D d b = V d b"
  using assms
proof (induction bs arbitrary: D)
  case (Cons c bs)
  show ?case
  proof (cases "b = c")
    case True
    then have "\<forall>w \<in> set (map (\<lambda>b. (d, b, V d b)) bs). (fst w, fst (snd w)) \<noteq> (d, b)"
      using Cons.prems by auto
    then show ?thesis using True apply_writes_other [of _ d b] by simp
  next
    case False
    then show ?thesis using Cons by simp
  qed
qed simp

lemma home_writes_other: "b \<notin> set bs \<or> d' \<noteq> d \<Longrightarrow> apply_writes (map (\<lambda>b. (d, b, V d b)) bs) D d' b = D d' b"
  by (rule apply_writes_other) auto

text \<open>The disk writes of a commit, in order.\<close>

definition head_put :: "u32 list \<Rightarrow> bytes \<Rightarrow> bytes" where
  "head_put bs v = put_bytes v 0 (head_bytes bs)"

definition commit_writes :: "'a log_state_scheme \<Rightarrow> (u32 \<times> u32 \<times> bytes) list" where
  "commit_writes s = (let d = lg_dev s; st = lg_start s; bs = lg_lh s; h = head_put bs (bview s d st) in
     log_writes d (st + 1) bs (bview s) @ [(d, st, h)] @ map (\<lambda>b. (d, b, bview s d b)) bs @
     [(d, st, head_put [] h)])"

lemma log_okD:
  assumes "log_ok s"
  shows "bio_inv s" "held_keys s = {}" "pinned s = {lg_dev s} \<times> set (lg_lh s)" "distinct (lg_lh s)"
    "length (lg_lh s) < LOGSIZE" "card (pinned s) < NBUF" "lg_start s \<notin> set (lg_lh s)"
    "b \<in> set (lg_lh s) \<Longrightarrow> io_ok s (lg_dev s) b" "k < LOGSIZE \<Longrightarrow> io_ok s (lg_dev s) (lg_start s + of_nat k)"
    "Suc k < LOGSIZE \<Longrightarrow> io_ok s (lg_dev s) (lg_start s + 1 + of_nat k)"
    "Suc k < LOGSIZE \<Longrightarrow> lg_start s + 1 + of_nat k \<notin> set (lg_lh s)"
    "apart (lg_start s + 1) (lg_lh s) (length (lg_lh s))"
proof -
  note d = assms [unfolded log_ok_def]
  show "bio_inv s" "held_keys s = {}" "pinned s = {lg_dev s} \<times> set (lg_lh s)" "distinct (lg_lh s)"
    "length (lg_lh s) < LOGSIZE" "b \<in> set (lg_lh s) \<Longrightarrow> io_ok s (lg_dev s) b" using d by auto
  show "card (pinned s) < NBUF" using d by (simp add: card_cartesian_product distinct_card)
  have "lg_start s \<in> log_addrs (lg_start s)" using log_addrs_nth [of 0 "lg_start s"] by simp
  then show "lg_start s \<notin> set (lg_lh s)" using d by auto
  show "io_ok s (lg_dev s) (lg_start s + of_nat k)" if "k < LOGSIZE"
    using d log_addrs_nth [OF that, of "lg_start s"] by blast
  show "io_ok s (lg_dev s) (lg_start s + 1 + of_nat k)" "lg_start s + 1 + of_nat k \<notin> set (lg_lh s)"
    if "Suc k < LOGSIZE" using d log_addrs_Suc [OF that, of "lg_start s"] by blast+
  show "apart (lg_start s + 1) (lg_lh s) (length (lg_lh s))"
    using apart_log [of "lg_lh s" "lg_start s" 0 "length (lg_lh s)"] d by simp
qed

lemma log_writes_skip_start:
  assumes "length bs < LOGSIZE"
  shows "apply_writes (log_writes d (st + 1) bs V) D d st = D d st"
proof (rule apply_writes_other, rule ballI, rule notI)
  fix w assume w: "w \<in> set (log_writes d (st + 1) bs V)" "(fst w, fst (snd w)) = (d, st)"
  then obtain k where "k < length bs" "st = st + 1 + of_nat k" using log_writes_targets [OF w(1)] by auto
  then show False using log_addr_inj [of 0 "Suc k" st] assms by (simp add: algebra_simps)
qed

lemma commit_ok:
  assumes "log_ok s" "lg_lh s \<noteq> []"
  shows "\<exists>t. commit s = Some t \<and> bio_inv t \<and> held_keys t = {} \<and> pinned t = {} \<and> lg_lh t = [] \<and>
    bview t = apply_writes (commit_writes s) (bview s) \<and> disk t = apply_writes (commit_writes s) (disk s) \<and>
    disk_log t = disk_log s @ commit_writes s \<and> bio_frame (s\<lparr>lg_lh := []\<rparr>) t"
proof -
  let ?d = "lg_dev s" and ?st = "lg_start s" and ?bs = "lg_lh s" and ?V = "bview s"
  let ?W1 = "log_writes ?d (?st + 1) ?bs ?V" and ?h = "head_put ?bs (?V ?d ?st)"
  let ?W3 = "map (\<lambda>b. (?d, b, ?V ?d b)) ?bs"
  note d = log_okD [OF assms(1)]
  have pre: "\<forall>b \<in> set ?bs. (?d, b) \<in> pinned s \<and> io_ok s ?d b"
    "\<forall>k < length ?bs. io_ok s ?d (?st + 0 + 1 + of_nat k) \<and> (?d, ?st + 0 + 1 + of_nat k) \<notin> pinned s"
    "apart (?st + 0 + 1) ?bs (length ?bs)"
    using d(3,5,8,10,11,12) by auto
  obtain s1 where s1: "write_log_loop 0 ?bs s = Some s1" "bio_inv s1" "held_keys s1 = {}" "pinned s1 = pinned s"
    "bview s1 = apply_writes ?W1 ?V" "disk s1 = apply_writes ?W1 (disk s)"
    "disk_log s1 = disk_log s @ ?W1" "bio_frame s s1"
    using write_log_loop_ok [OF d(1,2,6) pre] by (auto simp del: fun_upd_apply)
  note f1 = log_frame [OF s1(8)] io_ok_frame [OF s1(8)]
  have st1: "bview s1 ?d ?st = ?V ?d ?st" unfolding s1(5) by (rule log_writes_skip_start [OF d(5)])
  have pre1: "card (pinned s1) < NBUF" "io_ok s1 (lg_dev s1) (lg_start s1)" "length (lg_lh s1) \<le> LOGSIZE"
    using d(5,6) d(9) [of 0] by (simp_all add: s1(4) f1)
  obtain s2 where s2: "write_head s1 = Some s2" "bio_inv s2" "held_keys s2 = {}" "pinned s2 = pinned s"
    "bview s2 = (bview s1)(?d := (bview s1 ?d)(?st := ?h))" "disk s2 = (disk s1)(?d := (disk s1 ?d)(?st := ?h))"
    "disk_log s2 = disk_log s1 @ [(?d, ?st, ?h)]" "bio_frame s1 s2"
    using write_head_ok [OF s1(2,3) pre1] st1 d(3,7) unfolding f1 s1(4) head_put_def
    by (auto simp del: fun_upd_apply)
  note f2 = log_frame [OF s2(8)] io_ok_frame [OF s2(8)]
  have at: "bview s2 ?d (?st + 1 + of_nat k) = ?V ?d (?bs ! k)" if "k < length ?bs" for k
  proof -
    have "?st + 1 + of_nat k \<noteq> ?st"
      using log_addr_inj [of "Suc k" 0 ?st] that d(5) by (auto simp: algebra_simps)
    then show ?thesis using log_writes_at [OF that d(5)] by (simp add: s2(5) s1(5))
  qed
  have pre2: "card (pinned s2) < NBUF"
    "\<forall>b \<in> set (lg_lh s2). io_ok s2 (lg_dev s2) b \<and> ((lg_dev s2, b) \<in> pinned s2 \<or> card (pinned s2) + 1 < NBUF)"
    "\<forall>k < length (lg_lh s2). io_ok s2 (lg_dev s2) (lg_start s2 + 0 + 1 + of_nat k) \<and>
       (lg_dev s2, lg_start s2 + 0 + 1 + of_nat k) \<notin> pinned s2"
    "apart (lg_start s2 + 0 + 1) (lg_lh s2) (length (lg_lh s2))" "distinct (lg_lh s2)"
    using pre d(4,6) by (simp_all add: f2 f1 s2(4))
  have home: "home_writes (lg_dev s2) (lg_start s2 + 0 + 1) (lg_lh s2) (bview s2) = ?W3"
    using home_after_log [of ?bs "bview s2" ?d "?st + 1" ?V] at by (simp add: f2 f1)
  obtain s3 where s3: "install_loop 0 (lg_lh s2) s2 = Some s3" "bio_inv s3" "held_keys s3 = {}"
    "pinned s3 = {}" "bview s3 = apply_writes ?W3 (bview s2)" "disk s3 = apply_writes ?W3 (disk s2)"
    "disk_log s3 = disk_log s2 @ ?W3" "bio_frame s2 s3"
    using install_loop_ok [OF s2(2,3) pre2] unfolding home by (auto simp: f2 f1 s2(4) d(3) simp del: fun_upd_apply)
  note f3 = log_frame [OF s3(8)] io_ok_frame [OF s3(8)]
  let ?u = "s3\<lparr>lg_lh := []\<rparr>"
  have st3: "bview s3 ?d ?st = ?h" using home_writes_other [of ?st ?bs ?d ?d] d(7) by (simp add: s3(5) s2(5))
  have pre3: "bio_inv ?u" "held_keys ?u = {}" "card (pinned ?u) < NBUF" "io_ok ?u (lg_dev ?u) (lg_start ?u)"
    "length (lg_lh ?u) \<le> LOGSIZE"
    using s3(2-4) d(9) [of 0] by (simp_all add: f3 f2 f1)
  have u: "lg_dev ?u = ?d" "lg_start ?u = ?st" "lg_lh ?u = []" by (simp_all add: f3 f2 f1)
  obtain t where t: "write_head ?u = Some t" "bio_inv t" "held_keys t = {}" "pinned t = {}"
    "bview t = (bview s3)(?d := (bview s3 ?d)(?st := head_put [] ?h))"
    "disk t = (disk s3)(?d := (disk s3 ?d)(?st := head_put [] ?h))"
    "disk_log t = disk_log s3 @ [(?d, ?st, head_put [] ?h)]" "bio_frame ?u t"
    using write_head_ok [OF pre3] unfolding u by (auto simp: s3(4) st3 head_put_def simp del: fun_upd_apply)
  have cw: "commit_writes s = ?W1 @ [(?d, ?st, ?h)] @ ?W3 @ [(?d, ?st, head_put [] ?h)]"
    by (simp add: commit_writes_def Let_def)
  have "commit s = Some t"
    using assms(2) s1(1) s2(1) s3(1) t(1) by (simp add: commit_def write_log_def install_trans_def)
  moreover have "bio_frame (s\<lparr>lg_lh := []\<rparr>) t"
  proof -
    have "bio_frame s s3" using s1(8) s2(8) s3(8) by (blast intro: bio_frame_trans)
    then have "bio_frame (s\<lparr>lg_lh := []\<rparr>) ?u" by (cases s; cases s3) (simp add: bio_frame_def)
    then show ?thesis using t(8) by (rule bio_frame_trans)
  qed
  moreover have "bview t = apply_writes (commit_writes s) ?V"
    by (simp add: cw apply_writes_append t(5) s3(5) s2(5) s1(5) del: fun_upd_apply)
  moreover have "disk t = apply_writes (commit_writes s) (disk s)"
    by (simp add: cw apply_writes_append t(6) s3(6) s2(6) s1(6) del: fun_upd_apply)
  moreover have "disk_log t = disk_log s @ commit_writes s"
    by (simp add: cw t(7) s3(7) s2(7) s1(7))
  moreover have "lg_lh t = []" using log_frame(3) [OF t(8)] by simp
  ultimately show ?thesis using t(2-4) by blast
qed

section \<open>Recovery\<close>

lemma initlog_ok:
  assumes inv: "bio_inv s" "held_keys s = {}" "pinned s = {}"
    and sb: "io_ok s dev 1" "st = sb_logstart (decode_superblock (bview s dev 1))"
    and head: "head_n (bview s dev st) < int LOGSIZE" "bs = head_blocks (bview s dev st)"
    and bs: "distinct bs" "set bs \<inter> log_addrs st = {}" "\<forall>b \<in> set bs \<union> log_addrs st. io_ok s dev b"
  shows "\<exists>t. initlog dev s = Some t \<and> log_ok t \<and> lg_lh t = [] \<and> lg_dev t = dev \<and> lg_start t = st \<and>
    disk t = (let D = apply_writes (home_writes dev (st + 1) bs (bview s)) (disk s)
              in D(dev := (D dev)(st := head_put [] (bview s dev st))))"
proof -
  let ?s0 = "s\<lparr>lg_readonly := False\<rparr>"
  have pre0: "bio_inv ?s0" "(dev, 1) \<notin> held_keys ?s0" "io_ok ?s0 dev 1" "slot_free ?s0"
    using inv sb(1) by (simp_all add: slot_free_def)
  obtain i s1 u where u: "bread dev 1 ?s0 = Some (i, s1)" "b_data (bcache s1 i) = bview ?s0 dev 1"
    "brelse i s1 = Some u" "bio_inv u" "held_keys u = held_keys ?s0" "bview u = bview ?s0" "disk u = disk ?s0"
    "disk_log u = disk_log ?s0" "pinned u = pinned ?s0" "bio_frame ?s0 u"
    by (rule bread_release [OF pre0])
  define sbk where "sbk = decode_superblock (bview s dev 1)"
  let ?u = "u\<lparr>lg_start := st, lg_size := sint (sb_nlog sbk), lg_dev := dev\<rparr>"
  have io: "io_ok ?u = io_ok s" using io_ok_frame [OF u(10)] by simp
  have st: "st \<in> log_addrs st" using log_addrs_nth [of 0 st] by simp
  have pre1: "bio_inv ?u" "held_keys ?u = {}" "card (pinned ?u) < NBUF" "io_ok ?u (lg_dev ?u) (lg_start ?u)"
    "head_n (bview ?u (lg_dev ?u) (lg_start ?u)) \<le> int LOGSIZE"
    using u(4-9) inv head(1) bs(3) st unfolding io by simp_all
  obtain v where v: "read_head ?u = Some v" "bio_inv v" "held_keys v = {}" "pinned v = {}" "bview v = bview s"
    "disk v = disk s" "lg_lh v = bs" "lg_dev v = dev" "lg_start v = st" "io_ok v = io_ok s"
    using read_head_ok [OF pre1] u(5-9) inv(3) head(2) unfolding io by auto
  have len: "length bs < LOGSIZE" using head by (simp add: head_blocks_def)
  have pre2: "card (pinned v) < NBUF"
    "\<forall>b \<in> set (lg_lh v). io_ok v (lg_dev v) b \<and> ((lg_dev v, b) \<in> pinned v \<or> card (pinned v) + 1 < NBUF)"
    "\<forall>k < length (lg_lh v). io_ok v (lg_dev v) (lg_start v + 0 + 1 + of_nat k) \<and>
       (lg_dev v, lg_start v + 0 + 1 + of_nat k) \<notin> pinned v"
    "apart (lg_start v + 0 + 1) (lg_lh v) (length (lg_lh v))" "distinct (lg_lh v)"
    using v(4) bs log_addrs_Suc [of _ st] len apart_log [OF bs(2), of 0 "length bs"] by (auto simp: v(7-10))
  let ?W = "home_writes dev (st + 1) bs (bview s)"
  obtain w where w: "install_loop 0 (lg_lh v) v = Some w" "bio_inv w" "held_keys w = {}" "pinned w = {}"
    "bview w = apply_writes ?W (bview s)" "disk w = apply_writes ?W (disk s)" "bio_frame v w"
    using install_loop_ok [OF v(2,3) pre2] v(4-10) by (auto simp del: fun_upd_apply)
  note fw = log_frame [OF w(7)] io_ok_frame [OF w(7)]
  let ?w = "w\<lparr>lg_lh := []\<rparr>"
  have pre3: "bio_inv ?w" "held_keys ?w = {}" "card (pinned ?w) < NBUF" "io_ok ?w (lg_dev ?w) (lg_start ?w)"
    "length (lg_lh ?w) \<le> LOGSIZE"
    using w(2-4) bs(3) st by (simp_all add: fw v(8-10))
  have lw: "lg_dev ?w = dev" "lg_start ?w = st" "lg_lh ?w = []" by (simp_all add: fw v(8,9))
  have "(fst x, fst (snd x)) \<noteq> (dev, st)" if "x \<in> set ?W" for x
    using home_writes_targets [OF that] bs(2) st by auto
  then have sw: "bview w dev st = bview s dev st" unfolding w(5) by (intro apply_writes_other) blast
  obtain t where t: "write_head ?w = Some t" "bio_inv t" "held_keys t = {}" "pinned t = {}"
    "disk t = (disk w)(dev := (disk w dev)(st := head_put [] (bview s dev st)))" "bio_frame ?w t"
    using write_head_ok [OF pre3] unfolding lw by (auto simp: w(4) sw head_put_def simp del: fun_upd_apply)
  note ft = log_frame [OF t(6)] io_ok_frame [OF t(6)]
  have "initlog dev s = Some t"
    using u(1-3) v(1) w(1) t(1) sb(2)
    by (simp add: initlog_def readsb_def recover_from_log_def install_trans_def sbk_def)
  moreover have "log_ok t"
    unfolding log_ok_def using t(2-4) bs(3) by (simp add: ft fw v(8-10))
  ultimately show ?thesis by (simp add: t(5) w(6) Let_def ft fw v(8,9) del: fun_upd_apply)
qed

section \<open>Crashes\<close>

text \<open>A crash leaves the medium; the machine boots with an empty cache.\<close>

definition reboot :: "(u32 \<Rightarrow> u32 \<Rightarrow> bytes) \<Rightarrow> 'a log_state_scheme \<Rightarrow> 'a log_state_scheme" where
  "reboot D s = binit (s\<lparr>bcache := (\<lambda>_. \<lparr>b_valid = False, b_dirty = False, b_dev = 0, b_blockno = 0,
        b_lock = initsleeplock, b_refcnt = 0, b_data = []\<rparr>), mru := [], disk := D, disk_log := [],
      lg_outstanding := 0, lg_committing := False, lg_lh := []\<rparr>)"

text \<open>The log on the medium is empty, and the superblock names its place and is not
  itself logged.\<close>

definition log_mounted :: "'a log_state_scheme \<Rightarrow> bool" where
  "log_mounted s \<longleftrightarrow> sb_logstart (decode_superblock (disk s (lg_dev s) 1)) = lg_start s \<and>
     1 \<notin> log_addrs (lg_start s) \<union> set (lg_lh s) \<and> io_ok s (lg_dev s) 1 \<and>
     head_n (disk s (lg_dev s) (lg_start s)) = 0"

lemma reboot_ok:
  assumes "\<forall>d b. length (D d b) = BSIZE"
  shows "bio_inv (reboot D s)" "held_keys (reboot D s) = {}" "pinned (reboot D s) = {}"
    "bview (reboot D s) = D" "disk (reboot D s) = D" "io_ok (reboot D s) = io_ok s"
proof -
  show "bio_inv (reboot D s)" "held_keys (reboot D s) = {}" "pinned (reboot D s) = {}" "bview (reboot D s) = D"
    using assms by (simp_all add: reboot_def binit_inv)
  show "disk (reboot D s) = D" by (simp add: reboot_def binit_def)
  show "io_ok (reboot D s) = io_ok s" by (rule io_ok_cong) (simp_all add: reboot_def binit_def)
qed

lemma reboot_recovers:
  assumes "log_ok s" "log_mounted s" "\<forall>d b. length (D d b) = BSIZE"
    and "D (lg_dev s) 1 = disk s (lg_dev s) 1" "bs = [] \<or> bs = lg_lh s"
    and "head_n (D (lg_dev s) (lg_start s)) = int (length bs)" "head_blocks (D (lg_dev s) (lg_start s)) = bs"
  shows "\<exists>r. initlog (lg_dev s) (reboot D s) = Some r \<and> log_ok r \<and> lg_lh r = [] \<and>
    (\<forall>d b. d = lg_dev s \<and> b \<in> log_addrs (lg_start s) \<or>
      disk r d b = apply_writes (home_writes (lg_dev s) (lg_start s + 1) bs D) D d b)"
proof -
  let ?d = "lg_dev s" and ?st = "lg_start s"
  note rb = reboot_ok [OF assms(3), of s]
  note lo = assms(1) [unfolded log_ok_def] and lm = assms(2) [unfolded log_mounted_def]
  have st: "?st = sb_logstart (decode_superblock (bview (reboot D s) ?d 1))" using lm assms(4) by (simp add: rb)
  have sub: "distinct bs" "set bs \<inter> log_addrs ?st = {}" "\<forall>b \<in> set bs \<union> log_addrs ?st. io_ok (reboot D s) ?d b"
    "length bs < LOGSIZE"
    using lo assms(5) by (auto simp: rb)
  have hd: "head_n (bview (reboot D s) ?d ?st) < int LOGSIZE" "bs = head_blocks (bview (reboot D s) ?d ?st)"
    "io_ok (reboot D s) ?d 1"
    using assms(6,7) sub(4) lm by (simp_all add: rb)
  have "?st \<in> log_addrs ?st" using log_addrs_nth [of 0 ?st] by simp
  then show ?thesis
    using initlog_ok [OF rb(1-3) hd(3) st hd(1,2) sub(1-3)] by (fastforce simp: Let_def rb(4,5))
qed

lemma commit_writes_targets:
  assumes "log_ok s" "w \<in> set (commit_writes s)"
  shows "fst w = lg_dev s" "fst (snd w) \<in> log_addrs (lg_start s) \<union> set (lg_lh s)" "length (snd (snd w)) = BSIZE"
proof -
  note d = log_okD [OF assms(1)]
  let ?d = "lg_dev s" and ?st = "lg_start s" and ?bs = "lg_lh s" and ?V = "bview s"
  let ?h = "head_put ?bs (?V ?d ?st)"
  have st: "?st \<in> log_addrs ?st" using log_addrs_nth [of 0 ?st] by simp
  have len: "length ?h = BSIZE" "length (head_put [] ?h) = BSIZE" "length (?V ?d b) = BSIZE" for b
    using bview_length [OF d(1)] d(5) by (simp_all add: head_put_def)
  consider "w \<in> set (log_writes ?d (?st + 1) ?bs ?V)" | "w = (?d, ?st, ?h)" |
    "w \<in> set (map (\<lambda>b. (?d, b, ?V ?d b)) ?bs)" | "w = (?d, ?st, head_put [] ?h)"
    using assms(2) by (auto simp: commit_writes_def Let_def)
  then have "fst w = ?d \<and> fst (snd w) \<in> log_addrs ?st \<union> set ?bs \<and> length (snd (snd w)) = BSIZE"
  proof cases
    case 1
    then obtain k where "k < length ?bs" "fst w = ?d" "fst (snd w) = ?st + 1 + of_nat k" "snd (snd w) = ?V ?d (?bs ! k)"
      using log_writes_targets by blast
    then show ?thesis using log_addrs_Suc [of k ?st] d(5) len(3) by auto
  qed (use st len in auto)
  then show "fst w = ?d" "fst (snd w) \<in> log_addrs ?st \<union> set ?bs" "length (snd (snd w)) = BSIZE" by blast+
qed

lemma prefix_other:
  assumes "log_ok s" "d = lg_dev s \<longrightarrow> b \<notin> log_addrs (lg_start s) \<union> set (lg_lh s)"
  shows "apply_writes (take k (commit_writes s)) (disk s) d b = disk s d b"
proof (rule apply_writes_other, rule ballI)
  fix w assume "w \<in> set (take k (commit_writes s))"
  then have "w \<in> set (commit_writes s)" by (rule in_set_takeD)
  from commit_writes_targets(1,2) [OF assms(1) this] show "(fst w, fst (snd w)) \<noteq> (d, b)"
    using assms(2) by auto
qed

lemma prefix_length:
  assumes "log_ok s"
  shows "\<forall>d b. length (apply_writes (take k (commit_writes s)) (disk s) d b) = BSIZE"
  using commit_writes_targets(3) [OF assms] bio_invD(4) [OF log_okD(1) [OF assms]]
  by (auto intro!: apply_writes_length dest: in_set_takeD)

lemma clean_elsewhere:
  assumes "log_ok s" "d \<noteq> lg_dev s \<or> b \<notin> set (lg_lh s)"
  shows "bview s d b = disk s d b"
  using pinned_or_clean [of s d b] log_okD(1-3) [OF assms(1)] assms(2) by auto

lemma head_put_round_trip:
  assumes "length bs \<le> LOGSIZE" "length v = BSIZE"
  shows "head_n (head_put bs v) = int (length bs)" "head_blocks (head_put bs v) = bs"
  using head_round_trip [OF assms] by (simp_all add: head_put_def)

text \<open>The three phases a crash can hit.\<close>

lemma crash_before_head:
  assumes "log_ok s" "log_mounted s" "k \<le> length (lg_lh s)"
  defines "D \<equiv> apply_writes (take k (commit_writes s)) (disk s)"
  shows "head_n (D (lg_dev s) (lg_start s)) = 0"
    "d \<noteq> lg_dev s \<or> b \<notin> log_addrs (lg_start s) \<Longrightarrow> D d b = disk s d b"
proof -
  let ?d = "lg_dev s" and ?st = "lg_start s" and ?bs = "lg_lh s"
  note l = log_okD [OF assms(1)]
  have D: "D = apply_writes (take k (log_writes ?d (?st + 1) ?bs (bview s))) (disk s)"
    using assms(3) by (simp add: D_def commit_writes_def Let_def)
  have t: "\<exists>j < length ?bs. fst w = ?d \<and> fst (snd w) = ?st + 1 + of_nat j"
    if "w \<in> set (take k (log_writes ?d (?st + 1) ?bs (bview s)))" for w
    using log_writes_targets [OF in_set_takeD [OF that]] by blast
  have "?st + 1 + of_nat j \<noteq> ?st" if "j < length ?bs" for j
    using log_addr_inj [of "Suc j" 0 ?st] that l(5) by (auto simp: algebra_simps)
  then have "D ?d ?st = disk s ?d ?st" unfolding D using t by (intro apply_writes_other) fastforce
  then show "head_n (D ?d ?st) = 0" using assms(2) by (simp add: log_mounted_def)
  have "?st + 1 + of_nat j \<in> log_addrs ?st" if "j < length ?bs" for j
    using log_addrs_Suc [of j ?st] that l(5) by simp
  then show "D d b = disk s d b" if "d \<noteq> ?d \<or> b \<notin> log_addrs ?st"
    unfolding D using t that by (intro apply_writes_other) fastforce
qed

lemma crash_installing:
  assumes "log_ok s" "length (lg_lh s) < k" "k \<le> 2 * length (lg_lh s) + 1"
  defines "D \<equiv> apply_writes (take k (commit_writes s)) (disk s)"
  shows "D (lg_dev s) (lg_start s) = head_put (lg_lh s) (bview s (lg_dev s) (lg_start s))"
    "j < length (lg_lh s) \<Longrightarrow> D (lg_dev s) (lg_start s + 1 + of_nat j) = bview s (lg_dev s) (lg_lh s ! j)"
proof -
  let ?d = "lg_dev s" and ?st = "lg_start s" and ?bs = "lg_lh s"
  let ?h = "head_put ?bs (bview s ?d ?st)" and ?W3 = "map (\<lambda>b. (?d, b, bview s ?d b)) ?bs"
  note l = log_okD [OF assms(1)]
  define m where "m = k - length ?bs - 1"
  have "take k (commit_writes s) = log_writes ?d (?st + 1) ?bs (bview s) @ [(?d, ?st, ?h)] @ take m ?W3"
    using assms(2,3) by (simp add: commit_writes_def Let_def m_def take_Cons')
  then have D: "D = apply_writes (take m ?W3) ((apply_writes (log_writes ?d (?st + 1) ?bs (bview s)) (disk s))
      (?d := (apply_writes (log_writes ?d (?st + 1) ?bs (bview s)) (disk s) ?d)(?st := ?h)))" (is "_ = apply_writes _ ?E")
    by (simp add: D_def apply_writes_append del: fun_upd_apply)
  have skip: "D ?d b = ?E ?d b" if "b \<notin> set ?bs" for b
    unfolding D using that by (intro apply_writes_other) (auto dest: in_set_takeD)
  show "D ?d ?st = ?h" using skip [OF l(7)] by simp
  show "D ?d (?st + 1 + of_nat j) = bview s ?d (?bs ! j)" if "j < length ?bs"
  proof -
    have "?st + 1 + of_nat j \<noteq> ?st"
      using log_addr_inj [of "Suc j" 0 ?st] that l(5) by (auto simp: algebra_simps)
    then show ?thesis using skip [OF l(11)] log_writes_at [OF that l(5)] that l(5) by simp
  qed
qed

lemma crash_after:
  assumes "log_ok s" "k > 2 * length (lg_lh s) + 1"
  defines "D \<equiv> apply_writes (take k (commit_writes s)) (disk s)"
  shows "D (lg_dev s) (lg_start s) = head_put [] (head_put (lg_lh s) (bview s (lg_dev s) (lg_start s)))"
    "b \<in> set (lg_lh s) \<Longrightarrow> D (lg_dev s) b = bview s (lg_dev s) b"
proof -
  let ?d = "lg_dev s" and ?st = "lg_start s" and ?bs = "lg_lh s"
  note l = log_okD [OF assms(1)]
  have D: "D = apply_writes (commit_writes s) (disk s)"
    using assms(2) by (simp add: D_def commit_writes_def Let_def)
  show "D ?d ?st = head_put [] (head_put ?bs (bview s ?d ?st))"
    by (simp add: D commit_writes_def Let_def apply_writes_append)
  show "D ?d b = bview s ?d b" if "b \<in> set ?bs"
    using that l(7) home_writes_at [OF l(4) that]
    by (auto simp: D commit_writes_def Let_def apply_writes_append)
qed

section \<open>Properties of the log\<close>

text \<open>C1. A commit is atomic with respect to crashes: started between operations with an
  empty log on the medium, \<^verbatim>\<open>commit\<close> returns, and if the machine stops after any number
  \<open>k\<close> of its disk writes, \<^verbatim>\<open>initlog\<close> of the next boot returns with an empty log and
  with every block outside the log holding its old content, for all blocks, or its new
  content, for all blocks; the switch is the write of the header.\<close>

theorem commit_crash_atomic:
  assumes "log_ok s" "log_mounted s" "lg_lh s \<noteq> []"
  shows "\<exists>t. commit s = Some t \<and> (\<forall>k. \<exists>r.
    initlog (lg_dev s) (reboot (apply_writes (take k (drop (length (disk_log s)) (disk_log t))) (disk s)) s) = Some r \<and>
    log_ok r \<and> lg_lh r = [] \<and>
    (\<forall>d b. d = lg_dev s \<and> b \<in> log_addrs (lg_start s) \<or>
       disk r d b = (if k \<le> length (lg_lh s) then disk s d b else bview s d b)))"
proof -
  let ?d = "lg_dev s" and ?st = "lg_start s" and ?bs = "lg_lh s"
  note l = log_okD [OF assms(1)]
  obtain t where t: "commit s = Some t" "disk_log t = disk_log s @ commit_writes s"
    using commit_ok [OF assms(1,3)] by blast
  have "\<exists>r. initlog ?d (reboot (apply_writes (take k (commit_writes s)) (disk s)) s) = Some r \<and>
      log_ok r \<and> lg_lh r = [] \<and> (\<forall>d b. d = ?d \<and> b \<in> log_addrs ?st \<or>
        disk r d b = (if k \<le> length ?bs then disk s d b else bview s d b))" for k
  proof -
    define D where "D = apply_writes (take k (commit_writes s)) (disk s)"
    have len: "\<forall>d b. length (D d b) = BSIZE" unfolding D_def by (rule prefix_length [OF assms(1)])
    have sb: "D ?d 1 = disk s ?d 1"
      unfolding D_def using assms(2) by (intro prefix_other [OF assms(1)]) (simp add: log_mounted_def)
    note rec = reboot_recovers [OF assms(1,2) len sb]
    have hlen: "length (bview s ?d ?st) = BSIZE" by (rule bview_length [OF l(1)])
    have other: "D d b = bview s d b" if "\<not> (d = ?d \<and> b \<in> log_addrs ?st)" "d \<noteq> ?d \<or> b \<notin> set ?bs" for d b
      using that prefix_other [OF assms(1), of d b k] clean_elsewhere [OF assms(1) that(2)]
      by (auto simp: D_def)
    consider "k \<le> length ?bs" | "length ?bs < k" "k \<le> 2 * length ?bs + 1" | "k > 2 * length ?bs + 1"
      by linarith
    then have "\<exists>r. initlog ?d (reboot D s) = Some r \<and> log_ok r \<and> lg_lh r = [] \<and>
        (\<forall>d b. d = ?d \<and> b \<in> log_addrs ?st \<or>
          disk r d b = (if k \<le> length ?bs then disk s d b else bview s d b))"
    proof cases
      case 1
      note c = crash_before_head [OF assms(1,2) 1, folded D_def]
      obtain r where r: "initlog ?d (reboot D s) = Some r" "log_ok r" "lg_lh r = []"
        "\<forall>d b. d = ?d \<and> b \<in> log_addrs ?st \<or> disk r d b = D d b"
        using rec [of "[]"] c(1) by (auto simp: head_blocks_def)
      have "d = ?d \<and> b \<in> log_addrs ?st \<or> disk r d b = disk s d b" for d b
        using r(4) [rule_format, of d b] c(2) [of d b] by (cases "d = ?d \<and> b \<in> log_addrs ?st") auto
      then show ?thesis using r 1 by (intro exI [of _ r]) simp
    next
      case 2
      note c = crash_installing [OF assms(1) 2, folded D_def]
      have "home_writes ?d (?st + 1) ?bs D = map (\<lambda>b. (?d, b, bview s ?d b)) ?bs"
        using c(2) by (intro home_after_log) blast
      moreover have "head_n (D ?d ?st) = int (length ?bs)" "head_blocks (D ?d ?st) = ?bs"
        unfolding c(1) using head_put_round_trip [OF _ hlen] l(5) by simp_all
      ultimately obtain r where r: "initlog ?d (reboot D s) = Some r" "log_ok r" "lg_lh r = []"
        "\<forall>d b. d = ?d \<and> b \<in> log_addrs ?st \<or> disk r d b = apply_writes (map (\<lambda>b. (?d, b, bview s ?d b)) ?bs) D d b"
        using rec [of ?bs] by auto
      have "d = ?d \<and> b \<in> log_addrs ?st \<or> disk r d b = bview s d b" for d b
        using r(4) [rule_format, of d b] other [of d b] home_writes_at [OF l(4), of b ?d "bview s" D]
          home_writes_other [of b ?bs d ?d "bview s" D]
        by (cases "d = ?d \<and> b \<in> log_addrs ?st"; cases "d = ?d \<and> b \<in> set ?bs") auto
      then show ?thesis using r 2(1) by (intro exI [of _ r]) simp
    next
      case 3
      note c = crash_after [OF assms(1) 3, folded D_def]
      have "head_n (D ?d ?st) = 0" "head_blocks (D ?d ?st) = []"
        unfolding c(1) using head_put_round_trip [of "[]"] hlen l(5) by (simp_all add: head_put_def)
      then obtain r where r: "initlog ?d (reboot D s) = Some r" "log_ok r" "lg_lh r = []"
        "\<forall>d b. d = ?d \<and> b \<in> log_addrs ?st \<or> disk r d b = D d b"
        using rec [of "[]"] by auto
      have "d = ?d \<and> b \<in> log_addrs ?st \<or> disk r d b = bview s d b" for d b
        using r(4) [rule_format, of d b] other [of d b] c(2) [of b]
        by (cases "d = ?d \<and> b \<in> log_addrs ?st"; cases "d = ?d \<and> b \<in> set ?bs") auto
      then show ?thesis using r 3 by (intro exI [of _ r]) simp
    qed
    then show ?thesis unfolding D_def .
  qed
  then show ?thesis using t by auto
qed

text \<open>A machine with one logged block, block 40, and its log at blocks 2 to 31.\<close>

definition demo_log :: "u32 list \<Rightarrow> log_state" where
  "demo_log bs = bio_state.extend
     (let z = replicate BSIZE 0 in (ram_machine 100)
       \<lparr>disk := (\<lambda>_ _. z)(28 := (\<lambda>_. z)(1 := put_bytes z 16 (bytes_of_le32 2))),
        bcache := (\<lambda>i. \<lparr>b_valid = i < length bs, b_dirty = i < length bs, b_dev = 28,
           b_blockno = (if i < length bs then bs ! i else 99),
           b_lock = initsleeplock, b_refcnt = 0, b_data = replicate BSIZE 7\<rparr>)\<rparr>)
     (log_state.fields 2 30 0 False 28 bs False)"

lemma demo_log_ok: "log_ok (demo_log [40])" "log_mounted (demo_log [40])"
proof -
  let ?s = "demo_log [40]" and ?z = "replicate BSIZE (0 :: u8)"
  note unf = demo_log_def bio_state.extend_def log_state.fields_def ram_machine_def binit_def Let_def
  have mru: "mru ?s = rev [0..<NBUF]" by (simp add: unf)
  have find0: "find P (rev [0..<NBUF]) = Some 0" if "\<And>i. P i \<longleftrightarrow> i = 0" for P
    using that find_unique [of P 0 "rev [0..<NBUF]"] by simp
  have bc: "bcache ?s i = \<lparr>b_valid = i < 1, b_dirty = i < 1, b_dev = 28, b_blockno = (if i < 1 then 40 else 99),
      b_lock = initsleeplock, b_refcnt = 0, b_data = replicate BSIZE 7\<rparr>" for i
    by (auto simp: unf)
  have c: "cached ?s (28, 40) = Some 0"
    unfolding cached_def mru by (rule find0) (simp add: bc bkey_def)
  have dsk: "length (disk ?s d n) = BSIZE" for d n by (simp add: unf)
  have inv: "bio_inv ?s" using dsk c by (auto simp: bio_inv_def mru buf_ok_def bc bkey_def atLeast0LessThan)
  have held: "held_keys ?s = {}" "pinned ?s = {(28, 40)}"
    by (auto simp: held_keys_def held_def pinned_def bc bkey_def image_iff)
  have io: "io_ok ?s 28 n \<longleftrightarrow> ucast n + 1 \<le> (100 :: u64)" for n by (simp add: io_ok_def unf)
  have lg: "lg_dev ?s = 28" "lg_start ?s = 2" "lg_lh ?s = [40]" by (simp_all add: unf)
  have addr: "unat (2 + of_nat k :: u32) = 2 + k" if "k < LOGSIZE" for k
    using that unat_of_nat_small(1) [of "2 + k"] by simp
  have ioa: "io_ok ?s 28 (2 + of_nat k)" if "k < LOGSIZE" for k
    using that addr [OF that] by (simp add: io word_le_nat_alt unat_plus_if')
  have not_in: "(40 :: u32) \<notin> log_addrs 2" "(1 :: u32) \<notin> log_addrs 2"
    using addr by (auto simp: log_addrs_def word_unat_eq_iff)
  show "log_ok ?s"
    using inv held not_in ioa by (auto simp: log_ok_def lg log_addrs_def io)
  have "disk ?s 28 2 = ?z" "disk ?s 28 1 = put_bytes ?z 16 (bytes_of_le32 2)" by (simp_all add: unf)
  moreover have "sb_logstart (decode_superblock (put_bytes ?z 16 (bytes_of_le32 2))) = 2"
    by (simp add: decode_superblock_def buf_simps)
  moreover have "head_n ?z = 0" by (simp add: head_n_def get_bytes_def le32_of_def)
  ultimately show "log_mounted ?s" using not_in by (simp add: log_mounted_def lg io)
qed

theorem commit_crash_atomic_witness:
  "\<exists>t. commit (demo_log [40]) = Some t \<and> (\<exists>r. initlog 28 (reboot (apply_writes
     (take 2 (drop (length (disk_log (demo_log [40]))) (disk_log t))) (disk (demo_log [40]))) (demo_log [40])) = Some r \<and>
     disk r 28 40 = bview (demo_log [40]) 28 40)"
proof -
  have lg: "lg_dev (demo_log [40]) = 28" "lg_start (demo_log [40]) = 2" "lg_lh (demo_log [40]) = [40]"
    by (simp_all add: demo_log_def bio_state.extend_def log_state.fields_def)
  have "(40 :: u32) \<notin> log_addrs 2" using demo_log_ok(1) by (simp add: log_ok_def lg)
  then show ?thesis
    using commit_crash_atomic [OF demo_log_ok] unfolding lg by fastforce
qed

text \<open>C5. The end of the last operation is durable: \<^verbatim>\<open>end_op\<close> commits, leaves an empty log
  with nothing pinned, keeps the content of every block outside the log as the kernel
  sees it, and every such block's medium has that content.\<close>

theorem end_op_durable:
  assumes "log_ok s" "lg_outstanding s = 1" "\<not> lg_committing s" "\<not> lg_readonly s"
  shows "\<exists>t. end_op s = Some t \<and> bio_inv t \<and> held_keys t = {} \<and> pinned t = {} \<and> lg_lh t = [] \<and>
    lg_outstanding t = 0 \<and> \<not> lg_committing t \<and>
    (\<forall>d b. d = lg_dev s \<and> b \<in> log_addrs (lg_start s) \<or> bview t d b = bview s d b \<and> disk t d b = bview s d b)"
proof (cases "lg_lh s = []")
  case True
  then have "end_op s = Some (s\<lparr>lg_outstanding := 0\<rparr>)"
    using assms(2-4) by (simp add: end_op_def commit_def Let_def)
  then show ?thesis
    using True log_okD(1-3) [OF assms(1)] clean_elsewhere [OF assms(1)] assms(3) by auto
next
  case False
  let ?s = "s\<lparr>lg_outstanding := 0, lg_committing := True\<rparr>"
  have ok: "log_ok ?s" using assms(1) by (simp add: log_ok_def)
  have cw: "commit_writes ?s = commit_writes s" by (simp add: commit_writes_def Let_def)
  obtain u where u: "commit ?s = Some u" "bio_inv u" "held_keys u = {}" "pinned u = {}" "lg_lh u = []"
    "bview u = apply_writes (commit_writes s) (bview s)" "disk u = apply_writes (commit_writes s) (disk s)"
    "bio_frame (?s\<lparr>lg_lh := []\<rparr>) u"
    using commit_ok [OF ok] False by (auto simp: cw)
  have "end_op s = Some (u\<lparr>lg_committing := False\<rparr>)"
    using assms(2-4) u(1) by (simp add: end_op_def Let_def)
  moreover have "disk u d b = bview s d b" if "d \<noteq> lg_dev s \<or> b \<notin> log_addrs (lg_start s)" for d b
  proof -
    have "disk u d b = apply_writes (take (length (commit_writes s)) (commit_writes s)) (disk s) d b"
      by (simp add: u(7))
    moreover have "length (commit_writes s) > 2 * length (lg_lh s) + 1"
      by (simp add: commit_writes_def Let_def)
    ultimately show ?thesis
      using crash_after(2) [OF assms(1), of "length (commit_writes s)" b]
        prefix_other [OF assms(1), of d b "length (commit_writes s)"] clean_elsewhere [OF assms(1), of d b] that
      by (cases "d = lg_dev s \<and> b \<in> set (lg_lh s)") auto
  qed
  moreover have "bview u d b = disk u d b" for d b
    using pinned_or_clean [OF u(2), of d b] u(3,4) by simp
  moreover have "lg_outstanding u = 0" using log_frame(5) [OF u(8)] by simp
  ultimately show ?thesis using u(2-5) by auto
qed

theorem end_op_durable_witness:
  "\<exists>t. end_op ((demo_log [40])\<lparr>lg_outstanding := 1\<rparr>) = Some t \<and> lg_lh t = []"
proof -
  have "log_ok ((demo_log [40])\<lparr>lg_outstanding := 1\<rparr>)" using demo_log_ok(1) by (simp add: log_ok_def)
  from end_op_durable [OF this] show ?thesis
    by (auto simp: demo_log_def bio_state.extend_def log_state.fields_def)
qed

text \<open>During operations: the logged blocks are exactly the pinned ones.\<close>

definition log_txn :: "'a log_state_scheme \<Rightarrow> bool" where
  "log_txn s \<longleftrightarrow> bio_inv s \<and> pinned s = {lg_dev s} \<times> set (lg_lh s) \<and> distinct (lg_lh s) \<and>
     int (length (lg_lh s)) \<le> lg_size s - 1 \<and> lg_size s \<le> int LOGSIZE \<and>
     lg_outstanding s \<ge> 1 \<and> \<not> lg_readonly s"

lemma log_write_ok:
  assumes "log_txn s" "holds s i (lg_dev s) n" "int (length (lg_lh s)) < lg_size s - 1"
  shows "\<exists>t. log_write i s = Some t \<and> log_txn t \<and> lg_lh t = log_add n (lg_lh s) \<and>
    pinned t = insert (lg_dev s, n) (pinned s) \<and> bview t = bview s \<and> disk t = disk s \<and>
    holds t = holds s \<and> held_keys t = held_keys s \<and> bio_frame (s\<lparr>lg_lh := log_add n (lg_lh s)\<rparr>) t"
proof -
  let ?s = "s\<lparr>lg_lh := log_add n (lg_lh s)\<rparr>"
  note tx = assms(1) [unfolded log_txn_def]
  have n: "b_blockno (bcache s i) = n" using assms(2) by (simp add: holds_def bkey_def)
  have h: "bio_inv ?s" "holds ?s i (lg_dev s) n" using tx assms(2) by simp_all
  note p = pin_ok [OF h]
  let ?t = "upd_buf i (\<lambda>b. b\<lparr>b_dirty := True\<rparr>) ?s"
  have eq: "log_write i s = Some ?t"
    using tx assms(3) n by (simp add: log_write_def Let_def)
  note f = log_frame [OF p(6)]
  have "set (log_add n (lg_lh s)) = insert n (set (lg_lh s))" "distinct (log_add n (lg_lh s))"
    "length (log_add n (lg_lh s)) \<le> Suc (length (lg_lh s))"
    using tx by (auto simp: log_add_def)
  then have "log_txn ?t" using tx p(1,5) assms(3) f by (auto simp: log_txn_def)
  then show ?thesis using eq p f by simp
qed

text \<open>C23. \<^verbatim>\<open>log_write\<close> keeps the transaction invariant: called for a held block with room in
  the log it returns, the header lists the block exactly once, it is pinned, exactly the
  listed blocks are pinned, and no content changes.\<close>

theorem log_write_txn:
  assumes "log_txn s" "holds s i (lg_dev s) n" "int (length (lg_lh s)) < lg_size s - 1"
  shows "\<exists>t. log_write i s = Some t \<and> log_txn t \<and> count_list (lg_lh t) n = 1 \<and>
    set (lg_lh t) = insert n (set (lg_lh s)) \<and> (lg_dev t, n) \<in> pinned t \<and> bview t = bview s \<and> disk t = disk s"
proof -
  obtain t where t: "log_write i s = Some t" "log_txn t" "lg_lh t = log_add n (lg_lh s)"
    "pinned t = insert (lg_dev s, n) (pinned s)" "bview t = bview s" "disk t = disk s"
    "bio_frame (s\<lparr>lg_lh := log_add n (lg_lh s)\<rparr>) t"
    using log_write_ok [OF assms] by blast
  have "distinct (lg_lh t)" "n \<in> set (lg_lh t)" "set (lg_lh t) = insert n (set (lg_lh s))"
    using t(2,3) by (auto simp: log_txn_def log_add_def)
  moreover have "count_list xs n = 1" if "distinct xs" "n \<in> set xs" for xs
    using that by (induction xs) (auto simp: count_list_0_iff)
  ultimately show ?thesis using t log_frame(1) [OF t(7)] by auto
qed

lemma demo_log_empty:
  defines "s \<equiv> (demo_log [])\<lparr>lg_outstanding := 1\<rparr>"
  shows "bio_inv s" "held_keys s = {}" "pinned s = {}" "lg_dev s = 28" "lg_lh s = []" "lg_size s = 30"
    "io_ok s 28 40" "log_txn s"
proof -
  note unf = s_def demo_log_def bio_state.extend_def log_state.fields_def ram_machine_def binit_def Let_def
  show 1: "bio_inv s" by (simp add: unf bio_inv_def buf_ok_def atLeast0LessThan)
  show 2: "held_keys s = {}" "pinned s = {}" by (simp_all add: unf held_keys_def held_def pinned_def)
  show 3: "lg_dev s = 28" "lg_lh s = []" "lg_size s = 30" by (simp_all add: unf)
  show "io_ok s 28 40" by (simp add: unf io_ok_def)
  show "log_txn s" using 1 2 3 by (simp add: log_txn_def) (simp add: unf)
qed

theorem log_write_txn_witness:
  "\<exists>i t u. bread 28 40 ((demo_log [])\<lparr>lg_outstanding := 1\<rparr>) = Some (i, t) \<and> log_write i t = Some u \<and>
     set (lg_lh u) = {40}"
proof -
  let ?s = "(demo_log [])\<lparr>lg_outstanding := 1\<rparr>"
  note d = demo_log_empty
  have pre: "(28, 40) \<notin> held_keys ?s" "(28, 40) \<in> pinned ?s \<or> card (held_keys ?s) + card (pinned ?s) < NBUF"
    using d(2,3) by simp_all
  obtain i t where a: "bread 28 40 ?s = Some (i, t)" "bio_inv t" "holds t i 28 40"
    "b_data (bcache t i) = bview ?s 28 40" "\<forall>j d' n'. holds ?s j d' n' \<longrightarrow> holds t j d' n'"
    "held_keys t = insert (28, 40) (held_keys ?s)" "bview t = bview ?s" "pinned t = pinned ?s"
    "disk t = disk ?s" "disk_log t = disk_log ?s" "bio_frame ?s t"
    by (rule bread_ok [OF d(1) pre(1) d(7) pre(2)])
  note f = log_frame [OF a(11)]
  have "log_txn t" using d(8) a(2,8) f by (simp add: log_txn_def)
  then show ?thesis
    using log_write_txn [of t i 40] a(1,3) d(4-6) f by auto
qed



end
