(* ===== verification/Ufs2.thy ===== *)
theory Ufs2
  imports Blockdev
begin

text \<open>
  \<^verbatim>\<open>kern/ufs2.c\<close> and \<^verbatim>\<open>kern/storage.c\<close>: the UFS2 volumes, on the byte-range transport.
  A C function that returns \<open>-1\<close> or 0 with an output parameter is a function into
  \<open>('v option \<times> 's) option\<close>: outside \<open>None\<close> is no return (a panic below), inside \<open>None\<close>
  is the return value \<open>-1\<close>.  Names are byte lists without the final NUL; local byte
  arrays are byte lists, and a store outside an array is no return.
\<close>

section \<open>Calls that may fail\<close>

type_synonym ('v, 's) outcome = "('v option \<times> 's) option"

definition c_ok :: "'v \<Rightarrow> 's \<Rightarrow> ('v, 's) outcome" where
  "c_ok v s = Some (Some v, s)"

definition c_err :: "'s \<Rightarrow> ('v, 's) outcome" where
  "c_err s = Some (None, s)"

text \<open>\<^verbatim>\<open>if (f() < 0) return -1;\<close> and then the rest.\<close>

definition c_try :: "('v, 's) outcome \<Rightarrow> ('v \<Rightarrow> 's \<Rightarrow> ('w, 's) outcome) \<Rightarrow> ('w, 's) outcome" where
  "c_try m f = (case m of None \<Rightarrow> None | Some (None, s) \<Rightarrow> c_err s | Some (Some v, s) \<Rightarrow> f v s)"

text \<open>The same where a failure of the call is not the end.\<close>

definition c_case :: "('v, 's) outcome \<Rightarrow> ('s \<Rightarrow> ('w, 't) outcome) \<Rightarrow> ('v \<Rightarrow> 's \<Rightarrow> ('w, 't) outcome) \<Rightarrow> ('w, 't) outcome" where
  "c_case m e f = (case m of None \<Rightarrow> None | Some (None, s) \<Rightarrow> e s | Some (Some v, s) \<Rightarrow> f v s)"

lemma c_try_simps [simp]:
  "c_try (c_ok v s) f = f v s" "c_try (c_err s) f = c_err s" "c_try None f = None"
  "c_case (c_ok v s) e f = f v s" "c_case (c_err s) e f = e s" "c_case None e f = None"
  by (simp_all add: c_try_def c_case_def c_ok_def c_err_def)

lemma c_ok_eq [simp]: "c_ok v s = c_ok w t \<longleftrightarrow> v = w \<and> s = t"
  by (simp add: c_ok_def)

definition bd_read :: "blockdev \<Rightarrow> u64 \<Rightarrow> u32 \<Rightarrow> 'a bio_state_scheme \<Rightarrow> (bytes, 'a bio_state_scheme) outcome" where
  "bd_read vol off len s = (case blockdev_read vol off len s of None \<Rightarrow> None
     | Some (r, bs, s) \<Rightarrow> if r < 0 then c_err s else c_ok bs s)"

definition bd_write :: "blockdev \<Rightarrow> u64 \<Rightarrow> u32 \<Rightarrow> bytes \<Rightarrow> 'a bio_state_scheme \<Rightarrow> (unit, 'a bio_state_scheme) outcome" where
  "bd_write vol off len src s = (case blockdev_write vol off len src s of None \<Rightarrow> None
     | Some (r, s) \<Rightarrow> if r < 0 then c_err s else c_ok () s)"

section \<open>Volumes and inodes\<close>

record ufs2_volume =
  uv_device :: blockdev
  uv_block_size :: u32
  uv_fragment_size :: u32
  uv_fragments_per_block :: u32
  uv_cylinder_groups :: u32
  uv_inodes_per_group :: u32
  uv_fragments_per_group :: u32
  uv_inodes_per_block :: u32
  uv_inode_table_fragment :: u64
  uv_cylinder_group_block :: u32
  uv_cylinder_group_size :: u32

record ufs2_inode =
  ui_mode :: u16
  ui_nlink :: u16
  ui_uid :: u32
  ui_gid :: u32
  ui_size :: u64
  ui_direct :: "u64 list"
  ui_indirect :: "u64 list"

abbreviation UFS2_ROOT_INO :: u32 where "UFS2_ROOT_INO \<equiv> 2"
abbreviation UFS2_IFDIR :: u16 where "UFS2_IFDIR \<equiv> 0x4000"
abbreviation UFS2_IFREG :: u16 where "UFS2_IFREG \<equiv> 0x8000"
abbreviation UFS2_IFMT :: u16 where "UFS2_IFMT \<equiv> 0xf000"

definition le32_at :: "bytes \<Rightarrow> nat \<Rightarrow> u32" where
  "le32_at d off = le32_of (get_bytes d off 4)"

definition le16_at :: "bytes \<Rightarrow> nat \<Rightarrow> u16" where
  "le16_at d off = le16_of (get_bytes d off 2)"

definition le64_at :: "bytes \<Rightarrow> nat \<Rightarrow> u64" where
  "le64_at d off = le64_of (get_bytes d off 8)"

definition ufs2_inode_offset :: "ufs2_volume \<Rightarrow> u32 \<Rightarrow> u64 option" where
  "ufs2_inode_offset v ino =
     (if uv_inodes_per_group v = 0 then None
      else let grp = ino div uv_inodes_per_group v; index = ino mod uv_inodes_per_group v in
        if grp \<ge> uv_cylinder_groups v then None
        else if uv_inodes_per_block v = 0 \<or> uv_fragment_size v = 0 then None
        else let fragment = ucast grp * ucast (uv_fragments_per_group v);
                 table = ucast (index div uv_inodes_per_block v) * ucast (uv_fragments_per_block v) in
          if fragment > NOT 0 - uv_inode_table_fragment v \<or>
             table > NOT 0 - fragment - uv_inode_table_fragment v then None
          else let fragment = fragment + (uv_inode_table_fragment v + table);
                   within = ucast (index mod uv_inodes_per_block v) * 256 in
            if fragment > NOT 0 div ucast (uv_fragment_size v) \<or>
               within > NOT 0 - fragment * ucast (uv_fragment_size v) then None
            else Some (fragment * ucast (uv_fragment_size v) + within))"

definition power_of_two :: "u32 \<Rightarrow> bool" where
  "power_of_two v \<longleftrightarrow> v \<noteq> 0 \<and> v AND (v - 1) = 0"

definition ufs2_name_length :: "bytes \<Rightarrow> u32 option" where
  "ufs2_name_length name =
     (if length name > 255 then None else if name = [] then None else Some (of_nat (length name)))"

definition ufs2_probe :: "blockdev \<Rightarrow> 'a bio_state_scheme \<Rightarrow> (ufs2_volume, 'a bio_state_scheme) outcome" where
  "ufs2_probe dev s = c_try (bd_read dev 65536 8192 s) (\<lambda>sb s.
     if le32_at sb 1372 \<noteq> 0x19540119 then c_err s
     else let block_size = le32_at sb 48; fragment_size = le32_at sb 52;
              fragments = le32_at sb 56; inodes_per_block = le32_at sb 120 in
       if \<not> power_of_two block_size \<or> block_size < 4096 \<or> block_size > 65536 \<or>
          \<not> power_of_two fragment_size \<or> fragment_size < 512 \<or> fragment_size > block_size \<or>
          fragments \<noteq> block_size div fragment_size \<or> \<not> power_of_two fragments \<or>
          inodes_per_block = 0 \<or> inodes_per_block \<noteq> block_size div 256 \<or>
          le32_at sb 44 = 0 \<or> le32_at sb 184 = 0 \<or> le32_at sb 188 = 0 \<or>
          le32_at sb 160 < 128 \<or> sint (le32_at sb 8) < 0 \<or> sint (le32_at sb 12) < 0
       then c_err s
       else c_ok \<lparr>uv_device = dev, uv_block_size = block_size, uv_fragment_size = fragment_size,
         uv_fragments_per_block = fragments, uv_cylinder_groups = le32_at sb 44,
         uv_inodes_per_group = le32_at sb 184, uv_fragments_per_group = le32_at sb 188,
         uv_inodes_per_block = inodes_per_block, uv_inode_table_fragment = scast (le32_at sb 8),
         uv_cylinder_group_block = le32_at sb 12, uv_cylinder_group_size = le32_at sb 160\<rparr> s)"

section \<open>Cylinder groups\<close>

definition ufs2_cg_offset :: "ufs2_volume \<Rightarrow> u32 \<Rightarrow> u64 option" where
  "ufs2_cg_offset v grp =
     (if uv_fragment_size v = 0 \<or> grp \<ge> uv_cylinder_groups v then None
      else let fragment = ucast grp * ucast (uv_fragments_per_group v) in
        if fragment > NOT 0 - ucast (uv_cylinder_group_block v) then None
        else let fragment = fragment + ucast (uv_cylinder_group_block v) in
          if fragment > NOT 0 div ucast (uv_fragment_size v) then None
          else Some (fragment * ucast (uv_fragment_size v)))"

definition cg_header :: "ufs2_volume \<Rightarrow> u32 \<Rightarrow> 'a bio_state_scheme \<Rightarrow> (u64 \<times> bytes, 'a bio_state_scheme) outcome" where
  "cg_header v grp s =
     (if grp \<ge> uv_cylinder_groups v then c_err s
      else case ufs2_cg_offset v grp of None \<Rightarrow> c_err s
      | Some cg_offset \<Rightarrow> c_try (bd_read (uv_device v) cg_offset 128 s) (\<lambda>header s.
          if le32_at header 4 \<noteq> 0x00090255 \<or> le32_at header 12 \<noteq> grp then c_err s
          else c_ok (cg_offset, header) s))"

definition ufs2_cg_free_map :: "ufs2_volume \<Rightarrow> u32 \<Rightarrow> 'a bio_state_scheme \<Rightarrow> (u64 \<times> u32, 'a bio_state_scheme) outcome" where
  "ufs2_cg_free_map v grp s = c_try (cg_header v grp s) (\<lambda>(cg_offset, header) s.
     let entries = le32_at header 20; freeoff = le32_at header 96 in
     if entries = 0 \<or> entries > uv_fragments_per_group v \<or> freeoff < 128 \<or>
        freeoff > uv_cylinder_group_size v \<or>
        (entries + 7) div 8 > uv_cylinder_group_size v - freeoff then c_err s
     else if cg_offset > NOT 0 - ucast freeoff then c_err s
     else c_ok (cg_offset + ucast freeoff, entries) s)"

definition ufs2_cg_inode_map :: "ufs2_volume \<Rightarrow> u32 \<Rightarrow> 'a bio_state_scheme \<Rightarrow> (u64, 'a bio_state_scheme) outcome" where
  "ufs2_cg_inode_map v grp s = c_try (cg_header v grp s) (\<lambda>(cg_offset, header) s.
     let iusedoff = le32_at header 92 in
     if iusedoff < 128 \<or> iusedoff > uv_cylinder_group_size v \<or>
        (uv_inodes_per_group v + 7) div 8 > uv_cylinder_group_size v - iusedoff then c_err s
     else if cg_offset > NOT 0 - ucast iusedoff then c_err s
     else c_ok (cg_offset + ucast iusedoff) s)"

definition empty_dinode :: "u16 \<Rightarrow> bytes" where
  "empty_dinode mode = put_bytes (put_bytes (put_bytes (put_bytes (replicate 256 0)
     0 (bytes_of_le16 mode)) 2 (bytes_of_le16 1)) 4 (bytes_of_le32 0)) 8 (bytes_of_le32 0)"

definition ufs2_initialize_inode :: "ufs2_volume \<Rightarrow> u32 \<Rightarrow> u16 \<Rightarrow> 'a bio_state_scheme \<Rightarrow> (unit, 'a bio_state_scheme) outcome" where
  "ufs2_initialize_inode v ino mode s = (case ufs2_inode_offset v ino of None \<Rightarrow> c_err s
     | Some off \<Rightarrow> bd_write (uv_device v) off 256 (empty_dinode mode) s)"

text \<open>The loops over bits and groups run over the list of the values the counter
  takes.  A search loop ends with the value found, with \<^verbatim>\<open>return -1\<close>, or without a
  result.\<close>

datatype 'v scan = Found 'v | Bad | Absent

definition map_byte :: "u64 \<Rightarrow> u32 \<Rightarrow> u64" where
  "map_byte map_offset b = map_offset + ucast (b div 8)"

definition bit_mask :: "u32 \<Rightarrow> u8" where
  "bit_mask b = push_bit (unat (b mod 8)) 1"

definition read_map :: "ufs2_volume \<Rightarrow> u64 \<Rightarrow> u32 \<Rightarrow> 'a bio_state_scheme \<Rightarrow> (u8, 'a bio_state_scheme) outcome" where
  "read_map v m b s = c_try (bd_read (uv_device v) (map_byte m b) 1 s) (\<lambda>bs s. c_ok (bs ! 0) s)"

definition write_map :: "ufs2_volume \<Rightarrow> u64 \<Rightarrow> u32 \<Rightarrow> u8 \<Rightarrow> 'a bio_state_scheme \<Rightarrow> (unit, 'a bio_state_scheme) outcome" where
  "write_map v m b x s = bd_write (uv_device v) (map_byte m b) 1 [x] s"

fun alloc_fragment_bits :: "ufs2_volume \<Rightarrow> u64 \<Rightarrow> u32 list \<Rightarrow> 'a bio_state_scheme \<Rightarrow> (u32 scan, 'a bio_state_scheme) outcome" where
  "alloc_fragment_bits v m [] s = c_ok Absent s"
| "alloc_fragment_bits v m (b # bits) s =
     c_case (read_map v m b s) (\<lambda>s. c_ok Absent s) (\<lambda>x s.
       if x AND bit_mask b = 0 then alloc_fragment_bits v m bits s
       else c_case (write_map v m b (x AND NOT (bit_mask b)) s) (\<lambda>s. c_ok Bad s) (\<lambda>_ s. c_ok (Found b) s))"

fun alloc_fragment_groups :: "ufs2_volume \<Rightarrow> u32 list \<Rightarrow> 'a bio_state_scheme \<Rightarrow> (u64, 'a bio_state_scheme) outcome" where
  "alloc_fragment_groups v [] s = c_err s"
| "alloc_fragment_groups v (g # gs) s =
     c_case (ufs2_cg_free_map v g s) (alloc_fragment_groups v gs) (\<lambda>(m, entries) s.
       c_try (alloc_fragment_bits v m (upto32 entries) s) (\<lambda>r s. case r of
         Found b \<Rightarrow> c_ok (ucast g * ucast (uv_fragments_per_group v) + ucast b) s
       | Bad \<Rightarrow> c_err s
       | Absent \<Rightarrow> alloc_fragment_groups v gs s))"

definition ufs2_alloc_fragment :: "ufs2_volume \<Rightarrow> 'a bio_state_scheme \<Rightarrow> (u64, 'a bio_state_scheme) outcome" where
  "ufs2_alloc_fragment v s = alloc_fragment_groups v (upto32 (uv_cylinder_groups v)) s"

definition ufs2_free_fragment :: "ufs2_volume \<Rightarrow> u64 \<Rightarrow> 'a bio_state_scheme \<Rightarrow> (unit, 'a bio_state_scheme) outcome" where
  "ufs2_free_fragment v fragment s =
     (if uv_fragments_per_group v = 0 \<or>
         fragment div ucast (uv_fragments_per_group v) \<ge> ucast (uv_cylinder_groups v) then c_err s
      else let grp = ucast (fragment div ucast (uv_fragments_per_group v)) :: u32;
               b = ucast (fragment mod ucast (uv_fragments_per_group v)) :: u32 in
        c_try (ufs2_cg_free_map v grp s) (\<lambda>(m, entries) s.
          if b \<ge> entries then c_err s
          else c_try (read_map v m b s) (\<lambda>x s.
            if x AND bit_mask b \<noteq> 0 then c_err s else write_map v m b (x OR bit_mask b) s)))"

definition ufs2_set_fragment :: "ufs2_volume \<Rightarrow> u64 \<Rightarrow> u32 \<Rightarrow> bool \<Rightarrow> 'a bio_state_scheme \<Rightarrow> (unit, 'a bio_state_scheme) outcome" where
  "ufs2_set_fragment v m b allocated s = c_try (read_map v m b s) (\<lambda>x s.
     write_map v m b (if allocated then x AND NOT (bit_mask b) else x OR bit_mask b) s)"

text \<open>\<^verbatim>\<open>ufs2_alloc_block\<close>: the inner loops test a run of fragments, mark it, and on a
  failed write clear again what was marked, last first.\<close>

fun block_is_free :: "ufs2_volume \<Rightarrow> u64 \<Rightarrow> u32 \<Rightarrow> u32 list \<Rightarrow> 'a bio_state_scheme \<Rightarrow> (bool, 'a bio_state_scheme) outcome" where
  "block_is_free v m b [] s = c_ok True s"
| "block_is_free v m b (i # is) s = c_case (read_map v m (b + i) s) (\<lambda>s. c_ok False s) (\<lambda>x s.
     if x AND bit_mask (b + i) = 0 then c_ok False s else block_is_free v m b is s)"

fun unmark_block :: "ufs2_volume \<Rightarrow> u64 \<Rightarrow> u32 \<Rightarrow> u32 list \<Rightarrow> 'a bio_state_scheme \<Rightarrow> (unit, 'a bio_state_scheme) outcome" where
  "unmark_block v m b [] s = c_err s"
| "unmark_block v m b (i # is) s =
     c_case (ufs2_set_fragment v m (b + i) False s) (unmark_block v m b is) (\<lambda>_. unmark_block v m b is)"

fun mark_block :: "ufs2_volume \<Rightarrow> u64 \<Rightarrow> u32 \<Rightarrow> u32 list \<Rightarrow> u32 list \<Rightarrow> 'a bio_state_scheme \<Rightarrow> (unit, 'a bio_state_scheme) outcome" where
  "mark_block v m b marked [] s = c_ok () s"
| "mark_block v m b marked (i # is) s =
     c_case (ufs2_set_fragment v m (b + i) True s) (unmark_block v m b marked) (\<lambda>_. mark_block v m b (i # marked) is)"

definition block_bits :: "ufs2_volume \<Rightarrow> u32 \<Rightarrow> u32 list" where
  "block_bits v entries = map (\<lambda>k. of_nat (k * unat (uv_fragments_per_block v)))
     [0..<unat entries div unat (uv_fragments_per_block v)]"

fun alloc_block_bits :: "ufs2_volume \<Rightarrow> u64 \<Rightarrow> u32 list \<Rightarrow> 'a bio_state_scheme \<Rightarrow> (u32 scan, 'a bio_state_scheme) outcome" where
  "alloc_block_bits v m [] s = c_ok Absent s"
| "alloc_block_bits v m (b # bits) s =
     c_try (block_is_free v m b (upto32 (uv_fragments_per_block v)) s) (\<lambda>free s.
       if \<not> free then alloc_block_bits v m bits s
       else c_case (mark_block v m b [] (upto32 (uv_fragments_per_block v)) s)
              (\<lambda>s. c_ok Bad s) (\<lambda>_ s. c_ok (Found b) s))"

fun alloc_block_groups :: "ufs2_volume \<Rightarrow> u32 list \<Rightarrow> 'a bio_state_scheme \<Rightarrow> (u64, 'a bio_state_scheme) outcome" where
  "alloc_block_groups v [] s = c_err s"
| "alloc_block_groups v (g # gs) s =
     c_case (ufs2_cg_free_map v g s) (alloc_block_groups v gs) (\<lambda>(m, entries) s.
       c_try (alloc_block_bits v m (block_bits v entries) s) (\<lambda>r s. case r of
         Found b \<Rightarrow> c_ok (ucast g * ucast (uv_fragments_per_group v) + ucast b) s
       | Bad \<Rightarrow> c_err s
       | Absent \<Rightarrow> alloc_block_groups v gs s))"

definition ufs2_alloc_block :: "ufs2_volume \<Rightarrow> 'a bio_state_scheme \<Rightarrow> (u64, 'a bio_state_scheme) outcome" where
  "ufs2_alloc_block v s =
     (if uv_fragments_per_block v = 0 then c_err s
      else alloc_block_groups v (upto32 (uv_cylinder_groups v)) s)"

fun free_block_bits :: "ufs2_volume \<Rightarrow> u64 \<Rightarrow> u32 \<Rightarrow> u32 list \<Rightarrow> 'a bio_state_scheme \<Rightarrow> (unit, 'a bio_state_scheme) outcome" where
  "free_block_bits v m b [] s = c_ok () s"
| "free_block_bits v m b (i # is) s =
     c_try (ufs2_set_fragment v m (b + i) False s) (\<lambda>_. free_block_bits v m b is)"

definition ufs2_free_block :: "ufs2_volume \<Rightarrow> u64 \<Rightarrow> 'a bio_state_scheme \<Rightarrow> (unit, 'a bio_state_scheme) outcome" where
  "ufs2_free_block v fragment s =
     (if uv_fragments_per_group v = 0 \<or> uv_fragments_per_block v = 0 \<or>
         fragment mod ucast (uv_fragments_per_block v) \<noteq> 0 then c_err s
      else let grp = ucast (fragment div ucast (uv_fragments_per_group v)) :: u32;
               b = ucast (fragment mod ucast (uv_fragments_per_group v)) :: u32 in
        if grp \<ge> uv_cylinder_groups v then c_err s
        else c_try (ufs2_cg_free_map v grp s) (\<lambda>(m, entries) s.
          if b + uv_fragments_per_block v > entries then c_err s
          else free_block_bits v m b (upto32 (uv_fragments_per_block v)) s))"

definition sectors_below :: "u32 \<Rightarrow> u64 list" where
  "sectors_below n = map (\<lambda>k. of_nat (512 * k)) [0..<(unat n + 511) div 512]"

fun write_sectors :: "ufs2_volume \<Rightarrow> u64 \<Rightarrow> (u64 \<Rightarrow> bytes) \<Rightarrow> u64 list \<Rightarrow> 'a bio_state_scheme \<Rightarrow> (unit, 'a bio_state_scheme) outcome" where
  "write_sectors v base f [] s = c_ok () s"
| "write_sectors v base f (off # offs) s =
     c_try (bd_write (uv_device v) (base + off) 512 (f off) s) (\<lambda>_. write_sectors v base f offs)"

definition ufs2_zero_block :: "ufs2_volume \<Rightarrow> u64 \<Rightarrow> 'a bio_state_scheme \<Rightarrow> (unit, 'a bio_state_scheme) outcome" where
  "ufs2_zero_block v fragment s =
     (if fragment > NOT 0 div ucast (uv_fragment_size v) then c_err s
      else write_sectors v (fragment * ucast (uv_fragment_size v)) (\<lambda>_. replicate 512 0)
             (sectors_below (uv_block_size v)) s)"

section \<open>Inodes\<close>

fun alloc_inode_bits :: "ufs2_volume \<Rightarrow> u16 \<Rightarrow> u32 \<Rightarrow> u64 \<Rightarrow> u32 list \<Rightarrow> 'a bio_state_scheme \<Rightarrow> (u32 scan, 'a bio_state_scheme) outcome" where
  "alloc_inode_bits v mode g m [] s = c_ok Absent s"
| "alloc_inode_bits v mode g m (b # bits) s =
     (let number = g * uv_inodes_per_group v + b in
      if number < UFS2_ROOT_INO then alloc_inode_bits v mode g m bits s
      else c_case (read_map v m b s) (\<lambda>s. c_ok Bad s) (\<lambda>x s.
        if x AND bit_mask b \<noteq> 0 then alloc_inode_bits v mode g m bits s
        else c_case (write_map v m b (x OR bit_mask b) s) (\<lambda>s. c_ok Bad s) (\<lambda>_ s.
          c_case (ufs2_initialize_inode v number mode s)
            (\<lambda>s. c_case (write_map v m b ((x OR bit_mask b) AND NOT (bit_mask b)) s)
                   (\<lambda>s. c_ok Bad s) (\<lambda>_ s. c_ok Bad s))
            (\<lambda>_ s. c_ok (Found number) s))))"

fun alloc_inode_groups :: "ufs2_volume \<Rightarrow> u16 \<Rightarrow> u32 list \<Rightarrow> 'a bio_state_scheme \<Rightarrow> (u32, 'a bio_state_scheme) outcome" where
  "alloc_inode_groups v mode [] s = c_err s"
| "alloc_inode_groups v mode (g # gs) s =
     c_case (ufs2_cg_inode_map v g s) (alloc_inode_groups v mode gs) (\<lambda>m s.
       c_try (alloc_inode_bits v mode g m (upto32 (uv_inodes_per_group v)) s) (\<lambda>r s. case r of
         Found number \<Rightarrow> c_ok number s
       | Bad \<Rightarrow> c_err s
       | Absent \<Rightarrow> alloc_inode_groups v mode gs s))"

definition ufs2_alloc_inode :: "ufs2_volume \<Rightarrow> u16 \<Rightarrow> 'a bio_state_scheme \<Rightarrow> (u32, 'a bio_state_scheme) outcome" where
  "ufs2_alloc_inode v mode s =
     (if mode AND UFS2_IFMT \<noteq> UFS2_IFREG \<and> mode AND UFS2_IFMT \<noteq> UFS2_IFDIR then c_err s
      else alloc_inode_groups v mode (upto32 (uv_cylinder_groups v)) s)"

definition ufs2_free_inode :: "ufs2_volume \<Rightarrow> u32 \<Rightarrow> 'a bio_state_scheme \<Rightarrow> (unit, 'a bio_state_scheme) outcome" where
  "ufs2_free_inode v ino s =
     (if ino < UFS2_ROOT_INO \<or> uv_inodes_per_group v = 0 then c_err s
      else let grp = ino div uv_inodes_per_group v; b = ino mod uv_inodes_per_group v in
        case ufs2_inode_offset v ino of None \<Rightarrow> c_err s
        | Some inode_offset \<Rightarrow> c_try (ufs2_cg_inode_map v grp s) (\<lambda>m s.
            c_try (read_map v m b s) (\<lambda>x s.
              if x AND bit_mask b = 0 then c_err s
              else c_try (bd_write (uv_device v) inode_offset 256 (replicate 256 0) s) (\<lambda>_ s.
                write_map v m b (x AND NOT (bit_mask b)) s))))"

definition decode_dinode :: "bytes \<Rightarrow> ufs2_inode" where
  "decode_dinode raw = \<lparr>ui_mode = le16_at raw 0, ui_nlink = le16_at raw 2, ui_uid = le32_at raw 4,
     ui_gid = le32_at raw 8, ui_size = le64_at raw 16,
     ui_direct = map (\<lambda>i. le64_at raw (112 + i * 8)) [0..<12],
     ui_indirect = map (\<lambda>i. le64_at raw (208 + i * 8)) [0..<3]\<rparr>"

fun put_le64s :: "bytes \<Rightarrow> nat \<Rightarrow> u64 list \<Rightarrow> bytes" where
  "put_le64s raw off [] = raw"
| "put_le64s raw off (x # xs) = put_le64s (put_bytes raw off (bytes_of_le64 x)) (off + 8) xs"

definition encode_dinode :: "ufs2_inode \<Rightarrow> bytes \<Rightarrow> bytes" where
  "encode_dinode ino raw =
     (let raw = put_bytes raw 0 (bytes_of_le16 (ui_mode ino));
          raw = put_bytes raw 2 (bytes_of_le16 (ui_nlink ino));
          raw = put_bytes raw 4 (bytes_of_le32 (ui_uid ino));
          raw = put_bytes raw 8 (bytes_of_le32 (ui_gid ino));
          raw = put_bytes raw 16 (bytes_of_le64 (ui_size ino));
          raw = put_le64s raw 112 (ui_direct ino)
      in put_le64s raw 208 (ui_indirect ino))"

definition ufs2_read_inode :: "ufs2_volume \<Rightarrow> u32 \<Rightarrow> 'a bio_state_scheme \<Rightarrow> (ufs2_inode, 'a bio_state_scheme) outcome" where
  "ufs2_read_inode v ino s = (case ufs2_inode_offset v ino of None \<Rightarrow> c_err s
     | Some off \<Rightarrow> c_try (bd_read (uv_device v) off 256 s) (\<lambda>raw s. c_ok (decode_dinode raw) s))"

definition ufs2_write_inode :: "ufs2_volume \<Rightarrow> u32 \<Rightarrow> ufs2_inode \<Rightarrow> 'a bio_state_scheme \<Rightarrow> (unit, 'a bio_state_scheme) outcome" where
  "ufs2_write_inode v ino inode s = (case ufs2_inode_offset v ino of None \<Rightarrow> c_err s
     | Some off \<Rightarrow> c_try (bd_read (uv_device v) off 256 s) (\<lambda>raw s.
         bd_write (uv_device v) off 256 (encode_dinode inode raw) s))"

section \<open>File contents\<close>

definition ufs2_read_direct :: "ufs2_volume \<Rightarrow> ufs2_inode \<Rightarrow> u32 \<Rightarrow> u32 \<Rightarrow> 'a bio_state_scheme \<Rightarrow> (bytes, 'a bio_state_scheme) outcome" where
  "ufs2_read_direct v inode lb len s =
     (if lb \<ge> 12 \<or> len > uv_block_size v \<or> ui_direct inode ! unat lb = 0 \<or>
         ui_direct inode ! unat lb > NOT 0 div ucast (uv_fragment_size v) then c_err s
      else bd_read (uv_device v) (ui_direct inode ! unat lb * ucast (uv_fragment_size v)) len s)"

definition ufs2_block_address :: "ufs2_volume \<Rightarrow> ufs2_inode \<Rightarrow> u32 \<Rightarrow> 'a bio_state_scheme \<Rightarrow> (u64, 'a bio_state_scheme) outcome" where
  "ufs2_block_address v inode lb s =
     (if lb < 12 then
        (if ui_direct inode ! unat lb = 0 then c_err s else c_ok (ui_direct inode ! unat lb) s)
      else let lb = lb - 12 in
        if lb \<ge> uv_block_size v div 8 \<or> ui_indirect inode ! 0 = 0 \<or>
           ui_indirect inode ! 0 > NOT 0 div ucast (uv_fragment_size v) then c_err s
        else c_try (bd_read (uv_device v) (ui_indirect inode ! 0 * ucast (uv_fragment_size v) + ucast lb * 8) 8 s)
          (\<lambda>bs s. if le64_of bs = 0 then c_err s else c_ok (le64_of bs) s))"

text \<open>One turn of the transfer loops: the disk offset of the part of the file at
  \<open>off\<close>, and how much of it lies in that block.\<close>

definition in_block :: "ufs2_volume \<Rightarrow> u64 \<Rightarrow> nat" where
  "in_block v off = unat off mod unat (uv_block_size v)"

definition block_part :: "ufs2_volume \<Rightarrow> u64 \<Rightarrow> nat \<Rightarrow> nat" where
  "block_part v off len = min (unat (uv_block_size v) - in_block v off) len"

definition file_address :: "ufs2_volume \<Rightarrow> ufs2_inode \<Rightarrow> u64 \<Rightarrow> 'a bio_state_scheme \<Rightarrow> (u64, 'a bio_state_scheme) outcome" where
  "file_address v inode off s =
     c_try (ufs2_block_address v inode (ucast (off div ucast (uv_block_size v))) s) (\<lambda>address s.
       if address > NOT 0 div ucast (uv_fragment_size v) then c_err s
       else c_ok (address * ucast (uv_fragment_size v) + of_nat (in_block v off)) s)"

lemma block_part_pos: "uv_block_size v \<noteq> 0 \<Longrightarrow> 0 < len \<Longrightarrow> 0 < block_part v off len"
  by (simp add: block_part_def in_block_def unat_gt_0)

lemma block_part_le: "block_part v off len \<le> len"
  by (simp add: block_part_def)

lemma block_part_less: "uv_block_size v \<noteq> 0 \<Longrightarrow> len \<noteq> 0 \<Longrightarrow> len - block_part v off len < len"
  using block_part_pos [of v len off] by simp

function ufs2_read_loop :: "ufs2_volume \<Rightarrow> ufs2_inode \<Rightarrow> u64 \<Rightarrow> nat \<Rightarrow> 'a bio_state_scheme \<Rightarrow> (bytes, 'a bio_state_scheme) outcome" where
  "ufs2_read_loop v inode off len s =
     (if len = 0 then c_ok [] s
      else if uv_block_size v = 0 then None
      else let n = block_part v off len in
        c_try (file_address v inode off s) (\<lambda>d s.
        c_try (bd_read (uv_device v) d (of_nat n) s) (\<lambda>bs s.
        c_try (ufs2_read_loop v inode (off + of_nat n) (len - n) s) (\<lambda>rest s. c_ok (bs @ rest) s))))"
  by pat_completeness auto
termination
  by (relation "measure (\<lambda>(v, inode, off, len, s). len)") (simp_all add: block_part_less)

function ufs2_write_range :: "ufs2_volume \<Rightarrow> ufs2_inode \<Rightarrow> u64 \<Rightarrow> bytes \<Rightarrow> 'a bio_state_scheme \<Rightarrow> (unit, 'a bio_state_scheme) outcome" where
  "ufs2_write_range v inode off src s =
     (if src = [] then c_ok () s
      else if uv_block_size v = 0 then None
      else let n = block_part v off (length src) in
        c_try (file_address v inode off s) (\<lambda>d s.
        c_try (bd_write (uv_device v) d (of_nat n) (take n src) s) (\<lambda>_ s.
          ufs2_write_range v inode (off + of_nat n) (drop n src) s)))"
  by pat_completeness auto
termination
  by (relation "measure (\<lambda>(v, inode, off, src, s). length src)") (simp_all add: block_part_less)

declare ufs2_read_loop.simps [simp del] ufs2_write_range.simps [simp del]

definition ufs2_read :: "ufs2_volume \<Rightarrow> ufs2_inode \<Rightarrow> u64 \<Rightarrow> u32 \<Rightarrow> 'a bio_state_scheme \<Rightarrow> (bytes, 'a bio_state_scheme) outcome" where
  "ufs2_read v inode off len s =
     (if off > ui_size inode \<or> ucast len > ui_size inode - off then c_err s
      else ufs2_read_loop v inode off (unat len) s)"

definition ufs2_write_existing :: "ufs2_volume \<Rightarrow> ufs2_inode \<Rightarrow> u64 \<Rightarrow> bytes \<Rightarrow> 'a bio_state_scheme \<Rightarrow> (unit, 'a bio_state_scheme) outcome" where
  "ufs2_write_existing v inode off src s =
     (if off > ui_size inode \<or> of_nat (length src) > ui_size inode - off then c_err s
      else ufs2_write_range v inode off src s)"

text \<open>The caller's inode is changed step by step, also where the call then fails: the
  value is the inode with whether the call returns 0.\<close>

fun grow_blocks :: "ufs2_volume \<Rightarrow> u32 \<Rightarrow> ufs2_inode \<Rightarrow> nat list \<Rightarrow> 'a bio_state_scheme \<Rightarrow> (bool \<times> ufs2_inode, 'a bio_state_scheme) outcome" where
  "grow_blocks v ino inode [] s = c_ok (True, inode) s"
| "grow_blocks v ino inode (b # bs) s =
     (if ui_direct inode ! b \<noteq> 0 then grow_blocks v ino inode bs s
      else c_case (ufs2_alloc_block v s) (\<lambda>s. c_ok (False, inode) s) (\<lambda>fragment s.
        c_case (ufs2_zero_block v fragment s)
          (\<lambda>s. if fragment \<noteq> 0
                then c_case (ufs2_free_block v fragment s) (c_ok (False, inode)) (\<lambda>_. c_ok (False, inode))
                else c_ok (False, inode) s)
          (\<lambda>_ s. let inode = inode\<lparr>ui_direct := (ui_direct inode)[b := fragment]\<rparr> in
             c_case (ufs2_write_inode v ino inode s) (c_ok (False, inode)) (\<lambda>_. grow_blocks v ino inode bs))))"

function zero_fill :: "ufs2_volume \<Rightarrow> ufs2_inode \<Rightarrow> nat \<Rightarrow> nat \<Rightarrow> 'a bio_state_scheme \<Rightarrow> (unit, 'a bio_state_scheme) outcome" where
  "zero_fill v inode start till s =
     (if start < till then
        let n = min 512 (till - start) in
        c_try (ufs2_write_range v inode (of_nat start) (replicate n 0) s) (\<lambda>_. zero_fill v inode (start + n) till)
      else c_ok () s)"
  by pat_completeness auto
termination
  by (relation "measure (\<lambda>(v, inode, start, till, s). till - start)") auto

declare zero_fill.simps [simp del]

definition ufs2_write_growing :: "ufs2_volume \<Rightarrow> u32 \<Rightarrow> ufs2_inode \<Rightarrow> u64 \<Rightarrow> bytes \<Rightarrow> 'a bio_state_scheme \<Rightarrow> (bool \<times> ufs2_inode, 'a bio_state_scheme) outcome" where
  "ufs2_write_growing v ino inode off src s =
     (let len = of_nat (length src) :: u64 in
      if ui_mode inode AND UFS2_IFMT \<noteq> UFS2_IFREG \<or> off > NOT 0 - len then c_ok (False, inode) s
      else let end = off + len in
        if end > 12 * ucast (uv_block_size v) then c_ok (False, inode) s
        else if uv_block_size v = 0 then None
        else c_try (grow_blocks v ino inode
            [0..<unat ((end + ucast (uv_block_size v) - 1) div ucast (uv_block_size v))] s) (\<lambda>(grown, inode) s.
          if \<not> grown then c_ok (False, inode) s
          else let put = (\<lambda>inode s. c_case (ufs2_write_range v inode off src s) (c_ok (False, inode)) (\<lambda>_. c_ok (True, inode))) in
          if end \<le> ui_size inode then put inode s
          else let old_size = ui_size inode; inode = inode\<lparr>ui_size := end\<rparr> in
            c_case (ufs2_write_inode v ino inode s) (c_ok (False, inode)) (\<lambda>_ s.
            c_case (zero_fill v inode (unat old_size) (unat off) s) (c_ok (False, inode)) (\<lambda>_ s. put inode s))))"

fun truncate_blocks :: "ufs2_volume \<Rightarrow> u32 \<Rightarrow> ufs2_inode \<Rightarrow> nat list \<Rightarrow> 'a bio_state_scheme \<Rightarrow> (ufs2_inode, 'a bio_state_scheme) outcome" where
  "truncate_blocks v ino inode [] s = c_ok inode s"
| "truncate_blocks v ino inode (b # bs) s =
     (let fragment = ui_direct inode ! b in
      if fragment = 0 then truncate_blocks v ino inode bs s
      else let inode = inode\<lparr>ui_direct := (ui_direct inode)[b := 0]\<rparr> in
        c_try (ufs2_write_inode v ino inode s) (\<lambda>_ s.
        c_try (ufs2_free_block v fragment s) (\<lambda>_. truncate_blocks v ino inode bs)))"

definition ufs2_truncate :: "ufs2_volume \<Rightarrow> u32 \<Rightarrow> ufs2_inode \<Rightarrow> 'a bio_state_scheme \<Rightarrow> (ufs2_inode, 'a bio_state_scheme) outcome" where
  "ufs2_truncate v ino inode s =
     (if ui_mode inode AND UFS2_IFMT \<noteq> UFS2_IFREG \<and> ui_mode inode AND UFS2_IFMT \<noteq> UFS2_IFDIR then c_err s
      else let inode = inode\<lparr>ui_size := 0\<rparr> in
        c_try (ufs2_write_inode v ino inode s) (\<lambda>_. truncate_blocks v ino inode [0..<12]))"

section \<open>Directories\<close>

text \<open>A directory is a sequence of 512-byte regions; each is a chain of records: inode
  number (4 bytes), record length (2), type (1), name length (1), name.\<close>

definition ufs2_dir_record_size :: "u32 \<Rightarrow> u32" where
  "ufs2_dir_record_size n = (8 + n + 3) AND NOT 3"

definition rec_size :: "nat \<Rightarrow> nat" where
  "rec_size n = unat (ufs2_dir_record_size (of_nat n))"

definition rec_ino :: "bytes \<Rightarrow> nat \<Rightarrow> u32" where
  "rec_ino b off = le32_at b off"

definition rec_len :: "bytes \<Rightarrow> nat \<Rightarrow> nat" where
  "rec_len b off = unat (le16_at b (off + 4))"

definition rec_namlen :: "bytes \<Rightarrow> nat \<Rightarrow> nat" where
  "rec_namlen b off = unat (b ! (off + 7))"

definition rec_bad :: "bytes \<Rightarrow> nat \<Rightarrow> nat \<Rightarrow> bool" where
  "rec_bad b n off \<longleftrightarrow> rec_len b off < 8 \<or> rec_len b off mod 4 \<noteq> 0 \<or> rec_len b off > n - off \<or>
     rec_namlen b off > 255 \<or> rec_namlen b off + 8 > rec_len b off"

definition rec_matches :: "bytes \<Rightarrow> bytes \<Rightarrow> nat \<Rightarrow> bool" where
  "rec_matches b name off \<longleftrightarrow> rec_ino b off \<noteq> 0 \<and> rec_namlen b off = length name \<and>
     get_bytes b (off + 8) (length name) = name"

lemma rec_bad_progress: "off + 8 \<le> n \<Longrightarrow> \<not> rec_bad b n off \<Longrightarrow> n - (off + rec_len b off) < n - off"
  unfolding rec_bad_def by linarith

function dir_find :: "bytes \<Rightarrow> nat \<Rightarrow> bytes \<Rightarrow> nat \<Rightarrow> nat scan" where
  "dir_find b n name off =
     (if off + 8 \<le> n then
        if rec_bad b n off then Bad
        else if rec_matches b name off then Found off
        else dir_find b n name (off + rec_len b off)
      else Absent)"
  by pat_completeness auto
termination
  by (relation "measure (\<lambda>(b, n, name, off). n - off)") (auto dest: rec_bad_progress)

definition slot_fits :: "bytes \<Rightarrow> nat \<Rightarrow> nat \<Rightarrow> bool" where
  "slot_fits b needed off \<longleftrightarrow>
     (if rec_ino b off = 0 then needed \<le> rec_len b off
      else rec_size (rec_namlen b off) \<le> rec_len b off \<and>
           needed \<le> rec_len b off - rec_size (rec_namlen b off))"

function dir_slot :: "bytes \<Rightarrow> nat \<Rightarrow> nat \<Rightarrow> nat \<Rightarrow> nat scan" where
  "dir_slot b n needed off =
     (if off + 8 \<le> n then
        if rec_bad b n off then Bad
        else if slot_fits b needed off then Found off
        else dir_slot b n needed (off + rec_len b off)
      else Absent)"
  by pat_completeness auto
termination
  by (relation "measure (\<lambda>(b, n, needed, off). n - off)") (auto dest: rec_bad_progress)

function dir_nth :: "bytes \<Rightarrow> nat \<Rightarrow> nat \<Rightarrow> nat \<Rightarrow> nat scan \<times> nat" where
  "dir_nth b n k off =
     (if off + 8 \<le> n then
        if rec_bad b n off then (Bad, k)
        else if rec_ino b off = 0 then dir_nth b n k (off + rec_len b off)
        else if k \<noteq> 0 then dir_nth b n (k - 1) (off + rec_len b off)
        else (Found off, k)
      else (Absent, k))"
  by pat_completeness auto
termination
  by (relation "measure (\<lambda>(b, n, k, off). n - off)") (auto dest: rec_bad_progress)

declare dir_find.simps [simp del] dir_slot.simps [simp del] dir_nth.simps [simp del]

text \<open>The record written into a slot: the old record is cut to its own size, what the
  new one leaves becomes a free record.\<close>

definition dir_put :: "bytes \<Rightarrow> nat \<Rightarrow> nat \<Rightarrow> nat \<Rightarrow> bytes \<Rightarrow> u32 \<Rightarrow> u8 \<Rightarrow> bytes option" where
  "dir_put block at available needed name ino type = do {
     block \<leftarrow> (if available > needed then do {
         b \<leftarrow> store_bytes block (at + needed) (replicate (available - needed) 0);
         store_bytes b (at + needed + 4) (bytes_of_le16 (of_nat (available - needed)))
       } else Some block);
     let new_length = (if available > needed then needed else available);
     block \<leftarrow> store_bytes block at (replicate needed 0);
     block \<leftarrow> store_bytes block at (bytes_of_le32 ino);
     block \<leftarrow> store_bytes block (at + 4) (bytes_of_le16 (of_nat new_length));
     block \<leftarrow> store_bytes block (at + 6) [type];
     block \<leftarrow> store_bytes block (at + 7) [of_nat (length name)];
     store_bytes block (at + 8) name
   }"

definition dir_insert :: "bytes \<Rightarrow> nat \<Rightarrow> bytes \<Rightarrow> u32 \<Rightarrow> u8 \<Rightarrow> bytes option" where
  "dir_insert block e name ino type =
     (let len = rec_len block e; old_size = rec_size (rec_namlen block e); needed = rec_size (length name) in
      if rec_ino block e = 0 then dir_put block e len needed name ino type
      else do {
        block \<leftarrow> store_bytes block (e + 4) (bytes_of_le16 (of_nat old_size));
        dir_put block (e + old_size) (len - old_size) needed name ino type
      })"

definition dir_regions :: "u64 \<Rightarrow> nat list" where
  "dir_regions sz = map (\<lambda>k. 512 * k) [0..<(unat sz + 511) div 512]"

definition dir_part :: "ufs2_inode \<Rightarrow> nat \<Rightarrow> nat" where
  "dir_part dir off = min 512 (unat (ui_size dir) - off)"

fun find_regions :: "ufs2_volume \<Rightarrow> ufs2_inode \<Rightarrow> bytes \<Rightarrow> nat list \<Rightarrow> 'a bio_state_scheme \<Rightarrow> (nat \<times> bytes \<times> nat, 'a bio_state_scheme) outcome" where
  "find_regions v dir name [] s = c_err s"
| "find_regions v dir name (r # rs) s =
     c_try (ufs2_read v dir (of_nat r) (of_nat (dir_part dir r)) s) (\<lambda>b s.
       case dir_find b (dir_part dir r) name 0 of
         Bad \<Rightarrow> c_err s
       | Found e \<Rightarrow> c_ok (r, b, e) s
       | Absent \<Rightarrow> find_regions v dir name rs s)"

definition read_directory :: "ufs2_volume \<Rightarrow> u32 \<Rightarrow> 'a bio_state_scheme \<Rightarrow> (ufs2_inode, 'a bio_state_scheme) outcome" where
  "read_directory v d s = c_try (ufs2_read_inode v d s) (\<lambda>dir s.
     if ui_mode dir AND UFS2_IFMT \<noteq> UFS2_IFDIR then c_err s else c_ok dir s)"

definition ufs2_lookup :: "ufs2_volume \<Rightarrow> u32 \<Rightarrow> bytes \<Rightarrow> 'a bio_state_scheme \<Rightarrow> (u32, 'a bio_state_scheme) outcome" where
  "ufs2_lookup v d name s = (case ufs2_name_length name of None \<Rightarrow> c_err s
     | Some _ \<Rightarrow> c_try (read_directory v d s) (\<lambda>dir s.
         c_try (find_regions v dir name (dir_regions (ui_size dir)) s) (\<lambda>(r, b, e) s. c_ok (rec_ino b e) s)))"

definition ufs2_dirunlink :: "ufs2_volume \<Rightarrow> u32 \<Rightarrow> bytes \<Rightarrow> 'a bio_state_scheme \<Rightarrow> (u32, 'a bio_state_scheme) outcome" where
  "ufs2_dirunlink v d name s = (case ufs2_name_length name of None \<Rightarrow> c_err s
     | Some _ \<Rightarrow> c_try (read_directory v d s) (\<lambda>dir s.
         c_try (find_regions v dir name (dir_regions (ui_size dir)) s) (\<lambda>(r, b, e) s.
         c_try (ufs2_write_existing v dir (of_nat r) (put_bytes b e (bytes_of_le32 0)) s) (\<lambda>_ s.
           c_ok (rec_ino b e) s))))"

fun readdir_regions :: "ufs2_volume \<Rightarrow> ufs2_inode \<Rightarrow> nat \<Rightarrow> nat list \<Rightarrow> 'a bio_state_scheme \<Rightarrow> (bytes \<times> nat, 'a bio_state_scheme) outcome" where
  "readdir_regions v dir k [] s = c_err s"
| "readdir_regions v dir k (r # rs) s =
     c_try (ufs2_read v dir (of_nat r) (of_nat (dir_part dir r)) s) (\<lambda>b s.
       case dir_nth b (dir_part dir r) k 0 of
         (Bad, _) \<Rightarrow> c_err s
       | (Found e, _) \<Rightarrow> c_ok (b, e) s
       | (Absent, k) \<Rightarrow> readdir_regions v dir k rs s)"

definition ufs2_readdir :: "ufs2_volume \<Rightarrow> u32 \<Rightarrow> u32 \<Rightarrow> u32 \<Rightarrow> 'a bio_state_scheme \<Rightarrow> (u32 \<times> bytes, 'a bio_state_scheme) outcome" where
  "ufs2_readdir v d index name_size s =
     (if name_size = 0 then c_err s
      else c_try (read_directory v d s) (\<lambda>dir s.
        c_try (readdir_regions v dir (unat index) (dir_regions (ui_size dir)) s) (\<lambda>(b, e) s.
          c_ok (rec_ino b e, get_bytes b (e + 8) (min (rec_namlen b e) (unat name_size - 1))) s)))"

definition dot_region :: "u32 \<Rightarrow> u32 \<Rightarrow> bytes" where
  "dot_region ino parent =
     (let b = replicate 512 0; r = rec_size 1;
          b = put_bytes b 0 (bytes_of_le32 ino);
          b = put_bytes b 4 (bytes_of_le16 (of_nat r));
          b = put_bytes b 6 [4, 1, 46];
          b = put_bytes b r (bytes_of_le32 parent);
          b = put_bytes b (r + 4) (bytes_of_le16 (512 - of_nat r))
      in put_bytes b (r + 6) [4, 2, 46, 46])"

definition free_region :: bytes where
  "free_region = put_bytes (replicate 512 0) 4 (bytes_of_le16 512)"

definition ufs2_make_directory :: "ufs2_volume \<Rightarrow> u32 \<Rightarrow> u32 \<Rightarrow> 'a bio_state_scheme \<Rightarrow> (unit, 'a bio_state_scheme) outcome" where
  "ufs2_make_directory v ino parent s =
     c_try (read_directory v ino s) (\<lambda>inode s.
     c_try (ufs2_alloc_block v s) (\<lambda>fragment s.
     c_try (ufs2_zero_block v fragment s) (\<lambda>_ s.
     let inode = inode\<lparr>ui_direct := (ui_direct inode)[0 := fragment],
                       ui_size := ucast (uv_block_size v), ui_nlink := 2\<rparr> in
     c_try (ufs2_write_inode v ino inode s) (\<lambda>_ s.
       write_sectors v (fragment * ucast (uv_fragment_size v))
         (\<lambda>off. if off = 0 then dot_region ino parent else free_region) (sectors_below (uv_block_size v)) s))))"

fun dirlink_regions :: "ufs2_volume \<Rightarrow> ufs2_inode \<Rightarrow> bytes \<Rightarrow> u32 \<Rightarrow> u8 \<Rightarrow> nat list \<Rightarrow> 'a bio_state_scheme \<Rightarrow> (bool, 'a bio_state_scheme) outcome" where
  "dirlink_regions v dir name ino type [] s = c_ok False s"
| "dirlink_regions v dir name ino type (r # rs) s =
     (let n = dir_part dir r in
      c_try (ufs2_read v dir (of_nat r) (of_nat n) s) (\<lambda>b s.
        case dir_slot b n (rec_size (length name)) 0 of
          Bad \<Rightarrow> c_err s
        | Absent \<Rightarrow> dirlink_regions v dir name ino type rs s
        | Found e \<Rightarrow> (case dir_insert (b @ replicate (512 - n) 0) e name ino type of
            None \<Rightarrow> None
          | Some b \<Rightarrow> c_try (ufs2_write_existing v dir (of_nat r) (take n b) s) (\<lambda>_ s. c_ok True s))))"

text \<open>The growth of a full directory by one block, before the retry.\<close>

definition dirlink_grow :: "ufs2_volume \<Rightarrow> u32 \<Rightarrow> ufs2_inode \<Rightarrow> 'a bio_state_scheme \<Rightarrow> (unit, 'a bio_state_scheme) outcome" where
  "dirlink_grow v d dir s =
     (if ui_size dir mod ucast (uv_block_size v) \<noteq> 0 \<or> ui_size dir div ucast (uv_block_size v) \<ge> 12 then c_err s
      else let lb = unat (ui_size dir div ucast (uv_block_size v)) in
        c_try (ufs2_alloc_block v s) (\<lambda>fragment s.
        c_try (ufs2_zero_block v fragment s) (\<lambda>_ s.
        c_try (write_sectors v (fragment * ucast (uv_fragment_size v)) (\<lambda>_. free_region)
                 (sectors_below (uv_block_size v)) s) (\<lambda>_ s.
          ufs2_write_inode v d (dir\<lparr>ui_direct := (ui_direct dir)[lb := fragment],
            ui_size := ui_size dir + ucast (uv_block_size v)\<rparr>) s))))"

text \<open>One call of \<^verbatim>\<open>ufs2_dirlink\<close> up to its recursive call: the value tells whether the
  entry was written; after a growth the C function calls itself.\<close>

definition dirlink_once :: "ufs2_volume \<Rightarrow> u32 \<Rightarrow> bytes \<Rightarrow> u32 \<Rightarrow> u8 \<Rightarrow> 'a bio_state_scheme \<Rightarrow> (bool, 'a bio_state_scheme) outcome" where
  "dirlink_once v d name ino type s =
     (if ino < UFS2_ROOT_INO \<or> ufs2_name_length name = None then c_err s
      else c_try (read_directory v d s) (\<lambda>dir s.
        if type \<noteq> 8 \<and> type \<noteq> 4 then c_err s
        else c_case (ufs2_lookup v d name s)
          (\<lambda>s. c_try (dirlink_regions v dir name ino type (dir_regions (ui_size dir)) s) (\<lambda>linked s.
             if linked then c_ok True s
             else c_try (dirlink_grow v d dir s) (\<lambda>_ s. c_ok False s)))
          (\<lambda>_ s. c_err s)))"

lemma c_try_mono [partial_function_mono]:
  assumes "\<And>v s. mono_option (\<lambda>f. G f v s)"
  shows "mono_option (\<lambda>f. c_try m (G f))"
proof -
  have "mono_option (\<lambda>f. case m of None \<Rightarrow> None | Some p \<Rightarrow> (case fst p of None \<Rightarrow> c_err (snd p) | Some v \<Rightarrow> G f v (snd p)))"
    by (cases m; cases "fst (the m)") (simp_all add: assms option.const_mono)
  also have "(\<lambda>f. case m of None \<Rightarrow> None | Some p \<Rightarrow> (case fst p of None \<Rightarrow> c_err (snd p) | Some v \<Rightarrow> G f v (snd p)))
      = (\<lambda>f. c_try m (G f))"
    by (rule ext) (simp add: c_try_def split: option.splits prod.splits)
  finally show ?thesis .
qed

partial_function (option) ufs2_dirlink :: "ufs2_volume \<Rightarrow> u32 \<Rightarrow> bytes \<Rightarrow> u32 \<Rightarrow> u8 \<Rightarrow> 'a bio_state_scheme \<Rightarrow> (unit, 'a bio_state_scheme) outcome" where
  "ufs2_dirlink v d name ino type s =
     c_try (dirlink_once v d name ino type s) (\<lambda>linked s.
       if linked then c_ok () s else ufs2_dirlink v d name ino type s)"

end
