(* ===== verification/Ufs2_Facts.thy ===== *)
theory Ufs2_Facts
  imports Ufs2
begin

text \<open>
  Facts on the UFS2 volumes: the place of an inode, the inode codec and its round trip
  through the volume, and the records of a directory region.
\<close>

section \<open>The place of an inode\<close>

definition inode_place :: "ufs2_volume \<Rightarrow> u32 \<Rightarrow> nat" where
  "inode_place v ino =
     (let index = unat ino mod unat (uv_inodes_per_group v) in
      (unat ino div unat (uv_inodes_per_group v) * unat (uv_fragments_per_group v) + unat (uv_inode_table_fragment v)
        + index div unat (uv_inodes_per_block v) * unat (uv_fragments_per_block v)) * unat (uv_fragment_size v)
      + index mod unat (uv_inodes_per_block v) * 256)"

lemma inode_offset_core:
  assumes "uv_inodes_per_group v \<noteq> 0" "uv_inodes_per_block v \<noteq> 0" "uv_fragment_size v \<noteq> 0"
  shows "ufs2_inode_offset v ino =
    (if ino div uv_inodes_per_group v < uv_cylinder_groups v \<and> inode_place v ino < 2 ^ 64
     then Some (of_nat (inode_place v ino)) else None)"
proof -
  define g where "g = (ucast (ino div uv_inodes_per_group v) * ucast (uv_fragments_per_group v) :: u64)"
  define x where "x = ino mod uv_inodes_per_group v"
  define a where "a = (ucast (x div uv_inodes_per_block v) * ucast (uv_fragments_per_block v) :: u64)"
  define w where "w = (ucast (x mod uv_inodes_per_block v) * 256 :: u64)"
  define i where "i = uv_inode_table_fragment v"
  define f where "f = (ucast (uv_fragment_size v) :: u64)"
  have f2: "unat f = unat (uv_fragment_size v)" by (simp add: f_def)
  have f3: "0 < unat f" unfolding f2 unat_gt_0 by (rule assms(3))
  have f: "f \<noteq> 0" "unat f = unat (uv_fragment_size v)" "0 < unat f"
    by (rule unat_gt_0 [THEN iffD1, OF f3], rule f2, rule f3)
  have w: "unat w = unat (x mod uv_inodes_per_block v) * 256"
    using unat_mult_u32 [of "x mod uv_inodes_per_block v" 256] by (simp add: w_def)
  have place: "inode_place v ino = (unat g + unat i + unat a) * unat f + unat w"
    by (simp add: inode_place_def g_def a_def i_def w f(2) unat_mult_u32 x_def unat_div_distrib unat_mod_distrib Let_def)
  have big: "2 ^ 64 \<le> n \<Longrightarrow> 2 ^ 64 \<le> n * unat f + m" for n m
    using f(3) by (metis le_add1 mult_le_mono2 mult_1_right Suc_leI One_nat_def le_trans)
  have off: "ufs2_inode_offset v ino =
    (if ino div uv_inodes_per_group v \<ge> uv_cylinder_groups v then None
     else if g > NOT 0 - i \<or> a > NOT 0 - g - i then None
     else if g + (i + a) > NOT 0 div f \<or> w > NOT 0 - (g + (i + a)) * f then None
     else Some ((g + (i + a)) * f + w))"
    using assms by (simp only: ufs2_inode_offset_def Let_def g_def x_def a_def w_def i_def f_def if_False de_Morgan_disj simp_thms)
  show ?thesis
  proof (cases "unat g + unat i + unat a < 2 ^ 64")
    case False
    then have "g > NOT 0 - i \<or> a > NOT 0 - g - i"
      using u64_add_guard [of i g] u64_add_guard2 [of g i a] by (cases "unat g + unat i < 2 ^ 64") auto
    moreover have "\<not> inode_place v ino < 2 ^ 64"
      unfolding place not_less by (rule big) (use False in simp)
    ultimately show ?thesis unfolding off by simp
  next
    case True
    then have gi: "unat g + unat i < 2 ^ 64" by linarith
    have n: "\<not> (g > NOT 0 - i \<or> a > NOT 0 - g - i)"
      using True u64_add_guard [of i g] u64_add_guard2 [OF gi, of a] by auto
    have s: "unat (g + (i + a)) = unat g + unat i + unat a"
      using True by (simp add: unat_plus_if')
    show ?thesis
    proof (cases "unat (g + (i + a)) * unat f < 2 ^ 64")
      case False
      then have "g + (i + a) > NOT 0 div f" using u64_mul_guard [OF f(1), of "g + (i + a)"] by simp
      moreover have "\<not> inode_place v ino < 2 ^ 64" using False unfolding place s by simp
      ultimately show ?thesis unfolding off using n by simp
    next
      case True
      then have n2: "\<not> g + (i + a) > NOT 0 div f" using u64_mul_guard [OF f(1), of "g + (i + a)"] by simp
      have m: "unat ((g + (i + a)) * f) = unat (g + (i + a)) * unat f"
        by (rule unat_mult_lem [THEN iffD1]) (use True in simp)
      have "inode_place v ino = unat ((g + (i + a)) * f) + unat w" by (simp only: place m s)
      moreover have "of_nat (unat ((g + (i + a)) * f) + unat w) = (g + (i + a)) * f + w" by simp
      ultimately show ?thesis
        unfolding off using n n2 u64_add_guard [of "(g + (i + a)) * f" w] by auto
    qed
  qed
qed

section \<open>The inode codec\<close>

lemma length_put_le64s [simp]:
  "off + 8 * length xs \<le> length raw \<Longrightarrow> length (put_le64s raw off xs) = length raw"
  by (induction xs arbitrary: raw off) auto

lemma get_put_le64s_other:
  "off + 8 * length xs \<le> length raw \<Longrightarrow> a + n \<le> length raw \<Longrightarrow> a + n \<le> off \<or> off + 8 * length xs \<le> a \<Longrightarrow>
   get_bytes (put_le64s raw off xs) a n = get_bytes raw a n"
  by (induction xs arbitrary: raw off) (auto simp: get_put_disjoint)

lemma le64_at_put_le64s:
  "off + 8 * length xs \<le> length raw \<Longrightarrow> i < length xs \<Longrightarrow> le64_at (put_le64s raw off xs) (off + i * 8) = xs ! i"
proof (induction xs arbitrary: raw off i)
  case (Cons x xs)
  show ?case
  proof (cases i)
    case 0
    with Cons.prems show ?thesis
      by (simp add: le64_at_def get_put_le64s_other get_put_same)
  next
    case (Suc j)
    then show ?thesis using Cons.prems Cons.IH [of "off + 8" "put_bytes raw off (bytes_of_le64 x)" j]
      by (simp add: add.assoc)
  qed
qed simp

definition dinode_shape :: "ufs2_inode \<Rightarrow> bool" where
  "dinode_shape i \<longleftrightarrow> length (ui_direct i) = 12 \<and> length (ui_indirect i) = 3"

lemma length_encode_dinode [simp]: "dinode_shape i \<Longrightarrow> length raw = 256 \<Longrightarrow> length (encode_dinode i raw) = 256"
  by (simp add: encode_dinode_def dinode_shape_def Let_def)

lemma decode_encode_dinode:
  assumes "dinode_shape i" "length raw = 256"
  shows "decode_dinode (encode_dinode i raw) = i"
proof -
  define r0 where "r0 = put_bytes raw 0 (bytes_of_le16 (ui_mode i))"
  define r1 where "r1 = put_bytes r0 2 (bytes_of_le16 (ui_nlink i))"
  define r2 where "r2 = put_bytes r1 4 (bytes_of_le32 (ui_uid i))"
  define r3 where "r3 = put_bytes r2 8 (bytes_of_le32 (ui_gid i))"
  define r4 where "r4 = put_bytes r3 16 (bytes_of_le64 (ui_size i))"
  define r5 where "r5 = put_le64s r4 112 (ui_direct i)"
  have d: "length (ui_direct i) = 12" "length (ui_indirect i) = 3"
    using assms(1) by (simp_all add: dinode_shape_def)
  have l: "length r0 = 256" "length r1 = 256" "length r2 = 256" "length r3 = 256" "length r4 = 256" "length r5 = 256"
    using assms(2) d by (simp_all add: r0_def r1_def r2_def r3_def r4_def r5_def)
  have e: "encode_dinode i raw = put_le64s r5 208 (ui_indirect i)"
    by (simp add: encode_dinode_def Let_def r0_def r1_def r2_def r3_def r4_def r5_def)
  have "le16_at (encode_dinode i raw) 0 = ui_mode i"
    using l d assms(2) unfolding e le16_at_def
    by (simp add: get_put_le64s_other r5_def, simp add: r4_def r3_def r2_def r1_def r0_def buf_simps)
  moreover have "le16_at (encode_dinode i raw) 2 = ui_nlink i"
    using l d unfolding e le16_at_def
    by (simp add: get_put_le64s_other r5_def, simp add: r4_def r3_def r2_def r1_def buf_simps)
  moreover have "le32_at (encode_dinode i raw) 4 = ui_uid i"
    using l d unfolding e le32_at_def
    by (simp add: get_put_le64s_other r5_def, simp add: r4_def r3_def r2_def buf_simps)
  moreover have "le32_at (encode_dinode i raw) 8 = ui_gid i"
    using l d unfolding e le32_at_def
    by (simp add: get_put_le64s_other r5_def, simp add: r4_def r3_def buf_simps)
  moreover have "le64_at (encode_dinode i raw) 16 = ui_size i"
    using l d unfolding e le64_at_def
    by (simp add: get_put_le64s_other r5_def, simp add: r4_def buf_simps)
  moreover have "map (\<lambda>k. le64_at (encode_dinode i raw) (112 + k * 8)) [0..<12] = ui_direct i"
  proof (rule nth_equalityI)
    fix k assume "k < length (map (\<lambda>k. le64_at (encode_dinode i raw) (112 + k * 8)) [0..<12])"
    then have k: "k < 12" by simp
    have "le64_at (encode_dinode i raw) (112 + k * 8) = le64_at r5 (112 + k * 8)"
      using k l d by (simp add: e le64_at_def get_put_le64s_other)
    with k show "map (\<lambda>k. le64_at (encode_dinode i raw) (112 + k * 8)) [0..<12] ! k = ui_direct i ! k"
      using le64_at_put_le64s [of 112 "ui_direct i" r4 k] l d by (simp add: r5_def)
  qed (simp add: d)
  moreover have "map (\<lambda>k. le64_at (encode_dinode i raw) (208 + k * 8)) [0..<3] = ui_indirect i"
    using le64_at_put_le64s [of 208 "ui_indirect i" r5] l d
    by (intro nth_equalityI) (simp_all add: e)
  ultimately show ?thesis by (simp add: decode_dinode_def)
qed

section \<open>Calls on an addressable volume\<close>

definition vol_ready :: "blockdev \<Rightarrow> 'a bio_state_scheme \<Rightarrow> bool" where
  "vol_ready vol s \<longleftrightarrow> bio_inv s \<and> vol_ok vol s \<and> slot_free s"

definition in_vol :: "blockdev \<Rightarrow> u64 \<Rightarrow> u32 \<Rightarrow> bool" where
  "in_vol vol off len \<longleftrightarrow> unat off + unat len \<le> unat (bd_sector_count vol) * 512"

lemma slot_free_cong: "held_keys t = held_keys s \<Longrightarrow> pinned t = pinned s \<Longrightarrow> slot_free t = slot_free s"
  by (simp add: slot_free_def)

lemma bd_read_ok:
  assumes "vol_ready vol s" "in_vol vol off len"
  obtains t where "bd_read vol off len s = c_ok (vol_bytes vol s (unat off) (unat len)) t"
    "vol_ready vol t" "bview t = bview s"
proof -
  have r: "\<not> range_refused vol off len"
    using assms range_refused_iff [of vol s off len] by (simp add: vol_ready_def in_vol_def)
  from assms read_loop_ok [of s vol off len "[]"] obtain t where
    t: "blockdev_read_loop vol off len [] s = Some (0, vol_bytes vol s (unat off) (unat len), t)"
    "bio_inv t" "bview t = bview s" "pinned t = pinned s" "held_keys t = held_keys s" "bio_frame s t"
    by (auto simp: vol_ready_def in_vol_def)
  have "bd_read vol off len s = c_ok (vol_bytes vol s (unat off) (unat len)) t"
    by (simp add: bd_read_def blockdev_read_def r t(1))
  moreover have "vol_ready vol t"
    using assms(1) t(2) vol_ok_frame [OF t(6,5)] slot_free_cong [OF t(5,4)] by (simp add: vol_ready_def)
  ultimately show ?thesis using t(3) that by blast
qed

lemma bd_write_ok:
  assumes "vol_ready vol s" "in_vol vol off len" "length src = unat len"
  obtains t where "bd_write vol off len src s = c_ok () t" "vol_ready vol t"
    "\<forall>a < unat (bd_sector_count vol) * 512. vol_byte vol t a =
      (if unat off \<le> a \<and> a < unat off + unat len then src ! (a - unat off) else vol_byte vol s a)"
proof -
  have r: "\<not> range_refused vol off len"
    using assms range_refused_iff [of vol s off len] by (simp add: vol_ready_def in_vol_def)
  from assms write_loop_ok [of s vol off len src] obtain t where
    t: "blockdev_write_loop vol off len src s = Some (0, t)" "bio_inv t" "vol_ok vol t" "slot_free t"
    "\<forall>a < unat (bd_sector_count vol) * 512. vol_byte vol t a =
      (if unat off \<le> a \<and> a < unat off + unat len then src ! (a - unat off) else vol_byte vol s a)"
    unfolding vol_ready_def in_vol_def by blast
  have "bd_write vol off len src s = c_ok () t"
    by (simp add: bd_write_def blockdev_write_def r t(1))
  then show ?thesis using t(2-5) that by (simp add: vol_ready_def)
qed

lemma vol_bytes_written:
  assumes "\<forall>a < unat (bd_sector_count vol) * 512. vol_byte vol t a =
      (if unat off \<le> a \<and> a < unat off + unat len then src ! (a - unat off) else vol_byte vol s a)"
    and "in_vol vol off len" "length src = unat len"
  shows "vol_bytes vol t (unat off) (unat len) = src"
  using assms by (intro nth_equalityI) (auto simp: vol_bytes_def in_vol_def)

lemma inode_offset_fits: "ufs2_inode_offset v ino = Some off \<Longrightarrow>
    uv_inodes_per_group v \<noteq> 0 \<and> uv_inodes_per_block v \<noteq> 0 \<and> uv_fragment_size v \<noteq> 0"
  by (auto simp: ufs2_inode_offset_def Let_def split: if_splits)

lemma inode_round_trip_core:
  assumes "vol_ready (uv_device v) s" "ufs2_inode_offset v ino = Some off" "in_vol (uv_device v) off 256"
    "dinode_shape i"
  obtains t u where "ufs2_write_inode v ino i s = c_ok () t" "ufs2_read_inode v ino t = c_ok i u"
    "vol_ready (uv_device v) t"
    "\<forall>a < unat (bd_sector_count (uv_device v)) * 512. a < unat off \<or> unat off + 256 \<le> a \<longrightarrow>
       vol_byte (uv_device v) t a = vol_byte (uv_device v) s a"
proof -
  let ?d = "uv_device v"
  have u256: "unat (256 :: u32) = 256" by simp
  obtain r where r: "bd_read ?d off 256 s = c_ok (vol_bytes ?d s (unat off) (unat (256::u32))) r"
    "vol_ready ?d r" "bview r = bview s" by (rule bd_read_ok [OF assms(1,3)])
  let ?new = "encode_dinode i (vol_bytes ?d s (unat off) 256)"
  have l: "length ?new = unat (256::u32)" using assms(4) by simp
  obtain t where t: "bd_write ?d off 256 ?new r = c_ok () t" "vol_ready ?d t"
    "\<forall>a < unat (bd_sector_count ?d) * 512. vol_byte ?d t a =
      (if unat off \<le> a \<and> a < unat off + unat (256::u32) then ?new ! (a - unat off) else vol_byte ?d r a)"
    by (rule bd_write_ok [OF r(2) assms(3) l])
  obtain u where u: "bd_read ?d off 256 t = c_ok (vol_bytes ?d t (unat off) (unat (256::u32))) u"
    "vol_ready ?d u" "bview u = bview t" by (rule bd_read_ok [OF t(2) assms(3)])
  have w: "vol_bytes ?d t (unat off) (unat (256::u32)) = ?new"
    by (rule vol_bytes_written [OF t(3) assms(3) l])
  have "ufs2_write_inode v ino i s = c_ok () t"
    using r(1) t(1) by (simp add: ufs2_write_inode_def assms(2))
  moreover have "ufs2_read_inode v ino t = c_ok i u"
    using u(1) w by (simp add: ufs2_read_inode_def assms(2) decode_encode_dinode [OF assms(4)])
  moreover have "vol_byte ?d r = vol_byte ?d s" using r(3) by (simp add: vol_byte_def fun_eq_iff)
  ultimately show ?thesis using t(2,3) that by (simp add: u256)
qed

section \<open>Properties of volumes and inodes\<close>

text \<open>C25. \<^verbatim>\<open>ufs2_inode_offset\<close> is exact: on a volume with non-zero geometry it returns the byte
  offset of the inode, computed over the integers, exactly when the inode's cylinder group
  exists and the offset fits 64 bits, and \<open>-1\<close> otherwise; no wrap-around is possible.\<close>

theorem ufs2_inode_offset_exact:
  assumes "uv_inodes_per_group v \<noteq> 0" "uv_inodes_per_block v \<noteq> 0" "uv_fragment_size v \<noteq> 0"
  shows "ufs2_inode_offset v ino =
    (if ino div uv_inodes_per_group v < uv_cylinder_groups v \<and> inode_place v ino < 2 ^ 64
     then Some (of_nat (inode_place v ino)) else None)"
  by (rule inode_offset_core [OF assms])

definition demo_ufs2 :: ufs2_volume where
  "demo_ufs2 = \<lparr>uv_device = demo_vol, uv_block_size = 4096, uv_fragment_size = 512, uv_fragments_per_block = 8,
     uv_cylinder_groups = 2, uv_inodes_per_group = 32, uv_fragments_per_group = 64, uv_inodes_per_block = 16,
     uv_inode_table_fragment = 0, uv_cylinder_group_block = 16, uv_cylinder_group_size = 512\<rparr>"

theorem ufs2_inode_offset_exact_witness:
  "ufs2_inode_offset demo_ufs2 50 = Some 37376 \<and> ufs2_inode_offset demo_ufs2 64 = None"
proof -
  have "ufs2_inode_offset demo_ufs2 i =
      (if i div 32 < 2 \<and> inode_place demo_ufs2 i < 2 ^ 64 then Some (of_nat (inode_place demo_ufs2 i)) else None)" for i
    using ufs2_inode_offset_exact [of demo_ufs2 i] by (simp add: demo_ufs2_def)
  from this [of 50] this [of 64] show ?thesis by (simp add: inode_place_def demo_ufs2_def Let_def)
qed

definition ufs2_geometry :: "ufs2_volume \<Rightarrow> bool" where
  "ufs2_geometry v \<longleftrightarrow> power_of_two (uv_block_size v) \<and> power_of_two (uv_fragment_size v) \<and>
     4096 \<le> uv_block_size v \<and> uv_block_size v \<le> 65536 \<and> 512 \<le> uv_fragment_size v \<and>
     unat (uv_fragments_per_block v) = unat (uv_block_size v) div unat (uv_fragment_size v) \<and>
     0 < unat (uv_fragments_per_block v) \<and> unat (uv_inodes_per_block v) = unat (uv_block_size v) div 256 \<and>
     0 < unat (uv_inodes_per_block v) \<and> 0 < unat (uv_cylinder_groups v) \<and> 0 < unat (uv_inodes_per_group v) \<and>
     0 < unat (uv_fragments_per_group v) \<and> 128 \<le> uv_cylinder_group_size v \<and>
     unat (uv_inode_table_fragment v) < 2 ^ 31"

lemma unat_scast_nonneg: "0 \<le> sint (x :: u32) \<Longrightarrow> unat (scast x :: u64) < 2147483648"
proof -
  assume s: "0 \<le> sint x"
  have "(scast x :: u64) = word_of_int (sint x)" by transfer simp
  then have "uint (scast x :: u64) = uint (word_of_int (sint x) :: u64)" by (rule arg_cong)
  also have "\<dots> = sint x mod 2 ^ 64" by (subst uint_word_of_int) simp
  also have "\<dots> < 2147483648" using s sint_less [of x] by simp
  finally show ?thesis by (simp only: unat_eq_nat_uint nat_less_iff [OF uint_ge_0] of_nat_numeral)
qed


text \<open>A RAM disk with the superblock of a small volume.\<close>

definition super_field :: "nat \<Rightarrow> u8" where
  "super_field a = (case map_of [(8, 24), (44, 2), (49, 16), (53, 2), (56, 8), (120, 16), (161, 2), (184, 32),
     (188, 64), (1372, 0x19), (1373, 0x01), (1374, 0x54), (1375, 0x19)] a of Some x \<Rightarrow> x | None \<Rightarrow> 0)"

definition demo_super :: "u32 \<Rightarrow> bytes" where
  "demo_super n = map (\<lambda>i. super_field (unat n * 512 + i - 65536)) [0..<512]"

definition super_machine :: bio_state where
  "super_machine = ram_machine 256\<lparr>disk := \<lambda>_. demo_super\<rparr>"

definition super_vol :: blockdev where
  "super_vol = \<lparr>bd_device = 28, bd_first_lba = 0, bd_sector_count = 256\<rparr>"

lemma super_machine_inv:
  "bio_inv super_machine" "held_keys super_machine = {}" "pinned super_machine = {}"
  "bview super_machine = (\<lambda>_. demo_super)" "io_ok super_machine 28 n \<longleftrightarrow> ucast n + 1 \<le> (256 :: u64)"
proof -
  have b: "super_machine = binit (ram_machine 256\<lparr>disk := \<lambda>_. demo_super\<rparr>)"
    by (simp add: super_machine_def ram_machine_def binit_def)
  have l: "length (demo_super n) = 512" for n by (simp add: demo_super_def)
  show "bio_inv super_machine" "held_keys super_machine = {}" "pinned super_machine = {}"
    "bview super_machine = (\<lambda>_. demo_super)"
    unfolding b by (subst binit_inv; simp add: l ram_machine_def binit_def)+
  show "io_ok super_machine 28 n \<longleftrightarrow> ucast n + 1 \<le> (256 :: u64)"
    by (simp add: io_ok_def super_machine_def ram_machine_def binit_def)
qed

lemma super_vol_ready: "vol_ready super_vol super_machine"
proof -
  have "(ucast (of_nat (a div 512) :: u32) :: u64) + 1 \<le> 256" if "a < 131072" for a :: nat
  proof -
    have "a div 512 < 256" using that by (simp add: div_less_iff_less_mult)
    then have "unat (of_nat (a div 512) :: u32) < 256" by (subst unat_of_nat_small(1)) simp_all
    then show ?thesis by (simp add: word_le_nat_alt unat_plus_if' Suc_le_eq)
  qed
  then show ?thesis
    by (simp add: vol_ready_def vol_ok_def vol_lba_def super_vol_def super_machine_inv slot_free_def)
qed

lemma get_vol_bytes: "k + n \<le> m \<Longrightarrow> get_bytes (vol_bytes vol s a m) k n = map (vol_byte vol s) [a + k..<a + k + n]"
  by (intro nth_equalityI) (simp_all add: vol_bytes_def get_bytes_nth add.assoc)

lemma super_byte: "a < 131072 \<Longrightarrow> vol_byte super_vol super_machine a = super_field (a - 65536)"
proof -
  assume "a < 131072"
  then have "a div 512 < 4294967296" by (simp add: div_less_iff_less_mult)
  then show ?thesis
    by (simp add: vol_byte_def vol_lba_def super_vol_def super_machine_inv demo_super_def)
qed

lemma super_le32: "k + 4 \<le> 8192 \<Longrightarrow>
  le32_at (vol_bytes super_vol super_machine 65536 8192) k =
    le32_of (map super_field [k, k + 1, k + 2, k + 3])"
  by (simp add: le32_at_def get_vol_bytes super_byte upt_rec add.commute)

lemma super_fields:
  defines "sb \<equiv> vol_bytes super_vol super_machine 65536 8192"
  shows "le32_at sb 1372 = 0x19540119" "le32_at sb 8 = 24" "le32_at sb 12 = 0" "le32_at sb 44 = 2"
    "le32_at sb 48 = 4096" "le32_at sb 52 = 512" "le32_at sb 56 = 8" "le32_at sb 120 = 16"
    "le32_at sb 160 = 512" "le32_at sb 184 = 32" "le32_at sb 188 = 64"
  unfolding sb_def by (simp add: super_le32 super_field_def le32_of_def)+


text \<open>C18. \<^verbatim>\<open>ufs2_write_inode\<close> and \<^verbatim>\<open>ufs2_read_inode\<close> round-trip through the volume: the write
  returns 0, a read of the same inode then returns exactly the fields written, and no
  byte of the volume outside the 256 bytes of that inode changes.\<close>

theorem ufs2_inode_round_trip:
  assumes "vol_ready (uv_device v) s" "ufs2_inode_offset v ino = Some off" "in_vol (uv_device v) off 256"
    "dinode_shape i"
  shows "\<exists>t u. ufs2_write_inode v ino i s = Some (Some (), t) \<and> ufs2_read_inode v ino t = Some (Some i, u) \<and>
    (\<forall>a < unat (bd_sector_count (uv_device v)) * 512. a < unat off \<or> unat off + 256 \<le> a \<longrightarrow>
       vol_byte (uv_device v) t a = vol_byte (uv_device v) s a)"
  by (rule inode_round_trip_core [OF assms]) (auto simp: c_ok_def)

definition demo_inode :: ufs2_inode where
  "demo_inode = \<lparr>ui_mode = 0x81a4, ui_nlink = 1, ui_uid = 7, ui_gid = 0, ui_size = 10,
     ui_direct = replicate 12 9, ui_indirect = replicate 3 0\<rparr>"

theorem ufs2_inode_round_trip_witness:
  "\<exists>t u. ufs2_write_inode demo_ufs2 3 demo_inode (ram_machine 8) = Some (Some (), t) \<and>
    ufs2_read_inode demo_ufs2 3 t = Some (Some demo_inode, u)"
proof -
  have "vol_ready (uv_device demo_ufs2) (ram_machine 8)"
    using ram_machine_inv(1) demo_vol_ok by (simp add: vol_ready_def demo_ufs2_def)
  moreover have "ufs2_inode_offset demo_ufs2 3 = Some 768"
    by (simp add: ufs2_inode_offset_def demo_ufs2_def Let_def)
  moreover have "in_vol (uv_device demo_ufs2) 768 256" by (simp add: in_vol_def demo_ufs2_def demo_vol_def)
  moreover have "dinode_shape demo_inode" by (simp add: dinode_shape_def demo_inode_def)
  ultimately show ?thesis using ufs2_inode_round_trip by blast
qed

end
