(* ===== verification/Ufs2_Dirs.thy ===== *)
theory Ufs2_Dirs
  imports Ufs2_Facts
begin

text \<open>
  The directory regions of \<^verbatim>\<open>kern/ufs2.c\<close> against their abstraction, the list of the live
  entries in chain order: lookup is the first entry of the name, and the insertion of
  \<^verbatim>\<open>ufs2_dirlink\<close> adds one entry, except where it leaves a gap of four bytes.
\<close>

section \<open>The entries of a region\<close>

function dir_entries :: "bytes \<Rightarrow> nat \<Rightarrow> nat \<Rightarrow> (bytes \<times> u32) list option" where
  "dir_entries b n off =
     (if off + 8 \<le> n then
        if rec_bad b n off then None
        else map_option (\<lambda>es. (if rec_ino b off = 0 then []
               else [(get_bytes b (off + 8) (rec_namlen b off), rec_ino b off)]) @ es)
             (dir_entries b n (off + rec_len b off))
      else Some [])"
  by pat_completeness auto
termination
  by (relation "measure (\<lambda>(b, n, off). n - off)") (auto dest: rec_bad_progress)

declare dir_entries.simps [simp del]

lemma not_rec_bad:
  "\<not> rec_bad b n off \<longleftrightarrow> 8 \<le> rec_len b off \<and> rec_len b off mod 4 = 0 \<and> rec_len b off \<le> n - off \<and>
     rec_namlen b off \<le> 255 \<and> rec_namlen b off + 8 \<le> rec_len b off"
  by (auto simp: rec_bad_def not_less)

text \<open>A read of a region sees only the bytes from its start to its end.\<close>

definition same_from :: "nat \<Rightarrow> nat \<Rightarrow> bytes \<Rightarrow> bytes \<Rightarrow> bool" where
  "same_from i n b b' \<longleftrightarrow> n \<le> length b \<and> n \<le> length b' \<and> (\<forall>k. i \<le> k \<longrightarrow> k < n \<longrightarrow> b' ! k = b ! k)"

lemma same_from_get: "same_from i n b b' \<Longrightarrow> i \<le> a \<Longrightarrow> a + m \<le> n \<Longrightarrow> get_bytes b' a m = get_bytes b a m"
  by (intro nth_equalityI) (auto simp: same_from_def get_bytes_nth)

lemma same_from_rec:
  assumes "same_from i n b b'" "i \<le> off" "off + 8 \<le> n"
  shows "rec_ino b' off = rec_ino b off" "rec_len b' off = rec_len b off" "rec_namlen b' off = rec_namlen b off"
    "rec_bad b' n off = rec_bad b n off"
proof -
  show *: "rec_ino b' off = rec_ino b off" "rec_len b' off = rec_len b off" "rec_namlen b' off = rec_namlen b off"
    using assms same_from_get [OF assms(1), of off 4] same_from_get [OF assms(1), of "off + 4" 2]
    by (simp_all add: rec_ino_def rec_len_def rec_namlen_def le32_at_def le16_at_def same_from_def)
  show "rec_bad b' n off = rec_bad b n off" by (simp add: rec_bad_def *)
qed

lemma dir_entries_cong:
  "same_from i n b b' \<Longrightarrow> i \<le> off \<Longrightarrow> dir_entries b' n off = dir_entries b n off"
proof (induction b n off rule: dir_entries.induct)
  case (1 b n off)
  show ?case
  proof (cases "off + 8 \<le> n \<and> \<not> rec_bad b n off")
    case True
    then have "off + 8 \<le> n" "\<not> rec_bad b n off" by auto
    note r = same_from_rec [OF 1(2,3) this(1)]
    have "get_bytes b' (off + 8) (rec_namlen b off) = get_bytes b (off + 8) (rec_namlen b off)"
      using True 1(3) by (intro same_from_get [OF 1(2)]) (auto simp: not_rec_bad)
    moreover have "dir_entries b' n (off + rec_len b off) = dir_entries b n (off + rec_len b off)"
      using True 1 by simp
    ultimately show ?thesis using True r by (subst (1 2) dir_entries.simps) simp
  next
    case False
    then show ?thesis using same_from_rec [OF 1(2,3)] by (subst (1 2) dir_entries.simps) auto
  qed
qed

lemma dir_find_entries:
  "dir_entries b n off = Some es \<Longrightarrow> n \<le> length b \<Longrightarrow>
   (case dir_find b n name off of
      Found e \<Rightarrow> map_of es name = Some (rec_ino b e)
    | Absent \<Rightarrow> map_of es name = None
    | Bad \<Rightarrow> False)"
proof (induction b n name off arbitrary: es rule: dir_find.induct)
  case (1 b n name off)
  show ?case
  proof (cases "off + 8 \<le> n")
    case True
    with 1(2) have nb: "\<not> rec_bad b n off" by (subst (asm) dir_entries.simps) (auto split: if_splits)
    with True 1(2) obtain es' where es': "dir_entries b n (off + rec_len b off) = Some es'"
      "es = (if rec_ino b off = 0 then [] else [(get_bytes b (off + 8) (rec_namlen b off), rec_ino b off)]) @ es'"
      by (subst (asm) dir_entries.simps) auto
    show ?thesis
    proof (cases "rec_matches b name off")
      case True
      then show ?thesis using \<open>off + 8 \<le> n\<close> nb es'(2)
        by (subst dir_find.simps) (auto simp: rec_matches_def)
    next
      case False
      then have "\<not> (rec_ino b off \<noteq> 0 \<and> get_bytes b (off + 8) (rec_namlen b off) = name)"
        using nb \<open>off + 8 \<le> n\<close> 1(3) by (auto simp: rec_matches_def not_rec_bad)
      then have "map_of es name = map_of es' name" using es'(2) by auto
      moreover note 1(1) [OF \<open>off + 8 \<le> n\<close> nb False es'(1) 1(3)]
      ultimately show ?thesis using \<open>off + 8 \<le> n\<close> nb False
        by (subst dir_find.simps) (simp split: scan.splits)
    qed
  next
    case False
    then show ?thesis using 1(2) by (subst dir_find.simps, subst (asm) dir_entries.simps) auto
  qed
qed

section \<open>Writing one record\<close>

lemma rec_size_eq: "n \<le> 255 \<Longrightarrow> rec_size n = (n + 11) div 4 * 4"
proof -
  assume n: "n \<le> 255"
  have "unat (8 + of_nat n + 3 :: u32) = n + 11"
    using n unat_of_nat_small(1) [of "n + 11"] by (simp add: algebra_simps)
  then show ?thesis
    using unat_and_not_mask [of "8 + of_nat n + 3 :: u32" 2]
    by (simp add: rec_size_def ufs2_dir_record_size_def mask_eq_exp_minus_1)
qed

lemma rec_size_facts: "n \<le> 255 \<Longrightarrow> rec_size n mod 4 = 0 \<and> n + 8 \<le> rec_size n \<and> rec_size n \<le> 264 \<and> 8 \<le> rec_size n"
  by (simp add: rec_size_eq) linarith

lemma unat_of_nat_u16: "n < 65536 \<Longrightarrow> unat (of_nat n :: u16) = n"
  by (simp add: unat_of_nat)

lemma unat_of_nat_u8: "n < 256 \<Longrightarrow> unat (of_nat n :: u8) = n"
  by (simp add: unat_of_nat)

text \<open>The header and name of a record, written into a cleared range.\<close>

definition dir_record :: "bytes \<Rightarrow> nat \<Rightarrow> nat \<Rightarrow> nat \<Rightarrow> bytes \<Rightarrow> u32 \<Rightarrow> u8 \<Rightarrow> bytes" where
  "dir_record b at needed len name ino type =
     put_bytes (put_bytes (put_bytes (put_bytes (put_bytes (put_bytes b at (replicate needed 0))
       at (bytes_of_le32 ino)) (at + 4) (bytes_of_le16 (of_nat len))) (at + 6) [type])
       (at + 7) [of_nat (length name)]) (at + 8) name"

lemma dir_record_facts:
  fixes ino :: u32 and type :: u8
  assumes "at + needed \<le> length b" "length name + 8 \<le> needed" "length name \<le> 255" "len < 65536"
  defines "r \<equiv> dir_record b at needed len name ino type"
  shows "length r = length b" "rec_ino r at = ino" "rec_len r at = len" "rec_namlen r at = length name"
    "get_bytes r (at + 8) (length name) = name"
    "k < at \<or> at + needed \<le> k \<Longrightarrow> k < length b \<Longrightarrow> r ! k = b ! k"
proof -
  show l: "length r = length b" using assms(1,2) by (simp add: r_def dir_record_def)
  show "rec_ino r at = ino"
    using assms(1,2) by (simp add: r_def dir_record_def rec_ino_def le32_at_def buf_simps)
  show "rec_len r at = len"
    using assms by (simp add: r_def dir_record_def rec_len_def le16_at_def buf_simps unat_of_nat_u16)
  show "rec_namlen r at = length name"
    using assms by (simp add: r_def dir_record_def rec_namlen_def put_bytes_nth unat_of_nat_u8)
  show "get_bytes r (at + 8) (length name) = name"
    using assms(1,2) by (simp add: r_def dir_record_def buf_simps)
  show "r ! k = b ! k" if "k < at \<or> at + needed \<le> k" "k < length b"
    using assms(1,2) that by (auto simp: r_def dir_record_def put_bytes_nth)
qed

definition free_record :: "bytes \<Rightarrow> nat \<Rightarrow> nat \<Rightarrow> bytes" where
  "free_record b off len = put_bytes (put_bytes b off (replicate len 0)) (off + 4) (bytes_of_le16 (of_nat len))"

lemma dir_put_fits:
  assumes "length b \<ge> at + available" "needed = rec_size (length name)" "length name \<le> 255"
    "available = needed \<or> needed + 8 \<le> available"
  shows "dir_put b at available needed name ino type =
    Some (dir_record (if available > needed then free_record b (at + needed) (available - needed) else b)
      at needed needed name ino type)"
  using assms rec_size_facts [OF assms(3)]
  by (auto simp: dir_put_def dir_record_def free_record_def)

lemma free_record_facts:
  assumes "off + len \<le> length b" "8 \<le> len" "len < 65536"
  shows "length (free_record b off len) = length b" "rec_ino (free_record b off len) off = 0"
    "rec_len (free_record b off len) off = len" "rec_namlen (free_record b off len) off = 0"
    "k < off \<or> off + len \<le> k \<Longrightarrow> k < length b \<Longrightarrow> free_record b off len ! k = b ! k"
proof -
  show "length (free_record b off len) = length b" using assms by (simp add: free_record_def)
  have "get_bytes (put_bytes b off (replicate len 0)) off 4 = replicate 4 0"
    using assms by (intro nth_equalityI) (simp_all add: get_bytes_nth put_bytes_nth)
  then have "get_bytes (free_record b off len) off 4 = replicate 4 0"
    using assms by (simp add: free_record_def buf_simps)
  then show "rec_ino (free_record b off len) off = 0"
    by (simp add: rec_ino_def le32_at_def le32_of_def)
  show "rec_len (free_record b off len) off = len"
    using assms by (simp add: free_record_def rec_len_def le16_at_def buf_simps unat_of_nat_u16)
  show "rec_namlen (free_record b off len) off = 0"
    using assms by (simp add: free_record_def rec_namlen_def put_bytes_nth)
  show "free_record b off len ! k = b ! k" if "k < off \<or> off + len \<le> k" "k < length b"
    using assms that by (auto simp: free_record_def put_bytes_nth)
qed

section \<open>Insertion\<close>

lemma mod4_diff: "(a :: nat) mod 4 = 0 \<Longrightarrow> b mod 4 = 0 \<Longrightarrow> (a - b) mod 4 = 0"
  by (simp add: dvd_diff_nat flip: dvd_eq_mod_eq_0)

lemma map_option_append_Nil [simp]: "map_option ((@) []) x = x"
  by (cases x) simp_all

lemma append_Cons_fun: "(@) (x # xs) = (\<lambda>ys. x # xs @ ys)"
  by (simp add: fun_eq_iff)

lemma dir_entries_step:
  "off + 8 \<le> n \<Longrightarrow> \<not> rec_bad b n off \<Longrightarrow> dir_entries b n off =
     map_option (\<lambda>es. (if rec_ino b off = 0 then [] else [(get_bytes b (off + 8) (rec_namlen b off), rec_ino b off)]) @ es)
       (dir_entries b n (off + rec_len b off))"
  by (subst dir_entries.simps) simp

lemma dir_put_entries:
  assumes "n \<le> length b" "at + available \<le> n" "n \<le> 512" "length name \<le> 255" "available mod 4 = 0" "ino \<noteq> 0"
    and "rec_size (length name) \<le> available" "available \<noteq> rec_size (length name) + 4"
  shows "\<exists>b'. dir_put b at available (rec_size (length name)) name ino type = Some b' \<and> length b' = length b \<and>
    (\<forall>k < length b. k < at \<or> at + available \<le> k \<longrightarrow> b' ! k = b ! k) \<and>
    dir_entries b' n at = map_option (\<lambda>es. (name, ino) # es) (dir_entries b n (at + available))"
proof -
  let ?m = "rec_size (length name)"
  note sz = rec_size_facts [OF assms(4)]
  have gap: "available = ?m \<or> ?m + 8 \<le> available" using assms(5,7,8) sz by presburger
  define b1 where "b1 = (if available > ?m then free_record b (at + ?m) (available - ?m) else b)"
  define r where "r = dir_record b1 at ?m ?m name ino type"
  have put: "dir_put b at available ?m name ino type = Some r"
    unfolding r_def b1_def by (rule dir_put_fits) (use assms gap in auto)
  have fr: "length b1 = length b" "\<And>k. k < at + ?m \<or> at + available \<le> k \<Longrightarrow> k < length b \<Longrightarrow> b1 ! k = b ! k"
    using assms gap free_record_facts(1,5) [of "at + ?m" "available - ?m" b] by (auto simp: b1_def)
  have pre: "at + ?m \<le> length b1" "length name + 8 \<le> ?m" "?m < 65536" using fr assms sz by auto
  note rf = dir_record_facts [OF pre(1,2) assms(4) pre(3), where ino = ino and type = type, folded r_def]
  have keep: "\<forall>k < length b. k < at \<or> at + available \<le> k \<longrightarrow> r ! k = b ! k"
    using rf(6) fr assms(7) by auto
  have tail: "dir_entries r n (at + available) = dir_entries b n (at + available)"
    by (rule dir_entries_cong [of "at + available"]) (use keep rf(1) fr(1) assms(1) in \<open>auto simp: same_from_def\<close>)
  have "dir_entries r n (at + ?m) = dir_entries r n (at + available)"
  proof (cases "available = ?m")
    case False
    then have a: "?m + 8 \<le> available" using gap by simp
    have o: "at + ?m + (available - ?m) \<le> length b" "8 \<le> available - ?m" "available - ?m < 65536"
      using a assms by auto
    have "same_from (at + ?m) n b1 r" using rf(1,6) fr(1) assms(1) by (auto simp: same_from_def)
    note s = same_from_rec [OF this order_refl]
    have "rec_ino r (at + ?m) = 0 \<and> rec_len r (at + ?m) = available - ?m \<and> rec_namlen r (at + ?m) = 0"
      using free_record_facts(2-4) [OF o] s(1-3) a assms(2) by (simp add: b1_def)
    moreover have "(available - ?m) mod 4 = 0" using assms(5,7) sz by presburger
    ultimately show ?thesis using a assms(2)
      by (subst dir_entries_step) (auto simp: not_rec_bad option.map_ident)
  qed simp
  moreover have "\<not> rec_bad r n at" using rf(3,4) sz assms(2,4,7) by (simp add: not_rec_bad)
  ultimately have "dir_entries r n at = map_option (\<lambda>es. (name, ino) # es) (dir_entries b n (at + available))"
    using assms(2,6,7) sz by (subst dir_entries_step) (simp_all add: rf tail append_Cons_fun)
  then show ?thesis using put keep rf(1) fr(1) by simp
qed

lemma dir_slot_prefix:
  "dir_slot b n needed off = Found e \<Longrightarrow> n \<le> length b \<Longrightarrow>
   off \<le> e \<and> e + 8 \<le> n \<and> \<not> rec_bad b n e \<and> slot_fits b needed e \<and>
   (\<exists>pre. \<forall>b'. n \<le> length b' \<longrightarrow> (\<forall>k. off \<le> k \<longrightarrow> k < e \<longrightarrow> b' ! k = b ! k) \<longrightarrow>
      dir_entries b' n off = map_option ((@) pre) (dir_entries b' n e))"
proof (induction b n needed off rule: dir_slot.induct)
  case (1 b n needed off)
  have h: "off + 8 \<le> n" "\<not> rec_bad b n off" using 1(2) by (subst (asm) dir_slot.simps, simp split: if_splits)+
  show ?case
  proof (cases "slot_fits b needed off")
    case True
    then have "e = off" using 1(2) h by (subst (asm) dir_slot.simps) simp
    then show ?thesis using True h by (auto intro!: exI [of _ "[]"])
  next
    case False
    let ?o = "off + rec_len b off"
    have "dir_slot b n needed ?o = Found e" using 1(2) h False by (subst (asm) dir_slot.simps) simp
    from 1(1) [OF h False this 1(3)] obtain pre where ih: "?o \<le> e" "e + 8 \<le> n" "\<not> rec_bad b n e" "slot_fits b needed e"
      "\<forall>b'. n \<le> length b' \<longrightarrow> (\<forall>k. ?o \<le> k \<longrightarrow> k < e \<longrightarrow> b' ! k = b ! k) \<longrightarrow>
        dir_entries b' n ?o = map_option ((@) pre) (dir_entries b' n e)" by auto
    let ?x = "if rec_ino b off = 0 then [] else [(get_bytes b (off + 8) (rec_namlen b off), rec_ino b off)]"
    have "dir_entries b' n off = map_option ((@) (?x @ pre)) (dir_entries b' n e)"
      if "n \<le> length b'" "\<forall>k. off \<le> k \<longrightarrow> k < e \<longrightarrow> b' ! k = b ! k" for b'
    proof -
      have sf: "same_from off ?o b b'" using that ih(1,2) 1(3) by (auto simp: same_from_def)
      have o8: "off + 8 \<le> ?o" "?o \<le> n" using h by (auto simp: not_rec_bad)
      note r = same_from_rec(1-3) [OF sf order_refl o8(1)]
      have g: "get_bytes b' (off + 8) (rec_namlen b off) = get_bytes b (off + 8) (rec_namlen b off)"
        using h by (intro same_from_get [OF sf]) (auto simp: not_rec_bad)
      have "\<not> rec_bad b' n off" using h(2) r by (simp add: rec_bad_def)
      moreover have "dir_entries b' n ?o = map_option ((@) pre) (dir_entries b' n e)"
        using ih(5) that by auto
      ultimately show ?thesis using h(1)
        by (subst dir_entries_step) (simp_all add: r g option.map_comp comp_def append_Cons_fun)
    qed
    then have "\<exists>pre. \<forall>b'. n \<le> length b' \<longrightarrow> (\<forall>k. off \<le> k \<longrightarrow> k < e \<longrightarrow> b' ! k = b ! k) \<longrightarrow>
        dir_entries b' n off = map_option ((@) pre) (dir_entries b' n e)" by blast
    then show ?thesis using ih(1-4) by simp
  qed
qed

definition slot_room :: "bytes \<Rightarrow> nat \<Rightarrow> nat" where
  "slot_room b e = rec_len b e - (if rec_ino b e = 0 then 0 else rec_size (rec_namlen b e))"

lemma dir_insert_entries:
  assumes "dir_slot b n (rec_size (length name)) 0 = Found e" "n \<le> length b" "n \<le> 512" "length name \<le> 255"
    and "ino \<noteq> 0" "slot_room b e \<noteq> rec_size (length name) + 4" "dir_entries b n 0 = Some es"
  shows "\<exists>b' xs ys. dir_insert b e name ino type = Some b' \<and> length b' = length b \<and> es = xs @ ys \<and>
    dir_entries b' n 0 = Some (xs @ (name, ino) # ys)"
proof -
  from dir_slot_prefix [OF assms(1,2)] obtain pre where
    e: "e + 8 \<le> n" "\<not> rec_bad b n e" "slot_fits b (rec_size (length name)) e"
    "\<forall>b'. n \<le> length b' \<longrightarrow> (\<forall>k. 0 \<le> k \<longrightarrow> k < e \<longrightarrow> b' ! k = b ! k) \<longrightarrow>
      dir_entries b' n 0 = map_option ((@) pre) (dir_entries b' n e)" by auto
  have len: "rec_len b e mod 4 = 0" "e + rec_len b e \<le> n" "rec_namlen b e \<le> 255" "8 \<le> rec_len b e"
    using e(1,2) by (auto simp: not_rec_bad)
  from assms(7) e(4) assms(2) obtain es1 where es1: "dir_entries b n e = Some es1" "es = pre @ es1" by auto
  let ?x = "if rec_ino b e = 0 then [] else [(get_bytes b (e + 8) (rec_namlen b e), rec_ino b e)]"
  from es1(1) e(1,2) obtain es2 where es2: "dir_entries b n (e + rec_len b e) = Some es2" "es1 = ?x @ es2"
    by (auto simp: dir_entries_step)
  have "\<exists>b'. dir_insert b e name ino type = Some b' \<and> length b' = length b \<and> (\<forall>k < e. b' ! k = b ! k) \<and>
    dir_entries b' n e = Some (?x @ (name, ino) # es2)"
  proof (cases "rec_ino b e = 0")
    case True
    have "rec_len b e \<noteq> rec_size (length name) + 4" "rec_size (length name) \<le> rec_len b e"
      using assms(6) e(3) True by (simp_all add: slot_room_def slot_fits_def)
    from dir_put_entries [OF assms(2) len(2) assms(3,4) len(1) assms(5) this(2,1), of type] es2(1) len(2) assms(2)
    show ?thesis using True by (auto simp: dir_insert_def Let_def)
  next
    case False
    let ?o = "rec_size (rec_namlen b e)"
    note sz = rec_size_facts [OF len(3)]
    have room: "?o \<le> rec_len b e" "rec_size (length name) \<le> rec_len b e - ?o"
      "rec_len b e - ?o \<noteq> rec_size (length name) + 4"
      using assms(6) e(3) False by (simp_all add: slot_room_def slot_fits_def)
    let ?b = "put_bytes b (e + 4) (bytes_of_le16 (of_nat ?o))"
    have b: "length ?b = length b" "\<And>k. k < e + 4 \<or> e + 6 \<le> k \<Longrightarrow> k < length b \<Longrightarrow> ?b ! k = b ! k"
      using e(1) assms(2) by (auto simp: put_bytes_nth)
    have "(rec_len b e - ?o) mod 4 = 0" using len(1) sz by (simp add: mod4_diff)
    then have pre: "n \<le> length ?b" "e + ?o + (rec_len b e - ?o) \<le> n" "(rec_len b e - ?o) mod 4 = 0"
      using b(1) len assms(2) room(1) by simp_all
    have tail: "dir_entries ?b n (e + rec_len b e) = dir_entries b n (e + rec_len b e)"
      by (rule dir_entries_cong [of "e + rec_len b e"]) (use b assms(2) len in \<open>auto simp: same_from_def\<close>)
    from dir_put_entries [OF pre(1,2) assms(3,4) pre(3) assms(5) room(2,3), of type] obtain b' where
      b': "dir_put ?b (e + ?o) (rec_len b e - ?o) (rec_size (length name)) name ino type = Some b'"
      "length b' = length ?b" "\<forall>k < length ?b. k < e + ?o \<or> e + ?o + (rec_len b e - ?o) \<le> k \<longrightarrow> b' ! k = ?b ! k"
      "dir_entries b' n (e + ?o) = Some ((name, ino) # es2)"
      using tail es2(1) room(1) by auto
    have "dir_insert b e name ino type = Some b'"
      using False b'(1) e(1) assms(2) by (simp add: dir_insert_def Let_def)
    moreover have keep: "\<forall>k < e. b' ! k = b ! k" using b' b e(1) assms(2) by auto
    moreover have "same_from e (e + ?o) ?b b'"
      using b'(2,3) b(1) room(1) len(2) assms(2) by (auto simp: same_from_def)
    note s = same_from_rec(1-3) [OF this order_refl] same_from_get [OF this]
    have h: "rec_ino ?b e = rec_ino b e" "rec_namlen ?b e = rec_namlen b e" "rec_len ?b e = ?o"
      using e(1) assms(2) sz by (simp_all add: rec_ino_def le32_at_def rec_namlen_def put_bytes_nth rec_len_def
        le16_at_def buf_simps unat_of_nat_u16)
    have g: "get_bytes b' (e + 8) (rec_namlen b e) = get_bytes b (e + 8) (rec_namlen b e)"
      using s(4) [of "e + 8" "rec_namlen b e"] sz room(1) len(2) assms(2) by (simp add: get_put_disjoint)
    have r: "rec_ino b' e = rec_ino b e" "rec_namlen b' e = rec_namlen b e" "rec_len b' e = ?o"
      using s(1-3) h sz by auto
    have "\<not> rec_bad b' n e" using r sz len(3) room(1) len(2) by (simp add: not_rec_bad)
    then have "dir_entries b' n e = Some (?x @ (name, ino) # es2)"
      using e(1) b'(4) False by (subst dir_entries_step) (simp_all add: r g)
    ultimately show ?thesis using b'(2) b(1) by auto
  qed
  then obtain b' where b': "dir_insert b e name ino type = Some b'" "length b' = length b" "\<forall>k < e. b' ! k = b ! k"
    "dir_entries b' n e = Some (?x @ (name, ino) # es2)" by auto
  have "dir_entries b' n 0 = Some ((pre @ ?x) @ (name, ino) # es2)"
    using e(4) b' assms(2) by simp
  then show ?thesis using b'(1,2) es1(2) es2(2) by (intro exI [of _ b'] exI [of _ "pre @ ?x"] exI [of _ es2]) simp
qed

text \<open>A gap of four bytes: the length of the free record is written past it.\<close>

lemma free_record_4:
  assumes "off + 6 \<le> length b"
  shows "length (free_record b off 4) = length b" "rec_len (free_record b off 4) off = 4"
    "k < off \<Longrightarrow> free_record b off 4 ! k = b ! k"
  using assms by (auto simp: free_record_def rec_len_def le16_at_def put_bytes_nth buf_simps)

lemma dir_put_gap:
  assumes "length b = 512" "length name \<le> 255" "at + rec_size (length name) + 4 \<le> 512"
  shows "at + rec_size (length name) + 6 > 512 \<Longrightarrow>
      dir_put b at (rec_size (length name) + 4) (rec_size (length name)) name ino type = None"
    and "at + rec_size (length name) + 8 \<le> 512 \<Longrightarrow>
      \<exists>r. dir_put b at (rec_size (length name) + 4) (rec_size (length name)) name ino type = Some r \<and>
        length r = 512 \<and> (\<forall>k < at. r ! k = b ! k) \<and> dir_entries r 512 at = None"
proof -
  let ?m = "rec_size (length name)"
  note sz = rec_size_facts [OF assms(2)]
  show "dir_put b at (?m + 4) ?m name ino type = None" if "at + ?m + 6 > 512"
    using that assms(1,3) by (simp add: dir_put_def store_bytes_def)
  assume a: "at + ?m + 8 \<le> 512"
  let ?b = "free_record b (at + ?m) 4"
  have f: "length ?b = length b" "rec_len ?b (at + ?m) = 4" "\<And>k. k < at + ?m \<Longrightarrow> ?b ! k = b ! k"
    using free_record_4 [of "at + ?m" b] a assms(1) by auto
  define r where "r = dir_record ?b at ?m ?m name ino type"
  have pre: "at + ?m \<le> length ?b" "length name + 8 \<le> ?m" "?m < 65536" using f(1) a assms(1) sz by auto
  note rf = dir_record_facts [OF pre(1,2) assms(2) pre(3), where ino = ino and type = type, folded r_def]
  have put: "dir_put b at (?m + 4) ?m name ino type = Some r"
    using a assms(1) sz by (simp add: dir_put_def r_def dir_record_def free_record_def)
  have "same_from (at + ?m) 512 ?b r" using rf(1,6) f(1) assms(1) by (auto simp: same_from_def)
  then have "rec_len r (at + ?m) = 4" using same_from_rec(2) [OF _ order_refl a] f(2) by simp
  then have "dir_entries r 512 (at + ?m) = None" using a by (subst dir_entries.simps) (simp add: rec_bad_def)
  moreover have "\<not> rec_bad r 512 at" using rf(3,4) sz a assms(2) by (simp add: not_rec_bad)
  ultimately have "dir_entries r 512 at = None" using a rf(3) by (subst dir_entries_step) simp_all
  moreover have "\<forall>k < at. r ! k = b ! k" using rf(6) f a assms(1) by auto
  ultimately show "\<exists>r. dir_put b at (?m + 4) ?m name ino type = Some r \<and> length r = 512 \<and>
      (\<forall>k < at. r ! k = b ! k) \<and> dir_entries r 512 at = None"
    using put rf(1) f(1) assms(1) by auto
qed

lemma dir_insert_gap_core:
  assumes "dir_slot b 512 (rec_size (length name)) 0 = Found e" "length b = 512" "length name \<le> 255"
    and "slot_room b e = rec_size (length name) + 4"
  shows "e + rec_len b e = 512 \<Longrightarrow> dir_insert b e name ino type = None"
    and "e + rec_len b e + 8 \<le> 512 \<Longrightarrow>
      \<exists>b'. dir_insert b e name ino type = Some b' \<and> dir_entries b' 512 0 = None"
proof -
  let ?m = "rec_size (length name)"
  let ?k = "if rec_ino b e = 0 then 0 else rec_size (rec_namlen b e)"
  let ?b = "if rec_ino b e = 0 then b else put_bytes b (e + 4) (bytes_of_le16 (of_nat ?k))"
  from assms(2) dir_slot_prefix [OF assms(1)] obtain pre where
    e: "e + 8 \<le> 512" "\<not> rec_bad b 512 e" "slot_fits b ?m e"
    "\<forall>b'. 512 \<le> length b' \<longrightarrow> (\<forall>k. 0 \<le> k \<longrightarrow> k < e \<longrightarrow> b' ! k = b ! k) \<longrightarrow>
      dir_entries b' 512 0 = map_option ((@) pre) (dir_entries b' 512 e)" by auto
  have len: "rec_len b e = ?k + ?m + 4" "e + rec_len b e \<le> 512" "rec_namlen b e \<le> 255"
    using e(2,3) e(1) assms(4) by (auto simp: slot_room_def slot_fits_def not_rec_bad split: if_splits)
  have ins: "dir_insert b e name ino type = dir_put ?b (e + ?k) (?m + 4) ?m name ino type"
    using len(1) e(1) assms(2) by (auto simp: dir_insert_def Let_def)
  have b: "length ?b = 512" "\<And>k. k < e \<Longrightarrow> ?b ! k = b ! k" using assms(2) e(1) by (auto simp: put_bytes_nth)
  have at: "e + ?k + ?m + 4 \<le> 512" using len by simp
  show "dir_insert b e name ino type = None" if "e + rec_len b e = 512"
    unfolding ins by (rule dir_put_gap(1) [OF b(1) assms(3) at]) (use that len(1) in simp)
  assume "e + rec_len b e + 8 \<le> 512"
  then have "e + ?k + ?m + 8 \<le> 512" using len(1) by simp
  from dir_put_gap(2) [OF b(1) assms(3) at this] obtain r where
    r: "dir_insert b e name ino type = Some r" "length r = 512" "\<forall>k < e + ?k. r ! k = ?b ! k"
      "dir_entries r 512 (e + ?k) = None" unfolding ins by blast
  have "dir_entries r 512 e = None"
  proof (cases "rec_ino b e = 0")
    case False
    let ?o = "rec_size (rec_namlen b e)"
    note sz = rec_size_facts [OF len(3)]
    have "same_from e (e + ?o) ?b r" using r(2,3) b(1) len False by (auto simp: same_from_def)
    from same_from_rec(2) [OF this order_refl] have "rec_len r e = ?o"
      using sz False e(1) assms(2) by (simp add: rec_len_def le16_at_def buf_simps unat_of_nat_u16)
    then show ?thesis using r(4) False e(1) by (subst dir_entries.simps) simp
  qed (use r(4) in simp)
  moreover have "dir_entries r 512 0 = map_option ((@) pre) (dir_entries r 512 e)"
    using e(4) r(2,3) b(2) by simp
  ultimately show "\<exists>b'. dir_insert b e name ino type = Some b' \<and> dir_entries b' 512 0 = None"
    using r(1) by simp
qed

section \<open>Properties of directory regions\<close>

text \<open>C12. The insertion of \<^verbatim>\<open>ufs2_dirlink\<close> refines its specification: where a region of at most
  512 bytes has a slot for the new name and the slot does not exceed the new record by
  exactly four bytes, the region afterwards is a sound chain whose live entries are the
  old ones, in order, with the new entry added; a lookup of the new name returns the new
  inode, and a lookup of another name returns what it returned before.\<close>

theorem dir_insert_refines:
  assumes "dir_slot b n (rec_size (length name)) 0 = Found e" "n \<le> length b" "n \<le> 512" "length name \<le> 255"
    and "ino \<noteq> 0" "slot_room b e \<noteq> rec_size (length name) + 4"
    and "dir_entries b n 0 = Some es" "dir_find b n name 0 = Absent"
  shows "\<exists>b' xs ys. dir_insert b e name ino type = Some b' \<and> es = xs @ ys \<and>
    dir_entries b' n 0 = Some (xs @ (name, ino) # ys) \<and>
    (\<exists>f. dir_find b' n name 0 = Found f \<and> rec_ino b' f = ino) \<and>
    (\<forall>other. other \<noteq> name \<longrightarrow>
      (case dir_find b' n other 0 of Found f \<Rightarrow> map_of es other = Some (rec_ino b' f)
       | Absent \<Rightarrow> map_of es other = None | Bad \<Rightarrow> False))"
proof -
  from dir_insert_entries [OF assms(1-7)] obtain b' xs ys where
    b': "dir_insert b e name ino type = Some b'" "length b' = length b" "es = xs @ ys"
      "dir_entries b' n 0 = Some (xs @ (name, ino) # ys)" by blast
  have n: "n \<le> length b'" using b'(2) assms(2) by simp
  have "map_of es name = None" using dir_find_entries [OF assms(7,2), of name] assms(8) by simp
  then have new: "map_of (xs @ (name, ino) # ys) name = Some ino"
    using b'(3) by (simp add: map_add_def split: option.splits)
  have other: "map_of (xs @ (name, ino) # ys) x = map_of es x" if "x \<noteq> name" for x
    using that b'(3) by (simp add: map_add_def split: option.splits)
  note f = dir_find_entries [OF b'(4) n]
  have "\<exists>f. dir_find b' n name 0 = Found f \<and> rec_ino b' f = ino"
    using f [of name] new by (auto split: scan.splits)
  moreover have "case dir_find b' n x 0 of Found f \<Rightarrow> map_of es x = Some (rec_ino b' f)
       | Absent \<Rightarrow> map_of es x = None | Bad \<Rightarrow> False" if "x \<noteq> name" for x
    using f [of x] unfolding other [OF that] .
  ultimately show ?thesis using b'(1,3,4) by blast
qed

lemma demo_region: 
  defines "b \<equiv> free_record (free_record (replicate 512 0) 0 16) 16 496"
  shows "length b = 512" "rec_ino b 0 = 0" "rec_len b 0 = 16" "rec_namlen b 0 = 0"
    "rec_ino b 16 = 0" "rec_len b 16 = 496" "rec_namlen b 16 = 0"
proof -
  let ?a = "free_record (replicate 512 0) 0 16"
  have a: "length ?a = 512" "rec_ino ?a 0 = 0" "rec_len ?a 0 = 16" "rec_namlen ?a 0 = 0"
    using free_record_facts(1-4) [of 0 16 "replicate 512 0"] by auto
  show "length b = 512" "rec_ino b 16 = 0" "rec_len b 16 = 496" "rec_namlen b 16 = 0"
    using free_record_facts(1-4) [of 16 496 ?a] a(1) by (auto simp: b_def)
  have "same_from 0 16 ?a b" using free_record_facts(1,5) [of 16 496 ?a] a(1) by (auto simp: same_from_def b_def)
  from same_from_rec(1-3) [OF this] a(2-4)
  show "rec_ino b 0 = 0" "rec_len b 0 = 16" "rec_namlen b 0 = 0" by auto
qed

theorem dir_insert_refines_witness:
  "\<exists>b' f. dir_insert (free_record (free_record (replicate 512 0) 0 16) 16 496) 0 [101, 116, 99, 46, 99] 9 8 = Some b' \<and>
     dir_find b' 512 [101, 116, 99, 46, 99] 0 = Found f \<and> rec_ino b' f = 9"
proof -
  let ?b = "free_record (free_record (replicate 512 0) 0 16) 16 496"
  have sz: "rec_size (length [101, 116, 99, 46, 99 :: u8]) = 16" by (simp add: rec_size_eq)
  have nb: "\<not> rec_bad ?b 512 0" "\<not> rec_bad ?b 512 16" using demo_region by (simp_all add: not_rec_bad)
  have "dir_slot ?b 512 (rec_size (length [101, 116, 99, 46, 99 :: u8])) 0 = Found 0"
    using nb demo_region by (subst dir_slot.simps) (simp add: slot_fits_def sz del: list.size)
  moreover have "dir_entries ?b 512 0 = Some []"
    using nb demo_region by (simp add: dir_entries_step) (subst dir_entries.simps, simp)
  moreover have "dir_find ?b 512 [101, 116, 99, 46, 99] 0 = Absent"
    using nb demo_region by (subst dir_find.simps, simp add: rec_matches_def, subst dir_find.simps,
        simp add: rec_matches_def, subst dir_find.simps, simp)
  moreover have "slot_room ?b 0 \<noteq> rec_size (length [101, 116, 99, 46, 99 :: u8]) + 4"
    using demo_region by (simp add: slot_room_def sz del: list.size)
  ultimately show ?thesis
    using dir_insert_refines [of ?b 512 "[101, 116, 99, 46, 99]" 0 9 "[]" 8] demo_region(1) by auto
qed

text \<open>C30. A slot that exceeds the new record by exactly four bytes, such as the slot of a
  removed five-letter name that gets a three-letter one, is handled wrongly.  The length
  of the remaining free record is written four bytes past the start of the gap, which is
  the header of the next record: the chain of the region is broken there.  Where the slot
  is the last of the region, the write leaves the 512-byte buffer.\<close>

theorem dir_insert_gap:
  assumes "dir_slot b 512 (rec_size (length name)) 0 = Found e" "length b = 512" "length name \<le> 255"
    and "slot_room b e = rec_size (length name) + 4"
  shows "(e + rec_len b e = 512 \<longrightarrow> dir_insert b e name ino type = None) \<and>
    (e + rec_len b e + 8 \<le> 512 \<longrightarrow>
      (\<exists>b'. dir_insert b e name ino type = Some b' \<and> dir_entries b' 512 0 = None))"
  using dir_insert_gap_core [OF assms] by blast

theorem dir_insert_gap_witness:
  "\<exists>b'. dir_insert (free_record (free_record (replicate 512 0) 0 16) 16 496) 0 [101, 116, 99] 9 8 = Some b' \<and>
     dir_entries b' 512 0 = None"
proof -
  let ?b = "free_record (free_record (replicate 512 0) 0 16) 16 496"
  have sz: "rec_size (length [101, 116, 99 :: u8]) = 12" by (simp add: rec_size_eq)
  have "\<not> rec_bad ?b 512 0" using demo_region by (simp_all add: not_rec_bad)
  then have "dir_slot ?b 512 (rec_size (length [101, 116, 99 :: u8])) 0 = Found 0"
    using demo_region by (subst dir_slot.simps) (simp add: slot_fits_def sz del: list.size)
  moreover have "slot_room ?b 0 = rec_size (length [101, 116, 99 :: u8]) + 4"
    using demo_region by (simp add: slot_room_def sz del: list.size)
  ultimately show ?thesis
    using dir_insert_gap [of ?b "[101, 116, 99]" 0 9 8] demo_region by simp
qed

end
