(* ===== verification/Txn.thy ===== *)
theory Txn
  imports Log
begin

text \<open>
  Blocks under the log: the two idioms with which the file systems of \<^verbatim>\<open>kern/fs.c\<close> and
  \<^verbatim>\<open>kern/fat32.c\<close> read and change a block inside a transaction, and their laws over the
  view of the blocks and the room left in the log.
\<close>

section \<open>Blocks under the log\<close>

text \<open>The two idioms of the file systems: \<^verbatim>\<open>bread\<close>, look, \<^verbatim>\<open>brelse\<close>, and \<^verbatim>\<open>bread\<close>, change,
  \<^verbatim>\<open>log_write\<close>, \<^verbatim>\<open>brelse\<close>.\<close>

definition read_block :: "u32 \<Rightarrow> u32 \<Rightarrow> 'a bio_state_scheme \<Rightarrow> (bytes \<times> 'a bio_state_scheme) option" where
  "read_block dev n s = do {
     (i, s) \<leftarrow> bread dev n s;
     let d = b_data (bcache s i);
     s \<leftarrow> brelse i s;
     Some (d, s) }"

definition modify_block :: "u32 \<Rightarrow> u32 \<Rightarrow> (bytes \<Rightarrow> bytes) \<Rightarrow> 'a log_state_scheme \<Rightarrow> 'a log_state_scheme option" where
  "modify_block dev n f s = do {
     (i, s) \<leftarrow> bread dev n s;
     s \<leftarrow> log_write i (set_data i (f (b_data (bcache s i))) s);
     brelse i s }"

section \<open>Transactions\<close>

text \<open>Inside an operation, with no buffer held: what the file system may rely on between
  two block accesses.\<close>

definition txn :: "'a log_state_scheme \<Rightarrow> bool" where
  "txn s \<longleftrightarrow> log_txn s \<and> held_keys s = {}"

definition txn_room :: "'a log_state_scheme \<Rightarrow> int" where
  "txn_room s = lg_size s - 1 - int (length (lg_lh s))"

definition txn_frame :: "'a log_state_scheme \<Rightarrow> 'a log_state_scheme \<Rightarrow> bool" where
  "txn_frame s t \<longleftrightarrow> io_ok t = io_ok s \<and> curpid t = curpid s \<and> lg_dev t = lg_dev s \<and>
     log_state.more t = log_state.more s"

lemma txn_frame_refl [simp]: "txn_frame s s"
  by (simp add: txn_frame_def)

lemma txn_frame_trans [trans]: "txn_frame s t \<Longrightarrow> txn_frame t u \<Longrightarrow> txn_frame s u"
  by (simp add: txn_frame_def)

lemma txn_frameD:
  assumes "txn_frame s t"
  shows "io_ok t = io_ok s" "lg_dev t = lg_dev s" "curpid t = curpid s" "log_state.more t = log_state.more s"
  using assms by (simp_all add: txn_frame_def)

lemma bio_txn_frame: "bio_frame s t \<Longrightarrow> txn_frame s t"
  using log_frame(1,8) [of s t] io_ok_frame [of s t] by (simp add: txn_frame_def bio_frame_def)

lemma txn_slot_free:
  assumes "txn s"
  shows "slot_free s"
proof -
  have p: "pinned s = {lg_dev s} \<times> set (lg_lh s)" "distinct (lg_lh s)" "int (length (lg_lh s)) < int NBUF"
    using assms by (auto simp: txn_def log_txn_def)
  then have "card (pinned s) < NBUF" by (simp add: card_cartesian_product distinct_card)
  then show ?thesis using assms by (simp add: slot_free_def txn_def)
qed

lemma log_txn_frame:
  assumes "bio_frame s t" "bio_inv t" "pinned t = pinned s" "log_txn s"
  shows "log_txn t"
  using assms log_frame [OF assms(1)] by (simp add: log_txn_def)

lemma txn_room_frame: "bio_frame s t \<Longrightarrow> txn_room t = txn_room s"
  using log_frame(3,4) [of s t] by (simp add: txn_room_def)

lemma read_block_ok:
  assumes "txn s" "io_ok s d n"
  obtains t where "read_block d n s = Some (bview s d n, t)" "txn t" "bview t = bview s"
    "txn_room t = txn_room s" "txn_frame s t"
proof -
  have h: "bio_inv s" "(d, n) \<notin> held_keys s" using assms(1) by (auto simp: txn_def log_txn_def)
  obtain i s1 t where t: "bread d n s = Some (i, s1)" "b_data (bcache s1 i) = bview s d n"
    "brelse i s1 = Some t" "bio_inv t" "held_keys t = held_keys s" "bview t = bview s" "disk t = disk s"
    "disk_log t = disk_log s" "pinned t = pinned s" "bio_frame s t"
    by (rule bread_release [OF h assms(2) txn_slot_free [OF assms(1)]])
  show ?thesis
  proof (rule that [of t])
    show "read_block d n s = Some (bview s d n, t)" using t(1-3) by (simp add: read_block_def)
    show "txn t" using assms(1) log_txn_frame [OF t(10,4,9)] t(5) by (simp add: txn_def)
  qed (use t(6) txn_room_frame [OF t(10)] bio_txn_frame [OF t(10)] in simp_all)
qed

lemma modify_block_ok:
  assumes "txn s" "io_ok s (lg_dev s) n" "0 < txn_room s" "length (f (bview s (lg_dev s) n)) = BSIZE"
  obtains t where "modify_block (lg_dev s) n f s = Some t" "txn t"
    "bview t = (bview s)(lg_dev s := (bview s (lg_dev s))(n := f (bview s (lg_dev s) n)))"
    "txn_room t \<ge> txn_room s - 1" "txn_frame s t"
proof -
  let ?d = "lg_dev s" and ?v = "f (bview s (lg_dev s) n)"
  have h: "bio_inv s" "(?d, n) \<notin> held_keys s" "held_keys s = {}" using assms(1) by (auto simp: txn_def log_txn_def)
  have r: "(?d, n) \<in> pinned s \<or> card (held_keys s) + card (pinned s) < NBUF"
    using txn_slot_free [OF assms(1)] by (simp add: slot_free_def)
  obtain i s1 where s1: "bread ?d n s = Some (i, s1)" "bio_inv s1" "holds s1 i ?d n"
    "b_data (bcache s1 i) = bview s ?d n"
    "\<forall>j d' n'. holds s j d' n' \<longrightarrow> holds s1 j d' n'" "held_keys s1 = insert (?d, n) (held_keys s)"
    "bview s1 = bview s" "pinned s1 = pinned s" "disk s1 = disk s" "disk_log s1 = disk_log s"
    "bio_frame s s1"
    by (rule bread_ok [OF h(1,2) assms(2) r])
  let ?s2 = "set_data i ?v s1"
  note p = set_data_ok [OF s1(2,3) assms(4)]
  have fr: "bio_frame s ?s2" using s1(11) p(8) by (simp add: bio_frame_def)
  have tx: "log_txn ?s2"
    using log_txn_frame [OF fr p(1)] p(5) s1(8) assms(1) by (simp add: txn_def)
  have d2: "lg_dev ?s2 = ?d" "lg_lh ?s2 = lg_lh s" "lg_size ?s2 = lg_size s"
    using log_frame(1,3,4) [OF fr] by simp_all
  have ho: "holds ?s2 i (lg_dev ?s2) n" using p(2) s1(3) d2(1) by simp
  have rm: "int (length (lg_lh ?s2)) < lg_size ?s2 - 1" using assms(3) d2 by (simp add: txn_room_def)
  from log_write_ok [OF tx ho rm] obtain s3 where s3: "log_write i ?s2 = Some s3" "log_txn s3"
    "lg_lh s3 = log_add n (lg_lh ?s2)" "pinned s3 = insert (?d, n) (pinned ?s2)" "bview s3 = bview ?s2"
    "holds s3 = holds ?s2" "held_keys s3 = held_keys ?s2" "bio_frame (?s2\<lparr>lg_lh := log_add n (lg_lh ?s2)\<rparr>) s3"
    unfolding d2(1) by blast
  have "(?d, n) \<in> pinned s3" unfolding s3(4) by simp
  then have h3: "bio_inv s3" "holds s3 i ?d n" "(?d, n) \<in> pinned s3 \<or> bview s3 ?d n = disk s3 ?d n"
    using s3(2,6) ho d2(1) by (simp_all only: log_txn_def simp_thms)
  obtain t where t: "brelse i s3 = Some t" "bio_inv t"
    "\<forall>j d' n'. holds t j d' n' \<longleftrightarrow> holds s3 j d' n' \<and> j \<noteq> i"
    "held_keys t = held_keys s3 - {(?d, n)}" "bview t = bview s3" "pinned t = pinned s3"
    "disk t = disk s3" "disk_log t = disk_log s3" "bio_frame s3 t"
    by (rule brelse_ok [OF h3])
  note f3 = log_frame [OF s3(8)] and ft = log_frame [OF t(9)]
  have len: "length (log_add n (lg_lh s)) \<le> Suc (length (lg_lh s))" by (simp add: log_add_def)
  show ?thesis
  proof (rule that [of t])
    show "modify_block ?d n f s = Some t" using s1(1,4) s3(1) t(1) by (simp add: modify_block_def)
    show "txn t"
      using log_txn_frame [OF t(9,2,6) s3(2)] t(4) s3(7) p(3) s1(6) h(3) by (simp add: txn_def)
    show "bview t = (bview s)(?d := (bview s ?d)(n := ?v))" using t(5) s3(5) p(4) s1(7) by simp
    show "txn_room t \<ge> txn_room s - 1" using len ft(3,4) f3(3,4) d2(2,3) by (simp add: txn_room_def)
    show "txn_frame s t"
      using bio_txn_frame [OF fr] bio_txn_frame [OF t(9)] bio_txn_frame [OF s3(8)]
      by (simp add: txn_frame_def)
  qed
qed

text \<open>The buffer got has the block's content; so an operation that decides on the content
  is one of the two idioms.\<close>

lemma bread_data:
  assumes "txn s" "io_ok s d n"
  obtains i s1 where "bread d n s = Some (i, s1)" "b_data (bcache s1 i) = bview s d n"
    "\<forall>f. modify_block d n f s = log_write i (set_data i (f (bview s d n)) s1) \<bind> brelse i"
    "read_block d n s = map_option (Pair (bview s d n)) (brelse i s1)" "bio_frame s s1"
proof -
  have h: "bio_inv s" "(d, n) \<notin> held_keys s" using assms(1) by (auto simp: txn_def log_txn_def)
  have r: "(d, n) \<in> pinned s \<or> card (held_keys s) + card (pinned s) < NBUF"
    using txn_slot_free [OF assms(1)] by (simp add: slot_free_def)
  obtain i s1 where s1: "bread d n s = Some (i, s1)" "bio_inv s1" "holds s1 i d n"
    "b_data (bcache s1 i) = bview s d n"
    "\<forall>j d' n'. holds s j d' n' \<longrightarrow> holds s1 j d' n'" "held_keys s1 = insert (d, n) (held_keys s)"
    "bview s1 = bview s" "pinned s1 = pinned s" "disk s1 = disk s" "disk_log s1 = disk_log s"
    "bio_frame s s1"
    by (rule bread_ok [OF h assms(2) r])
  show ?thesis
    by (rule that [OF s1(1,4)])
      (auto simp: modify_block_def read_block_def s1(1,4,11) split: option.splits bind_splits)
qed

section \<open>A machine inside an operation\<close>

text \<open>A RAM disk of the given size and content, with an empty log of 30 blocks at block 2
  and one operation under way; \<open>m\<close> is the state of the layers above.\<close>

definition txn_machine :: "u64 \<Rightarrow> (u32 \<Rightarrow> bytes) \<Rightarrow> 'a \<Rightarrow> 'a log_state_scheme" where
  "txn_machine k D m =
     \<lparr>bcache = bcache (ram_machine k), mru = mru (ram_machine k), disk = (\<lambda>_. D),
      dev_sectors = (\<lambda>_. 0)(28 := k), dev_present = (\<lambda>_. False), io_err = (\<lambda>_ _. False), disk_log = [],
      curpid = 1, lg_start = 2, lg_size = 30, lg_outstanding = 1, lg_committing = False, lg_dev = 28,
      lg_lh = [], lg_readonly = False, \<dots> = m\<rparr>"

lemma txn_machine_ok:
  assumes "\<And>n. length (D n) = BSIZE"
  shows "txn (txn_machine k D m)" "txn_room (txn_machine k D m) = 29"
    "io_ok (txn_machine k D m) 28 n \<longleftrightarrow> ucast n + 1 \<le> k" "bview (txn_machine k D m) = (\<lambda>_. D)"
    "lg_dev (txn_machine k D m) = 28" "log_state.more (txn_machine k D m) = m"
proof -
  let ?r = "(ram_machine k)\<lparr>disk := \<lambda>_. D\<rparr>"
  have r: "?r = binit (?r)" by (simp add: ram_machine_def binit_def)
  have i: "bio_inv ?r" "held_keys ?r = {}" "pinned ?r = {}" "bview ?r = (\<lambda>_. D)"
    by (subst r, subst binit_inv; simp add: assms ram_machine_def binit_def)+
  have eq: "bcache (txn_machine k D m) = bcache ?r" "mru (txn_machine k D m) = mru ?r"
    "disk (txn_machine k D m) = disk ?r" "curpid (txn_machine k D m) = curpid ?r"
    by (simp_all add: txn_machine_def ram_machine_def binit_def)
  note c = bio_cong(1-4) [OF eq]
  show "txn (txn_machine k D m)" using c i by (simp add: txn_def log_txn_def) (simp add: txn_machine_def)
  show "bview (txn_machine k D m) = (\<lambda>_. D)" using c i by simp
qed (simp_all add: txn_machine_def txn_room_def io_ok_def)

end
