(* ===== verification/Fat32.thy ===== *)
theory Fat32
  imports Txn
begin

text \<open>
  \<^verbatim>\<open>kern/fat32.c\<close>: the FAT32 driver over the buffer cache and the log.  Results are in the
  option monad, \<open>None\<close> being no return: a panic below, a division by zero, an access
  outside the caller's buffer, or a loop that follows the cluster chain for ever.  The
  fields of an in-core inode that the driver uses are the record \<open>fat_info\<close>.
\<close>

section \<open>The volume\<close>

record fat_state = log_state +
  fv_fat_start :: u32
  fv_data_start :: u32
  fv_spc :: u32
  fv_total_sectors :: u32
  fv_root_cluster :: u32
  fv_valid :: bool

record fat_info =
  fi_cluster :: u32
  fi_attr :: u8
  fi_parent_cluster :: u32
  fi_dir_off :: u32

abbreviation FAT32_ATTR_DIRECTORY :: u8 where "FAT32_ATTR_DIRECTORY \<equiv> 0x10"
abbreviation FAT32_ATTR_LONG_NAME :: u8 where "FAT32_ATTR_LONG_NAME \<equiv> 0x0f"

definition cluster_to_sector :: "'a fat_state_scheme \<Rightarrow> u32 \<Rightarrow> u32" where
  "cluster_to_sector s cluster = fv_data_start s + (cluster - 2) * fv_spc s"

definition bytes_per_cluster :: "'a fat_state_scheme \<Rightarrow> u32" where
  "bytes_per_cluster s = fv_spc s * 512"

definition fat_sector :: "'a fat_state_scheme \<Rightarrow> u32 \<Rightarrow> u32" where
  "fat_sector s cluster = fv_fat_start s + (cluster * 4) div 512"

definition fat_offset :: "u32 \<Rightarrow> nat" where
  "fat_offset cluster = unat ((cluster * 4) mod 512)"

definition is_eof :: "u32 \<Rightarrow> bool" where
  "is_eof cluster \<longleftrightarrow> cluster \<ge> 0x0ffffff8"

definition set_next_cluster :: "u32 \<Rightarrow> u32 \<Rightarrow> u32 \<Rightarrow> 'a fat_state_scheme \<Rightarrow> 'a fat_state_scheme option" where
  "set_next_cluster dev cluster nxt s =
     modify_block dev (fat_sector s cluster)
       (\<lambda>d. put_bytes d (fat_offset cluster) (bytes_of_le32 (nxt AND 0x0fffffff))) s"

definition next_cluster :: "u32 \<Rightarrow> u32 \<Rightarrow> 'a fat_state_scheme \<Rightarrow> (u32 \<times> 'a fat_state_scheme) option" where
  "next_cluster dev cluster s = do {
     (d, s) \<leftarrow> read_block dev (fat_sector s cluster) s;
     Some (le32_of (get_bytes d (fat_offset cluster) 4) AND 0x0fffffff, s) }"

fun zero_sectors :: "u32 \<Rightarrow> u32 \<Rightarrow> u32 list \<Rightarrow> 'a fat_state_scheme \<Rightarrow> 'a fat_state_scheme option" where
  "zero_sectors dev sector [] s = Some s"
| "zero_sectors dev sector (i # is) s = do {
     s \<leftarrow> modify_block dev (sector + i) (\<lambda>_. replicate 512 0) s;
     zero_sectors dev sector is s }"

fun alloc_cluster_scan :: "u32 \<Rightarrow> u32 list \<Rightarrow> 'a fat_state_scheme \<Rightarrow> (u32 \<times> 'a fat_state_scheme) option" where
  "alloc_cluster_scan dev [] s = None"
| "alloc_cluster_scan dev (c # cs) s = do {
     (i, s) \<leftarrow> bread dev (fat_sector s c) s;
     let d = b_data (bcache s i);
     if le32_of (get_bytes d (fat_offset c) 4) AND 0x0fffffff = 0 then do {
       s \<leftarrow> log_write i (set_data i (put_bytes d (fat_offset c) (bytes_of_le32 0x0fffffff)) s);
       s \<leftarrow> brelse i s;
       s \<leftarrow> zero_sectors dev (cluster_to_sector s c) (upto32 (fv_spc s)) s;
       Some (c, s)
     } else do {
       s \<leftarrow> brelse i s;
       alloc_cluster_scan dev cs s } }"

definition alloc_cluster :: "u32 \<Rightarrow> 'a fat_state_scheme \<Rightarrow> (u32 \<times> 'a fat_state_scheme) option" where
  "alloc_cluster dev s =
     (if fv_spc s = 0 then None
      else alloc_cluster_scan dev (drop 2 (upto32 (fv_total_sectors s div fv_spc s))) s)"

definition fat32_init :: "u32 \<Rightarrow> 'a fat_state_scheme \<Rightarrow> 'a fat_state_scheme option" where
  "fat32_init dev s = do {
     (d, s) \<leftarrow> read_block dev 0 s;
     if d ! 66 \<noteq> 0x28 \<and> d ! 66 \<noteq> 0x29 then Some s
     else let reserved = ucast (le16_of (get_bytes d 14 2)) :: u32 in
       Some (s\<lparr>fv_fat_start := reserved,
         fv_data_start := reserved + ucast (d ! 16) * le32_of (get_bytes d 36 4),
         fv_spc := ucast (d ! 13), fv_total_sectors := le32_of (get_bytes d 32 4),
         fv_root_cluster := le32_of (get_bytes d 44 4), fv_valid := True\<rparr>) }"

fun read_cluster_sectors :: "u32 \<Rightarrow> u32 \<Rightarrow> nat \<Rightarrow> u32 list \<Rightarrow> 'a fat_state_scheme \<Rightarrow> (bytes \<times> 'a fat_state_scheme) option" where
  "read_cluster_sectors dev sector n [] s = Some ([], s)"
| "read_cluster_sectors dev sector n (i # is) s =
     (if n = 0 then Some ([], s)
      else do {
        (d, s) \<leftarrow> read_block dev (sector + i) s;
        (rest, s) \<leftarrow> read_cluster_sectors dev sector (n - min n 512) is s;
        Some (take n d @ rest, s) })"

definition fat32_read_cluster :: "u32 \<Rightarrow> u32 \<Rightarrow> u32 \<Rightarrow> 'a fat_state_scheme \<Rightarrow> (int \<times> bytes \<times> 'a fat_state_scheme) option" where
  "fat32_read_cluster dev cluster n s =
     (if \<not> fv_valid s then Some (-1, [], s)
      else do {
        (bs, s) \<leftarrow> read_cluster_sectors dev (cluster_to_sector s cluster) (unat n) (upto32 (fv_spc s)) s;
        Some (0, bs, s) })"

section \<open>Names and directory entries\<close>

definition to_upper :: "u8 \<Rightarrow> u8" where
  "to_upper c = (if 97 \<le> c \<and> c \<le> 122 then c - 97 + 65 else c)"

definition pad :: "nat \<Rightarrow> bytes \<Rightarrow> bytes" where
  "pad n bs = take n (map to_upper bs) @ replicate (n - length bs) 32"

definition generate_83_name :: "bytes \<Rightarrow> bytes" where
  "generate_83_name name =
     (let base = takeWhile (\<lambda>c. c \<noteq> 46) name in
      pad 8 base @ pad 3 (drop (length base + 1) name))"

definition dirent_at :: "bytes \<Rightarrow> nat \<Rightarrow> bytes" where
  "dirent_at d j = get_bytes d (j * 32) 32"

definition dirent_cluster :: "bytes \<Rightarrow> u32" where
  "dirent_cluster de = push_bit 16 (ucast (le16_of (get_bytes de 20 2))) OR ucast (le16_of (get_bytes de 26 2))"

definition cluster_fields :: "u32 \<Rightarrow> bytes \<Rightarrow> bytes" where
  "cluster_fields c de = put_bytes (put_bytes de 20 (bytes_of_le16 (ucast (drop_bit 16 c AND 0xffff))))
     26 (bytes_of_le16 (ucast (c AND 0xffff)))"

section \<open>Lookup\<close>

text \<open>The entry that ends the scan of a sector: the first unused one, or the first with
  the name; deleted and long-name entries are skipped.\<close>

fun lookup_entries :: "bytes \<Rightarrow> bytes \<Rightarrow> nat list \<Rightarrow> (nat \<times> bool) option" where
  "lookup_entries d fatname [] = None"
| "lookup_entries d fatname (j # js) =
     (let de = dirent_at d j in
      if de ! 0 = 0 then Some (j, False)
      else if de ! 0 = 0xe5 \<or> de ! 11 = FAT32_ATTR_LONG_NAME then lookup_entries d fatname js
      else if take 11 de = fatname then Some (j, True)
      else lookup_entries d fatname js)"

text \<open>The result of \<^verbatim>\<open>fat32_lookup\<close>: the value returned, the entry stored in \<^verbatim>\<open>*res\<close> and the
  offset stored in \<^verbatim>\<open>*off\<close>, where they are.\<close>

type_synonym lookup_result = "u32 \<times> bytes option \<times> u32 option"

fun lookup_sectors :: "u32 \<Rightarrow> bytes \<Rightarrow> u32 \<Rightarrow> u32 \<Rightarrow> u32 list \<Rightarrow> 'a fat_state_scheme \<Rightarrow> (lookup_result option \<times> 'a fat_state_scheme) option" where
  "lookup_sectors dev fatname sector base [] s = Some (None, s)"
| "lookup_sectors dev fatname sector base (i # is) s = do {
     (d, s) \<leftarrow> read_block dev (sector + i) s;
     (case lookup_entries d fatname [0..<16] of
        None \<Rightarrow> lookup_sectors dev fatname sector base is s
      | Some (j, found) \<Rightarrow>
          let off = base + i * 512 + of_nat j * 32 in
          Some (Some (if found then (dirent_cluster (dirent_at d j), Some (dirent_at d j), Some off)
                      else (0, None, Some off)), s)) }"

partial_function (option) lookup_chain :: "u32 \<Rightarrow> bytes \<Rightarrow> u32 \<Rightarrow> u32 \<Rightarrow> 'a fat_state_scheme \<Rightarrow> (lookup_result \<times> 'a fat_state_scheme) option" where
  "lookup_chain dev fatname cluster n s =
     (if is_eof cluster then Some ((0, None, None), s)
      else do {
        (r, s) \<leftarrow> lookup_sectors dev fatname (cluster_to_sector s cluster) (n * fv_spc s * 512) (upto32 (fv_spc s)) s;
        if r \<noteq> None then Some (the r, s)
        else do {
          (nxt, s) \<leftarrow> next_cluster dev cluster s;
          lookup_chain dev fatname nxt (n + 1) s } })"

definition fat32_lookup :: "u32 \<Rightarrow> u32 \<Rightarrow> bytes \<Rightarrow> 'a fat_state_scheme \<Rightarrow> (lookup_result \<times> 'a fat_state_scheme) option" where
  "fat32_lookup dev dir_cluster name s = lookup_chain dev (generate_83_name name) dir_cluster 0 s"

definition dot_name :: bytes where "dot_name = 46 # replicate 10 32"
definition dotdot_name :: bytes where "dotdot_name = 46 # 46 # replicate 9 32"

definition entry_occupied :: "bytes \<Rightarrow> bool" where
  "entry_occupied de \<longleftrightarrow> de ! 0 \<noteq> 0 \<and> de ! 0 \<noteq> 0xe5 \<and> take 11 de \<noteq> dot_name \<and> take 11 de \<noteq> dotdot_name"

fun occupied_sectors :: "u32 \<Rightarrow> u32 \<Rightarrow> u32 list \<Rightarrow> 'a fat_state_scheme \<Rightarrow> (bool \<times> 'a fat_state_scheme) option" where
  "occupied_sectors dev sector [] s = Some (False, s)"
| "occupied_sectors dev sector (i # is) s = do {
     (d, s) \<leftarrow> read_block dev (sector + i) s;
     if list_ex (\<lambda>j. entry_occupied (dirent_at d j)) [0..<16] then Some (True, s)
     else occupied_sectors dev sector is s }"

partial_function (option) isdirempty_chain :: "u32 \<Rightarrow> u32 \<Rightarrow> 'a fat_state_scheme \<Rightarrow> (bool \<times> 'a fat_state_scheme) option" where
  "isdirempty_chain dev cluster s =
     (if is_eof cluster then Some (True, s)
      else do {
        (occ, s) \<leftarrow> occupied_sectors dev (cluster_to_sector s cluster) (upto32 (fv_spc s)) s;
        if occ then Some (False, s)
        else do {
          (nxt, s) \<leftarrow> next_cluster dev cluster s;
          isdirempty_chain dev nxt s } })"

definition fat32_isdirempty :: "u32 \<Rightarrow> fat_info \<Rightarrow> 'a fat_state_scheme \<Rightarrow> (bool \<times> 'a fat_state_scheme) option" where
  "fat32_isdirempty dev dp s = isdirempty_chain dev (fi_cluster dp) s"

section \<open>Removing and adding entries\<close>

partial_function (option) free_cluster_chain :: "u32 \<Rightarrow> u32 \<Rightarrow> 'a fat_state_scheme \<Rightarrow> 'a fat_state_scheme option" where
  "free_cluster_chain dev cluster s =
     (if is_eof cluster \<or> cluster = 0 then Some s
      else do {
        (nxt, s) \<leftarrow> next_cluster dev cluster s;
        s \<leftarrow> set_next_cluster dev cluster 0 s;
        free_cluster_chain dev nxt s })"

text \<open>The loops that skip whole clusters up to an offset; \<open>None\<close> inside is the end of the
  chain.\<close>

partial_function (option) skip_to :: "u32 \<Rightarrow> u32 \<Rightarrow> u32 \<Rightarrow> u32 \<Rightarrow> 'a fat_state_scheme \<Rightarrow> ((u32 \<times> u32) option \<times> 'a fat_state_scheme) option" where
  "skip_to dev off skipped cluster s =
     (if off \<ge> skipped + bytes_per_cluster s then do {
        (cluster, s) \<leftarrow> next_cluster dev cluster s;
        if is_eof cluster then Some (None, s)
        else skip_to dev off (skipped + bytes_per_cluster s) cluster s }
      else Some (Some (cluster, off - skipped), s))"

definition fat32_unlink :: "u32 \<Rightarrow> fat_info \<Rightarrow> u32 \<Rightarrow> 'a fat_state_scheme \<Rightarrow> (int \<times> 'a fat_state_scheme) option" where
  "fat32_unlink dev dp off s = do {
     (at, s) \<leftarrow> skip_to dev off 0 (fi_cluster dp) s;
     (case at of None \<Rightarrow> Some (-1, s)
      | Some (cluster, rel) \<Rightarrow> do {
          (i, s) \<leftarrow> bread dev (cluster_to_sector s cluster + rel div 512) s;
          let sec_off = unat (rel mod 512);
          s \<leftarrow> free_cluster_chain dev (dirent_cluster (drop sec_off (b_data (bcache s i)))) s;
          s \<leftarrow> log_write i (set_data i (put_bytes (b_data (bcache s i)) sec_off [0xe5]) s);
          s \<leftarrow> brelse i s;
          Some (0, s) }) }"

section \<open>File contents\<close>

fun fat_read_sectors :: "u32 \<Rightarrow> u32 \<Rightarrow> u32 \<Rightarrow> nat \<Rightarrow> u32 list \<Rightarrow> 'a fat_state_scheme \<Rightarrow> (bytes \<times> 'a fat_state_scheme) option" where
  "fat_read_sectors dev sector coff to_read [] s = Some ([], s)"
| "fat_read_sectors dev sector coff to_read (i # is) s =
     (if to_read = 0 then Some ([], s)
      else do {
        (d, s) \<leftarrow> read_block dev (sector + i) s;
        let sec_off = unat (coff mod 512);
        (rest, s) \<leftarrow> fat_read_sectors dev sector 0 to_read is s;
        Some (get_bytes d sec_off (min to_read (512 - sec_off)) @ rest, s) })"

partial_function (option) fat_read_loop :: "u32 \<Rightarrow> u32 \<Rightarrow> u32 \<Rightarrow> u32 \<Rightarrow> bytes \<Rightarrow> 'a fat_state_scheme \<Rightarrow> (bytes \<times> 'a fat_state_scheme) option" where
  "fat_read_loop dev cluster off n out s =
     (if n = 0 \<or> is_eof cluster then Some (out, s)
      else do {
        let to_read = min (unat n) (unat (bytes_per_cluster s - off));
        (bs, s) \<leftarrow> fat_read_sectors dev (cluster_to_sector s cluster) off to_read
                     (drop (unat (off div 512)) (upto32 (fv_spc s))) s;
        (cluster, s) \<leftarrow> next_cluster dev cluster s;
        fat_read_loop dev cluster 0 (n - of_nat (length bs)) (out @ bs) s })"

partial_function (option) read_skip :: "u32 \<Rightarrow> u32 \<Rightarrow> u32 \<Rightarrow> 'a fat_state_scheme \<Rightarrow> ((u32 \<times> u32) \<times> 'a fat_state_scheme) option" where
  "read_skip dev cluster off s =
     (if off \<ge> bytes_per_cluster s \<and> \<not> is_eof cluster then do {
        (cluster, s) \<leftarrow> next_cluster dev cluster s;
        read_skip dev cluster (off - bytes_per_cluster s) s }
      else Some ((cluster, off), s))"

text \<open>The bytes are those stored from \<^verbatim>\<open>dst\<close> on; the caller's buffer may be shorter.\<close>

definition fat32_read :: "u32 \<Rightarrow> u32 \<Rightarrow> u32 \<Rightarrow> u32 \<Rightarrow> 'a fat_state_scheme \<Rightarrow> (int \<times> bytes \<times> 'a fat_state_scheme) option" where
  "fat32_read dev start_cluster off n s =
     (if \<not> fv_valid s then Some (-1, [], s)
      else do {
        ((cluster, off), s) \<leftarrow> read_skip dev start_cluster off s;
        if is_eof cluster then Some (0, [], s)
        else do {
          (bs, s) \<leftarrow> fat_read_loop dev cluster off n [] s;
          Some (sint (of_nat (length bs) :: u32), bs, s) } })"

definition next_or_alloc :: "u32 \<Rightarrow> u32 \<Rightarrow> 'a fat_state_scheme \<Rightarrow> (u32 \<times> 'a fat_state_scheme) option" where
  "next_or_alloc dev cluster s = do {
     (nxt, s) \<leftarrow> next_cluster dev cluster s;
     if is_eof nxt then do {
       (nxt, s) \<leftarrow> alloc_cluster dev s;
       s \<leftarrow> set_next_cluster dev cluster nxt s;
       Some (nxt, s)
     } else Some (nxt, s) }"

fun fat_write_sectors :: "u32 \<Rightarrow> u32 \<Rightarrow> u32 \<Rightarrow> nat \<Rightarrow> bytes \<Rightarrow> u32 list \<Rightarrow> 'a fat_state_scheme \<Rightarrow> (bytes \<times> 'a fat_state_scheme) option" where
  "fat_write_sectors dev sector coff to_write src [] s = Some (src, s)"
| "fat_write_sectors dev sector coff to_write src (i # is) s =
     (if to_write = 0 then Some (src, s)
      else let sec_off = unat (coff mod 512); chunk = min to_write (512 - sec_off) in
        if chunk > length src then None
        else do {
          s \<leftarrow> modify_block dev (sector + i) (\<lambda>d. put_bytes d sec_off (take chunk src)) s;
          fat_write_sectors dev sector 0 to_write (drop chunk src) is s })"

partial_function (option) fat_write_loop :: "u32 \<Rightarrow> u32 \<Rightarrow> u32 \<Rightarrow> u32 \<Rightarrow> bytes \<Rightarrow> 'a fat_state_scheme \<Rightarrow> (bytes \<times> 'a fat_state_scheme) option" where
  "fat_write_loop dev cluster off n src s =
     (if n = 0 then Some (src, s)
      else do {
        let to_write = min (unat n) (unat (bytes_per_cluster s - off));
        (rest, s) \<leftarrow> fat_write_sectors dev (cluster_to_sector s cluster) off to_write src
                       (drop (unat (off div 512)) (upto32 (fv_spc s))) s;
        let n = n - of_nat (length src - length rest);
        if n = 0 then Some (rest, s)
        else do {
          (cluster, s) \<leftarrow> next_or_alloc dev cluster s;
          fat_write_loop dev cluster 0 n rest s } })"

partial_function (option) write_skip :: "u32 \<Rightarrow> u32 \<Rightarrow> u32 \<Rightarrow> 'a fat_state_scheme \<Rightarrow> ((u32 \<times> u32) \<times> 'a fat_state_scheme) option" where
  "write_skip dev cluster off s =
     (if off \<ge> bytes_per_cluster s then do {
        (cluster, s) \<leftarrow> next_or_alloc dev cluster s;
        write_skip dev cluster (off - bytes_per_cluster s) s }
      else Some ((cluster, off), s))"

definition fat32_write :: "u32 \<Rightarrow> u32 \<Rightarrow> bytes \<Rightarrow> u32 \<Rightarrow> u32 \<Rightarrow> 'a fat_state_scheme \<Rightarrow> (int \<times> u32 \<times> 'a fat_state_scheme) option" where
  "fat32_write dev start_cluster src off n s =
     (if \<not> fv_valid s then Some (-1, start_cluster, s)
      else do {
        (start, s) \<leftarrow> (if start_cluster = 0 then alloc_cluster dev s else Some (start_cluster, s));
        ((cluster, off), s) \<leftarrow> write_skip dev start off s;
        (rest, s) \<leftarrow> fat_write_loop dev cluster off n src s;
        Some (sint (of_nat (length src - length rest) :: u32), start, s) })"

section \<open>Linking and updating entries\<close>

definition new_dirent :: "bytes \<Rightarrow> u8 \<Rightarrow> u32 \<Rightarrow> u32 \<Rightarrow> bytes" where
  "new_dirent nm attr cluster sz =
     put_bytes (cluster_fields cluster (put_bytes (put_bytes (replicate 32 0) 0 nm) 11 [attr])) 28 (bytes_of_le32 sz)"

definition link_dots :: "u32 \<Rightarrow> fat_info \<Rightarrow> fat_info \<Rightarrow> 'a fat_state_scheme \<Rightarrow> (fat_info \<times> 'a fat_state_scheme) option" where
  "link_dots dev dp ip s = do {
     (c, s) \<leftarrow> alloc_cluster dev s;
     (r, c, s) \<leftarrow> fat32_write dev c (new_dirent dot_name FAT32_ATTR_DIRECTORY c 0) 0 32 s;
     let parent = (if fi_cluster dp = fv_root_cluster s then 0 else fi_cluster dp);
     (r, c, s) \<leftarrow> fat32_write dev c (new_dirent dotdot_name FAT32_ATTR_DIRECTORY parent 0) 32 32 s;
     Some (ip\<lparr>fi_cluster := c\<rparr>, s) }"

definition entry_free :: "bytes \<Rightarrow> bool" where
  "entry_free de \<longleftrightarrow> de ! 0 = 0 \<or> de ! 0 = 0xe5"

fun link_sectors :: "u32 \<Rightarrow> bytes \<Rightarrow> u32 \<Rightarrow> u32 list \<Rightarrow> 'a fat_state_scheme \<Rightarrow> (u32 option \<times> 'a fat_state_scheme) option" where
  "link_sectors dev de sector [] s = Some (None, s)"
| "link_sectors dev de sector (i # is) s = do {
     (b, s) \<leftarrow> bread dev (sector + i) s;
     let d = b_data (bcache s b);
     (case find (\<lambda>j. entry_free (dirent_at d j)) [0..<16] of
        None \<Rightarrow> do {
          s \<leftarrow> brelse b s;
          link_sectors dev de sector is s }
      | Some j \<Rightarrow> do {
          s \<leftarrow> log_write b (set_data b (put_bytes d (j * 32) de) s);
          s \<leftarrow> brelse b s;
          Some (Some (i * 512 + of_nat j * 32), s) }) }"

partial_function (option) link_chain :: "u32 \<Rightarrow> bytes \<Rightarrow> u32 \<Rightarrow> u32 \<Rightarrow> 'a fat_state_scheme \<Rightarrow> (u32 \<times> 'a fat_state_scheme) option" where
  "link_chain dev de cluster skipped s = do {
     (r, s) \<leftarrow> link_sectors dev de (cluster_to_sector s cluster) (upto32 (fv_spc s)) s;
     if r \<noteq> None then Some (skipped + the r, s)
     else do {
       (cluster, s) \<leftarrow> next_or_alloc dev cluster s;
       link_chain dev de cluster (skipped + bytes_per_cluster s) s } }"

definition fat32_dirlink :: "u32 \<Rightarrow> fat_info \<Rightarrow> bytes \<Rightarrow> bool \<Rightarrow> u32 \<Rightarrow> fat_info \<Rightarrow> 'a fat_state_scheme \<Rightarrow> (fat_info \<times> 'a fat_state_scheme) option" where
  "fat32_dirlink dev dp name is_dir sz ip s = do {
     (ip, s) \<leftarrow> (if is_dir \<and> fi_cluster ip = 0 then link_dots dev dp ip s else Some (ip, s));
     (off, s) \<leftarrow> link_chain dev (new_dirent (generate_83_name name) (fi_attr ip) (fi_cluster ip) sz) (fi_cluster dp) 0 s;
     Some (ip\<lparr>fi_parent_cluster := fi_cluster dp, fi_dir_off := off\<rparr>, s) }"

partial_function (option) iupdate_skip :: "u32 \<Rightarrow> u32 \<Rightarrow> u32 \<Rightarrow> 'a fat_state_scheme \<Rightarrow> ((u32 \<times> u32) option \<times> 'a fat_state_scheme) option" where
  "iupdate_skip dev cluster off s =
     (if off \<ge> bytes_per_cluster s then do {
        (cluster, s) \<leftarrow> next_cluster dev cluster s;
        if is_eof cluster then Some (None, s)
        else iupdate_skip dev cluster (off - bytes_per_cluster s) s }
      else Some (Some (cluster, off), s))"

definition fat32_iupdate :: "u32 \<Rightarrow> u32 \<Rightarrow> u32 \<Rightarrow> fat_info \<Rightarrow> 'a fat_state_scheme \<Rightarrow> 'a fat_state_scheme option" where
  "fat32_iupdate dev inum sz ip s =
     (if inum = fv_root_cluster s then Some s
      else do {
        (at, s) \<leftarrow> iupdate_skip dev (fi_parent_cluster ip) (fi_dir_off ip) s;
        (case at of None \<Rightarrow> Some s
         | Some (cluster, off) \<Rightarrow>
             let so = unat (off mod 512) in
             modify_block dev (cluster_to_sector s cluster + off div 512) (\<lambda>d.
               put_bytes d so (put_bytes (cluster_fields (fi_cluster ip)
                 (put_bytes (get_bytes d so 32) 28 (bytes_of_le32 sz))) 11 [fi_attr ip])) s) })"

section \<open>Facts\<close>

lemma fat_frame:
  fixes s t :: "'a fat_state_scheme"
  assumes "txn_frame s t"
  shows "fv_fat_start t = fv_fat_start s" "fv_data_start t = fv_data_start s" "fv_spc t = fv_spc s"
    "fv_total_sectors t = fv_total_sectors s" "fv_root_cluster t = fv_root_cluster s" "fv_valid t = fv_valid s"
    "cluster_to_sector t = cluster_to_sector s" "bytes_per_cluster t = bytes_per_cluster s" "fat_sector t = fat_sector s"
proof -
  show *: "fv_fat_start t = fv_fat_start s" "fv_data_start t = fv_data_start s" "fv_spc t = fv_spc s"
    "fv_total_sectors t = fv_total_sectors s" "fv_root_cluster t = fv_root_cluster s" "fv_valid t = fv_valid s"
    using txn_frameD(4) [OF assms] by (cases s; cases t; simp)+
  show "cluster_to_sector t = cluster_to_sector s" "bytes_per_cluster t = bytes_per_cluster s" "fat_sector t = fat_sector s"
    by (simp_all add: cluster_to_sector_def bytes_per_cluster_def fat_sector_def fun_eq_iff *)
qed

lemma fat_offset_fits: "fat_offset c + 4 \<le> 512"
proof -
  define y where "y = unat (c * 4) mod 512"
  have "y mod 4 = 0" unfolding y_def by (simp add: unat_word_ariths mod_mod_cancel)
  moreover have "y < 512" by (simp add: y_def)
  ultimately have "y + 4 \<le> 512" by presburger
  then show ?thesis by (simp add: fat_offset_def unat_mod_distrib y_def)
qed

lemma next_cluster_ok:
  assumes "txn s" "io_ok s d (fat_sector s c)"
  obtains t where "next_cluster d c s =
      Some (le32_of (get_bytes (bview s d (fat_sector s c)) (fat_offset c) 4) AND 0x0fffffff, t)"
    "txn t" "bview t = bview s" "txn_room t = txn_room s" "txn_frame s t"
proof -
  obtain t where t: "read_block d (fat_sector s c) s = Some (bview s d (fat_sector s c), t)" "txn t" "bview t = bview s"
    "txn_room t = txn_room s" "txn_frame s t" by (rule read_block_ok [OF assms])
  show ?thesis by (rule that [OF _ t(2-5)]) (simp add: next_cluster_def t(1))
qed

lemma drop_upto32_1: "fv_spc s = 1 \<Longrightarrow> drop (unat (off div 512 :: u32)) (upto32 (fv_spc s)) = (if unat off < 512 then [0] else [])"
  by (auto simp: upto32_def unat_div_distrib not_less less_eq_div_iff_mult_less_eq)

lemma fat_write_one:
  assumes "fv_spc s = 1" "0 < length src" "unat off + length src \<le> 512" "n = of_nat (length src)"
    and m: "modify_block dev (cluster_to_sector s c) (\<lambda>d. put_bytes d (unat off) src) s = Some t"
  shows "fat_write_loop dev c off n src s = Some ([], t)"
proof -
  have n: "unat n = length src" using assms(2-4) by simp
  have b: "bytes_per_cluster s = 512" using assms(1) by (simp add: bytes_per_cluster_def)
  have "unat off < 512" using assms(2,3) by linarith
  then have o: "off < 512" "unat off < 512" by (simp_all add: word_less_nat_alt)
  have r: "unat (512 - off) = 512 - unat off" using unat_sub [OF less_imp_le [OF o(1)]] by simp
  have w: "fat_write_sectors dev (cluster_to_sector s c) off (length src) src [0] s = Some ([], t)"
    using assms(2,3) o m by (simp add: Let_def unat_mod_distrib)
  have nz: "n \<noteq> 0" using n assms(2) by auto
  have dr: "drop (unat (off div 512)) (upto32 (fv_spc s)) = [0]" using drop_upto32_1 [OF assms(1)] o(2) by simp
  show ?thesis
    by (subst fat_write_loop.simps)
      (use nz assms(3) in \<open>simp add: n b r w dr assms(4) del: fat_write_sectors.simps\<close>)
qed

lemma fat_read_one:
  assumes "fv_spc s = 1" "0 < n" "unat off + unat n \<le> 512" "\<not> is_eof c"
    and r: "read_block dev (cluster_to_sector s c) s = Some (d, t)" "length d = 512"
    and x: "next_cluster dev c t = Some (nx, u)"
  shows "fat_read_loop dev c off n [] s = Some (get_bytes d (unat off) (unat n), u)"
proof -
  have b: "bytes_per_cluster s = 512" using assms(1) by (simp add: bytes_per_cluster_def)
  have pos: "0 < unat n" using assms(2) by (simp add: word_less_nat_alt)
  have "unat off < 512" using pos assms(3) by linarith
  then have o: "off < 512" "unat off < 512" by (simp_all add: word_less_nat_alt)
  have q: "unat (512 - off) = 512 - unat off" using unat_sub [OF less_imp_le [OF o(1)]] by simp
  have w: "fat_read_sectors dev (cluster_to_sector s c) off (unat n) [0] s = Some (get_bytes d (unat off) (unat n), t)"
    using pos assms(3) o r by (simp add: Let_def unat_mod_distrib)
  have "length (get_bytes d (unat off) (unat n)) = unat n" using r(2) assms(3) by simp
  then have z: "n - of_nat (length (get_bytes d (unat off) (unat n))) = 0" by simp
  have nz: "n \<noteq> 0" using pos by auto
  have dr: "drop (unat (off div 512)) (upto32 (fv_spc s)) = [0]" using drop_upto32_1 [OF assms(1)] o(2) by simp
  have "fat_read_loop dev nx 0 0 (get_bytes d (unat off) (unat n)) u = Some (get_bytes d (unat off) (unat n), u)"
    by (subst fat_read_loop.simps) simp
  then show ?thesis
    by (subst fat_read_loop.simps)
      (use nz assms(3,4) z x in \<open>simp add: b q w dr del: fat_read_sectors.simps\<close>)
qed

section \<open>Properties of the driver\<close>

text \<open>C27. On a volume with one sector per cluster, \<^verbatim>\<open>fat32_write\<close> and \<^verbatim>\<open>fat32_read\<close> round-trip
  within a cluster: inside a transaction with room in the log the write returns the number
  of bytes and changes exactly the bytes of the range in the sector of the cluster, and a
  read of the range returns the bytes written.\<close>

theorem fat32_write_read:
  fixes s :: "'a fat_state_scheme"
  assumes "txn s" "0 < txn_room s" "fv_valid s" "fv_spc s = 1" "c \<noteq> 0" "\<not> is_eof c"
    and "io_ok s (lg_dev s) (cluster_to_sector s c)" "io_ok s (lg_dev s) (fat_sector s c)"
    and "0 < length src" "unat off + length src \<le> 512"
  shows "\<exists>t u. fat32_write (lg_dev s) c src off (of_nat (length src)) s = Some (int (length src), c, t) \<and>
    bview t = (bview s)(lg_dev s := (bview s (lg_dev s))(cluster_to_sector s c :=
      put_bytes (bview s (lg_dev s) (cluster_to_sector s c)) (unat off) src)) \<and>
    fat32_read (lg_dev s) c off (of_nat (length src)) t = Some (int (length src), src, u)"
proof -
  let ?d = "lg_dev s" and ?c = "cluster_to_sector s c" and ?n = "of_nat (length src) :: u32"
  have inv: "bio_inv s" using assms(1) by (simp add: txn_def log_txn_def)
  have l: "length (put_bytes (bview s ?d ?c) (unat off) src) = BSIZE"
    using assms(10) bview_length [OF inv, of ?d ?c] by simp
  obtain t where t: "modify_block ?d ?c (\<lambda>d. put_bytes d (unat off) src) s = Some t" "txn t"
    "bview t = (bview s)(?d := (bview s ?d)(?c := put_bytes (bview s ?d ?c) (unat off) src))"
    "txn_room t \<ge> txn_room s - 1" "txn_frame s t"
    by (rule modify_block_ok [OF assms(1,7,2), where f = "\<lambda>d. put_bytes d (unat off) src", OF l])
  note f = fat_frame [OF t(5)] txn_frameD(1,2) [OF t(5)]
  have "unat off < 512" using assms(9,10) by linarith
  then have o: "\<not> 512 \<le> off" by (simp add: word_le_nat_alt)
  have si: "sint ?n = int (length src)"
    using assms(9,10) by (simp add: sint_of_nat_small)
  have w: "fat32_write ?d c src off ?n s = Some (int (length src), c, t)"
    using fat_write_one [OF assms(4,9,10) refl t(1)] assms(3-5) o si
    by (simp add: fat32_write_def write_skip.simps [of ?d c off s] bytes_per_cluster_def)
  obtain r where r: "read_block ?d ?c t = Some (bview t ?d ?c, r)" "txn r" "bview r = bview t"
    "txn_room r = txn_room t" "txn_frame t r"
    by (rule read_block_ok [OF t(2)]) (use assms(7) f in simp)
  note g = fat_frame [OF r(5)] txn_frameD(1,2) [OF r(5)]
  obtain u where u: "next_cluster ?d c r =
      Some (le32_of (get_bytes (bview r ?d (fat_sector r c)) (fat_offset c) 4) AND 0x0fffffff, u)"
    "txn u" "bview u = bview r" "txn_room u = txn_room r" "txn_frame r u"
    by (rule next_cluster_ok [OF r(2)]) (use assms(8) f g in simp)
  have n: "unat ?n = length src" "0 < ?n" using assms(9,10) by (simp_all add: word_less_nat_alt)
  have "fat_read_loop ?d c off ?n [] t = Some (get_bytes (bview t ?d ?c) (unat off) (unat ?n), u)"
    by (rule fat_read_one [OF _ n(2) _ assms(6) _ _ u(1)]) (use assms(4,10) f n r(1) l t(3) in simp_all)
  moreover have "get_bytes (bview t ?d ?c) (unat off) (unat ?n) = src"
    using t(3) n(1) assms(10) bview_length [OF inv, of ?d ?c] by (simp add: get_put_same)
  ultimately have "fat32_read ?d c off ?n t = Some (int (length src), src, u)"
    using assms(3,4,6) o si f by (simp add: fat32_read_def read_skip.simps [of ?d c off t] bytes_per_cluster_def)
  then show ?thesis using w t(3) by blast
qed

definition demo_fat :: "u32 \<Rightarrow> fat_state" where
  "demo_fat spc = txn_machine 100 (\<lambda>_. replicate 512 0)
     \<lparr>fv_fat_start = 40, fv_data_start = 50, fv_spc = spc, fv_total_sectors = 90, fv_root_cluster = 2, fv_valid = True\<rparr>"

lemma demo_fat_fields:
  "fv_fat_start (demo_fat k) = 40" "fv_data_start (demo_fat k) = 50" "fv_spc (demo_fat k) = k" "fv_valid (demo_fat k)"
  by (simp_all add: demo_fat_def txn_machine_def)

theorem fat32_write_read_witness:
  "\<exists>t u. fat32_write 28 3 [1, 2, 3] 100 3 (demo_fat 1) = Some (3, 3, t) \<and>
     fat32_read 28 3 100 3 t = Some (3, [1, 2, 3], u)"
proof -
  note m = txn_machine_ok [of "\<lambda>_. replicate 512 0", OF length_replicate, of 100, folded demo_fat_def]
  show ?thesis
    using fat32_write_read [of "demo_fat 1" 3 "[1, 2, 3]" 100] demo_fat_fields
    by (fastforce simp: demo_fat_def m cluster_to_sector_def fat_sector_def is_eof_def)
qed



end
