(* ===== verification/Fs.thy ===== *)
theory Fs
  imports Fat32 Ufs2
begin

text \<open>
  \<^verbatim>\<open>kern/fs.c\<close> and \<^verbatim>\<open>kern/storage.c\<close>: the in-core inodes, the native file system over the
  log, and the dispatch to the UFS2 and FAT32 volumes and the device files.  An inode
  pointer is an index into the inode cache.  The members of the C union of an inode are
  separate fields; the one place that reads one member through another is marked.  The
  device switch is a parameter of the operations that call through it.
\<close>

section \<open>State\<close>

datatype fs_type = FS_NATIVE | FS_FAT32 | FS_UFS2 | FS_DEVFS

record inode =
  ip_dev :: u32
  ip_inum :: u32
  ip_ref :: int
  ip_lock :: sleeplock
  ip_valid :: bool
  ip_type :: u16
  ip_size :: u32
  ip_nlink :: u16
  ip_uid :: u32
  ip_gid :: u32
  ip_mode :: u16
  ip_fs_type :: fs_type
  ip_major :: u16
  ip_minor :: u16
  ip_addrs :: "u32 list"
  ip_fat :: fat_info
  ip_ufs2 :: ufs2_inode

record fs_state = fat_state +
  fs_sb :: superblock
  rootdev :: u32
  root_fs_type :: fs_type
  icache :: "nat \<Rightarrow> inode"
  temp_inum :: u32
  fnu_root_volume :: "ufs2_volume option"
  fnu_data_volume :: "ufs2_volume option"
  cur_uid :: u32
  cur_gid :: u32
  cur_cwd :: nat

abbreviation NINODE :: nat where "NINODE \<equiv> 50"
abbreviation NDIRECT :: nat where "NDIRECT \<equiv> 11"
abbreviation NINDIRECT :: nat where "NINDIRECT \<equiv> 128"
abbreviation T_DIR :: u16 where "T_DIR \<equiv> 1"
abbreviation T_FILE :: u16 where "T_FILE \<equiv> 2"
abbreviation T_DEVICE :: u16 where "T_DEVICE \<equiv> 3"
abbreviation DEVFS_DEVICE :: u32 where "DEVFS_DEVICE \<equiv> 0xfffffff0"
abbreviation ROOTDEV :: u32 where "ROOTDEV \<equiv> 28"

definition upd_inode :: "nat \<Rightarrow> (inode \<Rightarrow> inode) \<Rightarrow> 'a fs_state_scheme \<Rightarrow> 'a fs_state_scheme" where
  "upd_inode ip f s = s\<lparr>icache := (icache s)(ip := f (icache s ip))\<rparr>"

text \<open>A device's functions: bytes read and the C return value.\<close>

record 's devsw =
  dev_read :: "inode \<Rightarrow> int \<Rightarrow> 's \<Rightarrow> (int \<times> bytes \<times> 's) option"
  dev_write :: "inode \<Rightarrow> bytes \<Rightarrow> 's \<Rightarrow> (int \<times> 's) option"

type_synonym 's devtab = "nat \<Rightarrow> 's devsw option"

section \<open>Volumes\<close>

definition storage_ufs2_volume :: "u32 \<Rightarrow> 'a fs_state_scheme \<Rightarrow> ufs2_volume option" where
  "storage_ufs2_volume dev s =
     (if fnu_root_volume s \<noteq> None \<and> dev = rootdev s then fnu_root_volume s
      else if fnu_data_volume s \<noteq> None \<and> dev = 2 then fnu_data_volume s
      else None)"

definition storage_validate_volume :: "u32 \<Rightarrow> 'a fs_state_scheme \<Rightarrow> (ufs2_volume, 'a fs_state_scheme) outcome" where
  "storage_validate_volume dev s =
     (let sectors = blockdev_device_size dev s in
      if sectors = 0 then c_err s
      else c_try (ufs2_probe \<lparr>bd_device = dev, bd_first_lba = 0, bd_sector_count = sectors\<rparr> s) (\<lambda>v s.
        c_try (ufs2_read_inode v UFS2_ROOT_INO s) (\<lambda>_ s.
        c_try (ufs2_lookup v UFS2_ROOT_INO [46] s) (\<lambda>dot s.
          if dot \<noteq> UFS2_ROOT_INO then c_err s else c_ok v s))))"

definition storage_mount_root :: "'a fs_state_scheme \<Rightarrow> (unit, 'a fs_state_scheme) outcome" where
  "storage_mount_root s =
     (if fnu_root_volume s \<noteq> None then c_ok () s
      else c_try (storage_validate_volume (rootdev s) s) (\<lambda>v s. c_ok () (s\<lparr>fnu_root_volume := Some v\<rparr>)))"

definition storageinit :: "'a fs_state_scheme \<Rightarrow> 'a fs_state_scheme option" where
  "storageinit s =
     (if blockdev_device_size 2 s = 0 then Some s
      else case storage_validate_volume 2 s of None \<Rightarrow> None
      | Some (None, s) \<Rightarrow> Some s
      | Some (Some v, s) \<Rightarrow> Some (s\<lparr>fnu_data_volume := Some v\<rparr>))"

definition fs_root_readonly :: "'a fs_state_scheme \<Rightarrow> bool" where
  "fs_root_readonly s \<longleftrightarrow> root_fs_type s = FS_UFS2"

definition inode_access :: "inode \<Rightarrow> u32 \<Rightarrow> u32 \<Rightarrow> u32 \<Rightarrow> bool" where
  "inode_access i gid uid want =
     (if ip_type i = 0 then False
      else if uid = 0 then True
      else let m = ucast (ip_mode i) :: u32;
               bits = (if uid = ip_uid i then drop_bit 6 m AND 7
                       else if gid = ip_gid i then drop_bit 3 m AND 7
                       else m AND 7)
        in bits AND want = want)"

section \<open>Blocks\<close>

definition BBLOCK :: "u32 \<Rightarrow> 'a fs_state_scheme \<Rightarrow> u32" where
  "BBLOCK b s = b div 4096 + sb_bmapstart (fs_sb s)"

definition bzero :: "u32 \<Rightarrow> u32 \<Rightarrow> 'a fs_state_scheme \<Rightarrow> 'a fs_state_scheme option" where
  "bzero dev bno s = modify_block dev bno (\<lambda>_. replicate 512 0) s"

definition map_bit :: "bytes \<Rightarrow> nat \<Rightarrow> bool" where
  "map_bit d bi \<longleftrightarrow> d ! (bi div 8) AND push_bit (bi mod 8) 1 \<noteq> 0"

definition set_map_bit :: "bytes \<Rightarrow> nat \<Rightarrow> bytes" where
  "set_map_bit d bi = d[bi div 8 := d ! (bi div 8) OR push_bit (bi mod 8) 1]"

definition clear_map_bit :: "bytes \<Rightarrow> nat \<Rightarrow> bytes" where
  "clear_map_bit d bi = d[bi div 8 := d ! (bi div 8) AND NOT (push_bit (bi mod 8) 1)]"

fun balloc_scan :: "u32 \<Rightarrow> nat list \<Rightarrow> 'a fs_state_scheme \<Rightarrow> (u32 \<times> 'a fs_state_scheme) option" where
  "balloc_scan dev [] s = None"
| "balloc_scan dev (b # bs) s = do {
     (i, s) \<leftarrow> bread dev (BBLOCK (of_nat b) s) s;
     let d = b_data (bcache s i);
     (case find (\<lambda>bi. \<not> map_bit d bi) [0..<min 4096 (unat (sb_size (fs_sb s)) - b)] of
        Some bi \<Rightarrow> do {
          s \<leftarrow> log_write i (set_data i (set_map_bit d bi) s);
          s \<leftarrow> brelse i s;
          s \<leftarrow> bzero dev (of_nat (b + bi)) s;
          Some (of_nat (b + bi), s) }
      | None \<Rightarrow> do {
          s \<leftarrow> brelse i s;
          balloc_scan dev bs s }) }"

definition balloc :: "u32 \<Rightarrow> 'a fs_state_scheme \<Rightarrow> (u32 \<times> 'a fs_state_scheme) option" where
  "balloc dev s =
     balloc_scan dev (map (\<lambda>k. k * 4096) [0..<(unat (sb_size (fs_sb s)) + 4095) div 4096]) s"

definition bfree :: "u32 \<Rightarrow> u32 \<Rightarrow> 'a fs_state_scheme \<Rightarrow> 'a fs_state_scheme option" where
  "bfree dev b s = do {
     (i, s) \<leftarrow> bread dev (BBLOCK b s) s;
     let d = b_data (bcache s i);
     let bi = unat (b mod 4096);
     if \<not> map_bit d bi then None
     else do {
       s \<leftarrow> log_write i (set_data i (clear_map_bit d bi) s);
       brelse i s } }"

section \<open>Inodes on disk\<close>

definition IBLOCK :: "u32 \<Rightarrow> 'a fs_state_scheme \<Rightarrow> u32" where
  "IBLOCK inum s = inum div 4 + sb_inodestart (fs_sb s)"

definition dinode_off :: "u32 \<Rightarrow> nat" where
  "dinode_off inum = unat (inum mod 4) * 128"

definition load_dinode :: "bytes \<Rightarrow> inode \<Rightarrow> inode" where
  "load_dinode d i = i\<lparr>ip_type := le16_of (get_bytes d 0 2), ip_major := le16_of (get_bytes d 2 2),
     ip_minor := le16_of (get_bytes d 4 2), ip_nlink := le16_of (get_bytes d 6 2), ip_size := le32_of (get_bytes d 8 4),
     ip_uid := le32_of (get_bytes d 12 4), ip_gid := le32_of (get_bytes d 16 4), ip_mode := le16_of (get_bytes d 20 2),
     ip_addrs := map (\<lambda>k. le32_of (get_bytes d (24 + k * 4) 4)) [0..<13]\<rparr>"

fun put_le32s :: "bytes \<Rightarrow> nat \<Rightarrow> u32 list \<Rightarrow> bytes" where
  "put_le32s d off [] = d"
| "put_le32s d off (x # xs) = put_le32s (put_bytes d off (bytes_of_le32 x)) (off + 4) xs"

definition store_dinode :: "inode \<Rightarrow> bytes \<Rightarrow> bytes" where
  "store_dinode i d =
     (let d = put_bytes d 0 (bytes_of_le16 (ip_type i)); d = put_bytes d 2 (bytes_of_le16 (ip_major i));
          d = put_bytes d 4 (bytes_of_le16 (ip_minor i)); d = put_bytes d 6 (bytes_of_le16 (ip_nlink i));
          d = put_bytes d 8 (bytes_of_le32 (ip_size i)); d = put_bytes d 12 (bytes_of_le32 (ip_uid i));
          d = put_bytes d 16 (bytes_of_le32 (ip_gid i)); d = put_bytes d 20 (bytes_of_le16 (ip_mode i))
      in put_le32s d 24 (ip_addrs i))"

section \<open>The inode cache\<close>

definition iget :: "u32 \<Rightarrow> u32 \<Rightarrow> 'a fs_state_scheme \<Rightarrow> (nat \<times> 'a fs_state_scheme) option" where
  "iget dev inum s =
     (case find (\<lambda>k. ip_ref (icache s k) > 0 \<and> ip_dev (icache s k) = dev \<and> ip_inum (icache s k) = inum) [0..<NINODE] of
        Some k \<Rightarrow> Some (k, upd_inode k (\<lambda>i. i\<lparr>ip_ref := ip_ref i + 1\<rparr>) s)
      | None \<Rightarrow> (case find (\<lambda>k. ip_ref (icache s k) = 0) [0..<NINODE] of
            Some k \<Rightarrow> Some (k, upd_inode k (\<lambda>i. i\<lparr>ip_dev := dev, ip_inum := inum, ip_ref := 1,
              ip_valid := False, ip_fs_type := FS_NATIVE\<rparr>) s)
          | None \<Rightarrow> None))"

definition iupdate_inum :: "nat \<Rightarrow> u32 \<Rightarrow> 'a fs_state_scheme \<Rightarrow> 'a fs_state_scheme" where
  "iupdate_inum ip inum s = upd_inode ip (\<lambda>i. i\<lparr>ip_inum := inum\<rparr>) s"

definition idup :: "nat \<Rightarrow> 'a fs_state_scheme \<Rightarrow> 'a fs_state_scheme" where
  "idup ip s = upd_inode ip (\<lambda>i. i\<lparr>ip_ref := ip_ref i + 1\<rparr>) s"

definition fat32_ialloc :: "u32 \<Rightarrow> u16 \<Rightarrow> 'a fs_state_scheme \<Rightarrow> (nat \<times> 'a fs_state_scheme) option" where
  "fat32_ialloc dev type s = do {
     (ip, s) \<leftarrow> iget dev (temp_inum s) s;
     let t = temp_inum s + 1;
     let s = s\<lparr>temp_inum := (if t > 0x7fffffff then 0x40000000 else t)\<rparr>;
     Some (ip, upd_inode ip (\<lambda>i. i\<lparr>ip_fs_type := FS_FAT32, ip_type := type,
       ip_fat := (ip_fat i)\<lparr>fi_cluster := 0, fi_attr := (if type = T_DIR then FAT32_ATTR_DIRECTORY else 0)\<rparr>,
       ip_size := 0, ip_uid := 0, ip_gid := 0, ip_mode := (if type = T_DIR then 0x1ed else 0x1a4), ip_valid := True\<rparr>) s) }"

fun ialloc_scan :: "u32 \<Rightarrow> u16 \<Rightarrow> u32 list \<Rightarrow> 'a fs_state_scheme \<Rightarrow> (nat \<times> 'a fs_state_scheme) option" where
  "ialloc_scan dev type [] s = None"
| "ialloc_scan dev type (inum # is) s = do {
     (b, s) \<leftarrow> bread dev (IBLOCK inum s) s;
     let d = b_data (bcache s b);
     if le16_of (get_bytes d (dinode_off inum) 2) = 0 then do {
       s \<leftarrow> log_write b (set_data b (put_bytes (put_bytes d (dinode_off inum) (replicate 128 0))
              (dinode_off inum) (bytes_of_le16 type)) s);
       s \<leftarrow> brelse b s;
       iget dev inum s
     } else do {
       s \<leftarrow> brelse b s;
       ialloc_scan dev type is s } }"

text \<open>The pointer 0 is \<open>None\<close>.\<close>

definition ialloc :: "u32 \<Rightarrow> u16 \<Rightarrow> 'a fs_state_scheme \<Rightarrow> (nat option \<times> 'a fs_state_scheme) option" where
  "ialloc dev type s =
     (if storage_ufs2_volume dev s \<noteq> None then Some (None, s)
      else do {
        (ip, s) \<leftarrow> (if root_fs_type s = FS_FAT32 then fat32_ialloc dev type s
                     else ialloc_scan dev type (drop 1 (upto32 (sb_ninodes (fs_sb s)))) s);
        Some (Some ip, s) })"

definition iupdate :: "nat \<Rightarrow> 'a fs_state_scheme \<Rightarrow> 'a fs_state_scheme option" where
  "iupdate ip s =
     (let i = icache s ip in
      if ip_fs_type i = FS_UFS2 \<or> ip_fs_type i = FS_DEVFS then Some s
      else if ip_fs_type i = FS_FAT32 then fat32_iupdate (ip_dev i) (ip_inum i) (ip_size i) (ip_fat i) s
      else modify_block (ip_dev i) (IBLOCK (ip_inum i) s)
        (\<lambda>d. put_bytes d (dinode_off (ip_inum i)) (store_dinode i (get_bytes d (dinode_off (ip_inum i)) 128))) s)"

text \<open>What \<^verbatim>\<open>ilock\<close> puts into an inode of the device file system.\<close>

definition devfs_inode :: "u16 \<Rightarrow> u16 \<Rightarrow> inode \<Rightarrow> inode" where
  "devfs_inode major minor i = i\<lparr>ip_type := T_DEVICE, ip_major := major, ip_minor := minor, ip_nlink := 1,
     ip_size := 0, ip_fs_type := FS_DEVFS, ip_valid := True\<rparr>"

definition empty_ufs2_inode :: ufs2_inode where
  "empty_ufs2_inode = \<lparr>ui_mode = 0, ui_nlink = 0, ui_uid = 0, ui_gid = 0, ui_size = 0,
     ui_direct = replicate 12 0, ui_indirect = replicate 3 0\<rparr>"

definition ufs2_loaded :: "ufs2_inode \<Rightarrow> inode \<Rightarrow> inode" where
  "ufs2_loaded u i =
     (if (ui_mode u AND 0xf000 = 0x4000 \<or> ui_mode u AND 0xf000 = 0x8000) \<and> ui_size u \<le> 0xffffffff
      then i\<lparr>ip_ufs2 := u, ip_type := (if ui_mode u AND 0xf000 = 0x4000 then T_DIR else T_FILE),
        ip_size := ucast (ui_size u), ip_nlink := ui_nlink u, ip_uid := ui_uid u, ip_gid := ui_gid u,
        ip_mode := ui_mode u AND 0xfff, ip_fs_type := FS_UFS2, ip_valid := True\<rparr>
      else i\<lparr>ip_ufs2 := empty_ufs2_inode, ip_type := 0, ip_size := 0, ip_major := 0, ip_minor := 0,
        ip_nlink := 1, ip_fs_type := FS_UFS2, ip_valid := True\<rparr>)"

definition iload :: "nat \<Rightarrow> 'a fs_state_scheme \<Rightarrow> 'a fs_state_scheme option" where
  "iload ip s =
     (let i = icache s ip in
      if ip_dev i = DEVFS_DEVICE \<and> ip_inum i = 1 then Some (upd_inode ip (devfs_inode 1 (-1)) s)
      else if ip_dev i = DEVFS_DEVICE \<and> ip_inum i \<ge> 8 \<and> ip_inum i < 12 then
        Some (upd_inode ip (devfs_inode 1 (ucast (ip_inum i - 8))) s)
      else if ip_dev i = DEVFS_DEVICE \<and> ip_inum i \<ge> 2 \<and> ip_inum i \<le> 4 then
        Some (upd_inode ip (devfs_inode 2 (ucast (ip_inum i - 2 + 1))) s)
      else case storage_ufs2_volume (ip_dev i) s of
        Some v \<Rightarrow> (case ufs2_read_inode v (ip_inum i) s of None \<Rightarrow> None
          | Some (None, s) \<Rightarrow> Some (upd_inode ip (ufs2_loaded empty_ufs2_inode) s)
          | Some (Some u, s) \<Rightarrow> Some (upd_inode ip (ufs2_loaded u) s))
      | None \<Rightarrow> do {
          (d, s) \<leftarrow> read_block (ip_dev i) (IBLOCK (ip_inum i) s) s;
          let s = upd_inode ip (\<lambda>i. (load_dinode (get_bytes d (dinode_off (ip_inum i)) 128) i)
                    \<lparr>ip_fs_type := FS_NATIVE, ip_valid := True\<rparr>) s;
          if ip_type (icache s ip) = 0 then None else Some s })"

definition ilock :: "nat \<Rightarrow> 'a fs_state_scheme \<Rightarrow> 'a fs_state_scheme option" where
  "ilock ip s =
     (if ip_ref (icache s ip) < 1 then None
      else do {
        l \<leftarrow> acquiresleep (curpid s) (ip_lock (icache s ip));
        let s = upd_inode ip (\<lambda>i. i\<lparr>ip_lock := l\<rparr>) s;
        if ip_valid (icache s ip) then Some s else iload ip s })"

definition iunlock :: "nat \<Rightarrow> 'a fs_state_scheme \<Rightarrow> 'a fs_state_scheme option" where
  "iunlock ip s =
     (if \<not> holdingsleep (curpid s) (ip_lock (icache s ip)) \<or> ip_ref (icache s ip) < 1 then None
      else Some (upd_inode ip (\<lambda>i. i\<lparr>ip_lock := releasesleep (ip_lock i)\<rparr>) s))"

section \<open>Truncation and release\<close>

fun free_blocks :: "u32 \<Rightarrow> u32 list \<Rightarrow> 'a fs_state_scheme \<Rightarrow> 'a fs_state_scheme option" where
  "free_blocks dev [] s = Some s"
| "free_blocks dev (a # as) s = do {
     s \<leftarrow> (if a = 0 then Some s else bfree dev a s);
     free_blocks dev as s }"

definition block_words :: "bytes \<Rightarrow> u32 list" where
  "block_words d = map (\<lambda>k. le32_of (get_bytes d (k * 4) 4)) [0..<NINDIRECT]"

text \<open>Free the blocks an indirect block lists, keeping its buffer; then the block itself.\<close>

definition free_indirect :: "u32 \<Rightarrow> u32 \<Rightarrow> 'a fs_state_scheme \<Rightarrow> 'a fs_state_scheme option" where
  "free_indirect dev a s = do {
     (b, s) \<leftarrow> bread dev a s;
     s \<leftarrow> free_blocks dev (block_words (b_data (bcache s b))) s;
     s \<leftarrow> brelse b s;
     bfree dev a s }"

fun free_indirects :: "u32 \<Rightarrow> u32 list \<Rightarrow> 'a fs_state_scheme \<Rightarrow> 'a fs_state_scheme option" where
  "free_indirects dev [] s = Some s"
| "free_indirects dev (a # as) s = do {
     s \<leftarrow> (if a = 0 then Some s else free_indirect dev a s);
     free_indirects dev as s }"

definition itrunc_native :: "nat \<Rightarrow> 'a fs_state_scheme \<Rightarrow> 'a fs_state_scheme option" where
  "itrunc_native ip s = do {
     let i = icache s ip;
     s \<leftarrow> free_blocks (ip_dev i) (take NDIRECT (ip_addrs i)) s;
     s \<leftarrow> (if ip_addrs i ! NDIRECT = 0 then Some s else free_indirect (ip_dev i) (ip_addrs i ! NDIRECT) s);
     s \<leftarrow> (if ip_addrs i ! (NDIRECT + 1) = 0 then Some s else do {
             (b, s) \<leftarrow> bread (ip_dev i) (ip_addrs i ! (NDIRECT + 1)) s;
             s \<leftarrow> free_indirects (ip_dev i) (block_words (b_data (bcache s b))) s;
             s \<leftarrow> brelse b s;
             bfree (ip_dev i) (ip_addrs i ! (NDIRECT + 1)) s });
     iupdate ip (upd_inode ip (\<lambda>i. i\<lparr>ip_addrs := replicate 13 0, ip_size := 0\<rparr>) s) }"

text \<open>The truncated UFS2 inode is not stored back: the only caller then marks the inode
  invalid.  On a FAT32 inode the C code goes on to read the FAT32 member of the union as block
  addresses; that has no result here.\<close>

definition itrunc :: "nat \<Rightarrow> 'a fs_state_scheme \<Rightarrow> 'a fs_state_scheme option" where
  "itrunc ip s =
     (let i = icache s ip in
      case ip_fs_type i of
        FS_UFS2 \<Rightarrow> (case storage_ufs2_volume (ip_dev i) s of None \<Rightarrow> Some s
          | Some v \<Rightarrow> (case ufs2_truncate v (ip_inum i) (ip_ufs2 i) s of None \<Rightarrow> None
             | Some (_, s) \<Rightarrow> map_option snd (ufs2_free_inode v (ip_inum i) s)))
      | FS_FAT32 \<Rightarrow> None
      | _ \<Rightarrow> itrunc_native ip s)"

definition iput :: "nat \<Rightarrow> 'a fs_state_scheme \<Rightarrow> 'a fs_state_scheme option" where
  "iput ip s = do {
     s \<leftarrow> (if ip_ref (icache s ip) = 1 \<and> ip_valid (icache s ip) \<and> ip_nlink (icache s ip) = 0 then do {
             s \<leftarrow> ilock ip s;
             s \<leftarrow> itrunc ip s;
             s \<leftarrow> iupdate ip (upd_inode ip (\<lambda>i. i\<lparr>ip_type := 0\<rparr>) s);
             iunlock ip (upd_inode ip (\<lambda>i. i\<lparr>ip_valid := False\<rparr>) s)
           } else Some s);
     Some (upd_inode ip (\<lambda>i. i\<lparr>ip_ref := ip_ref i - 1\<rparr>) s) }"

definition iunlockput :: "nat \<Rightarrow> 'a fs_state_scheme \<Rightarrow> 'a fs_state_scheme option" where
  "iunlockput ip s = do { s \<leftarrow> iunlock ip s; iput ip s }"

definition iinit :: "u32 \<Rightarrow> 'a fs_state_scheme \<Rightarrow> 'a fs_state_scheme option" where
  "iinit dev s =
     (let s = s\<lparr>icache := \<lambda>k. if k < NINODE then (icache s k)\<lparr>ip_lock := initsleeplock\<rparr> else icache s k\<rparr> in
      case storage_mount_root s of None \<Rightarrow> None
      | Some (Some _, s) \<Rightarrow> Some (s\<lparr>root_fs_type := FS_UFS2\<rparr>)
      | Some (None, s) \<Rightarrow> do {
          (d, s) \<leftarrow> read_block dev 0 s;
          if d ! 66 = 0x28 \<or> d ! 66 = 0x29 then do {
            s \<leftarrow> fat32_init dev s;
            Some (s\<lparr>root_fs_type := FS_FAT32\<rparr>)
          } else do {
            (sb, s) \<leftarrow> readsb dev s;
            Some (s\<lparr>fs_sb := sb\<rparr>) } })"

section \<open>File contents\<close>

definition bmap_addr :: "nat \<Rightarrow> nat \<Rightarrow> 'a fs_state_scheme \<Rightarrow> (u32 \<times> 'a fs_state_scheme) option" where
  "bmap_addr ip k s =
     (let i = icache s ip in
      if ip_addrs i ! k \<noteq> 0 then Some (ip_addrs i ! k, s)
      else do {
        (a, s) \<leftarrow> balloc (ip_dev i) s;
        Some (a, upd_inode ip (\<lambda>i. i\<lparr>ip_addrs := (ip_addrs i)[k := a]\<rparr>) s) })"

definition bmap_slot :: "u32 \<Rightarrow> u32 \<Rightarrow> nat \<Rightarrow> 'a fs_state_scheme \<Rightarrow> (u32 \<times> 'a fs_state_scheme) option" where
  "bmap_slot dev addr k s = do {
     (b, s) \<leftarrow> bread dev addr s;
     let a = le32_of (get_bytes (b_data (bcache s b)) (k * 4) 4);
     if a \<noteq> 0 then do {
       s \<leftarrow> brelse b s;
       Some (a, s)
     } else do {
       (a, s) \<leftarrow> balloc dev s;
       s \<leftarrow> log_write b (set_data b (put_bytes (b_data (bcache s b)) (k * 4) (bytes_of_le32 a)) s);
       s \<leftarrow> brelse b s;
       Some (a, s) } }"

definition bmap :: "nat \<Rightarrow> u32 \<Rightarrow> 'a fs_state_scheme \<Rightarrow> (u32 \<times> 'a fs_state_scheme) option" where
  "bmap ip bn s =
     (let n = unat bn; dev = ip_dev (icache s ip) in
      if n < NDIRECT then bmap_addr ip n s
      else if n - NDIRECT < NINDIRECT then do {
        (addr, s) \<leftarrow> bmap_addr ip NDIRECT s;
        bmap_slot dev addr (n - NDIRECT) s
      } else if n - NDIRECT - NINDIRECT < NINDIRECT * NINDIRECT then do {
        let m = n - NDIRECT - NINDIRECT;
        (addr, s) \<leftarrow> bmap_addr ip (NDIRECT + 1) s;
        (addr, s) \<leftarrow> bmap_slot dev addr (m div NINDIRECT) s;
        bmap_slot dev addr (m mod NINDIRECT) s
      } else None)"

record stat =
  st_device :: u32
  st_type :: u16
  st_size :: u32
  st_mode :: u16
  st_uid :: u32
  st_gid :: u32

definition stati :: "inode \<Rightarrow> stat" where
  "stati i = \<lparr>st_device = ip_dev i, st_type = ip_type i, st_size = ip_size i, st_mode = ip_mode i,
     st_uid = ip_uid i, st_gid = ip_gid i\<rparr>"

definition sector_part :: "u32 \<Rightarrow> nat \<Rightarrow> nat" where
  "sector_part off n = min n (512 - unat (off mod 512))"

lemma sector_part_less: "n \<noteq> 0 \<Longrightarrow> n - sector_part off n < n"
proof -
  have "unat (off mod 512) < 512" by (simp add: unat_mod_distrib)
  then show "n \<noteq> 0 \<Longrightarrow> ?thesis" by (simp add: sector_part_def)
qed

function readi_loop :: "nat \<Rightarrow> u32 \<Rightarrow> nat \<Rightarrow> 'a fs_state_scheme \<Rightarrow> (bytes \<times> 'a fs_state_scheme) option" where
  "readi_loop ip off n s =
     (if n = 0 then Some ([], s)
      else do {
        let m = sector_part off n;
        (a, s) \<leftarrow> bmap ip (off div 512) s;
        (d, s) \<leftarrow> read_block (ip_dev (icache s ip)) a s;
        (rest, s) \<leftarrow> readi_loop ip (off + of_nat m) (n - m) s;
        Some (get_bytes d (unat (off mod 512)) m @ rest, s) })"
  by pat_completeness auto
termination
  by (relation "measure (\<lambda>(ip, off, n, s). n)") (simp_all add: sector_part_less)

function writei_loop :: "nat \<Rightarrow> u32 \<Rightarrow> bytes \<Rightarrow> 'a fs_state_scheme \<Rightarrow> 'a fs_state_scheme option" where
  "writei_loop ip off src s =
     (if src = [] then Some s
      else do {
        let m = sector_part off (length src);
        (a, s) \<leftarrow> bmap ip (off div 512) s;
        s \<leftarrow> modify_block (ip_dev (icache s ip)) a (\<lambda>d. put_bytes d (unat (off mod 512)) (take m src)) s;
        writei_loop ip (off + of_nat m) (drop m src) s })"
  by pat_completeness auto
termination
  by (relation "measure (\<lambda>(ip, off, src, s). length src)") (simp_all add: sector_part_less)

declare readi_loop.simps [simp del] writei_loop.simps [simp del]

text \<open>The directory entry a read of a UFS2 directory returns: the inode number in 16 bits
  and at most 13 bytes of name with a NUL.  The bytes after the NUL are the caller's stack
  in C and 0 here.\<close>

definition ufs2_entry :: "u32 \<Rightarrow> bytes \<Rightarrow> bytes" where
  "ufs2_entry inum name = bytes_of_le16 (ucast inum) @ name @ replicate (14 - length name) 0"

definition readi_ufs2 :: "inode \<Rightarrow> u32 \<Rightarrow> u32 \<Rightarrow> 'a fs_state_scheme \<Rightarrow> (int \<times> bytes \<times> 'a fs_state_scheme) option" where
  "readi_ufs2 i off n s = (case storage_ufs2_volume (ip_dev i) s of None \<Rightarrow> Some (-1, [], s)
     | Some v \<Rightarrow>
       if ip_type i = T_DIR then
         (if off mod 16 \<noteq> 0 \<or> n < 16 then Some (0, [], s)
          else case ufs2_readdir v (ip_inum i) (off div 16) 14 s of None \<Rightarrow> None
            | Some (None, s) \<Rightarrow> Some (0, [], s)
            | Some (Some (inum, name), s) \<Rightarrow>
                if inum > 0xffff then Some (-1, [], s) else Some (16, ufs2_entry inum name, s))
       else if off > ip_size i \<or> off + n < off then Some (-1, [], s)
       else (case ufs2_read v (ip_ufs2 i) (ucast off) (if off + n > ip_size i then ip_size i - off else n) s of
           None \<Rightarrow> None
         | Some (None, s) \<Rightarrow> Some (-1, [], s)
         | Some (Some bs, s) \<Rightarrow> Some (0, bs, s)))"

definition readi :: "'a fs_state_scheme devtab \<Rightarrow> nat \<Rightarrow> u32 \<Rightarrow> u32 \<Rightarrow> 'a fs_state_scheme \<Rightarrow> (int \<times> bytes \<times> 'a fs_state_scheme) option" where
  "readi devs ip off n s =
     (let i = icache s ip in
      if ip_fs_type i = FS_FAT32 then
        (if off > ip_size i then Some (0, [], s)
         else do {
           (r, bs, s) \<leftarrow> fat32_read (ip_dev i) (fi_cluster (ip_fat i)) off
                            (if off + n > ip_size i then ip_size i - off else n) s;
           if length bs > unat n then None else Some (r, bs, s) })
      else if ip_fs_type i = FS_UFS2 then readi_ufs2 i off n s
      else if ip_type i = T_DEVICE then
        (if sint (ip_major i) < 0 \<or> sint (ip_major i) \<ge> 10 then Some (-1, [], s)
         else case devs (unat (ip_major i)) of None \<Rightarrow> Some (-1, [], s)
           | Some d \<Rightarrow> dev_read d i (sint n) s)
      else if off > ip_size i \<or> off + n < off then Some (-1, [], s)
      else let n = (if off + n > ip_size i then ip_size i - off else n) in do {
        (bs, s) \<leftarrow> readi_loop ip off (unat n) s;
        Some (sint n, bs, s) })"

abbreviation MAXFILE :: nat where "MAXFILE \<equiv> 16523"

definition writei :: "'a fs_state_scheme devtab \<Rightarrow> nat \<Rightarrow> bytes \<Rightarrow> u32 \<Rightarrow> 'a fs_state_scheme \<Rightarrow> (int \<times> 'a fs_state_scheme) option" where
  "writei devs ip src off s =
     (let i = icache s ip; n = of_nat (length src) :: u32 in
      if ip_fs_type i = FS_FAT32 then
        (if off > ip_size i \<and> ip_size i \<noteq> 0xffffffff then Some (-1, s)
         else do {
           (written, cluster, s) \<leftarrow> fat32_write (ip_dev i) (fi_cluster (ip_fat i)) src off n s;
           let s = upd_inode ip (\<lambda>i. i\<lparr>ip_fat := (ip_fat i)\<lparr>fi_cluster := cluster\<rparr>\<rparr>) s;
           if written > 0 \<and> off + of_int written > ip_size i \<and> ip_size i \<noteq> 0xffffffff
           then Some (written, upd_inode ip (\<lambda>i. i\<lparr>ip_size := off + of_int written\<rparr>) s)
           else Some (written, s) })
      else if ip_fs_type i = FS_UFS2 then Some (-1, s)
      else if ip_type i = T_DEVICE then
        (if sint (ip_major i) < 0 \<or> sint (ip_major i) \<ge> 10 then Some (-1, s)
         else case devs (unat (ip_major i)) of None \<Rightarrow> Some (-1, s)
           | Some d \<Rightarrow> dev_write d i src s)
      else if off > ip_size i \<or> off + n < off then Some (-1, s)
      else if unat (off + n) > MAXFILE * 512 then Some (-1, s)
      else do {
        s \<leftarrow> writei_loop ip off src s;
        if n > 0 \<and> off + n > ip_size (icache s ip) then do {
          s \<leftarrow> iupdate ip (upd_inode ip (\<lambda>i. i\<lparr>ip_size := off + n\<rparr>) s);
          Some (sint n, s)
        } else Some (sint n, s) })"

section \<open>Directories\<close>

definition cstr :: "bytes \<Rightarrow> bytes" where
  "cstr b = takeWhile (\<lambda>c. c \<noteq> 0) b"

definition namecmp_eq :: "bytes \<Rightarrow> bytes \<Rightarrow> bool" where
  "namecmp_eq name field \<longleftrightarrow> take 14 name = cstr (take 14 field)"

partial_function (option) dirlookup_loop :: "'a fs_state_scheme devtab \<Rightarrow> nat \<Rightarrow> bytes \<Rightarrow> u32 \<Rightarrow> 'a fs_state_scheme \<Rightarrow> ((u16 \<times> u32) option \<times> 'a fs_state_scheme) option" where
  "dirlookup_loop devs dp name off s =
     (if off < ip_size (icache s dp) then do {
        (r, de, s) \<leftarrow> readi devs dp off 16 s;
        if r \<noteq> 16 then None
        else if le16_of (take 2 de) \<noteq> 0 \<and> namecmp_eq name (drop 2 de) then Some (Some (le16_of (take 2 de), off), s)
        else dirlookup_loop devs dp name (off + 16) s }
      else Some (None, s))"

definition dirlookup :: "'a fs_state_scheme devtab \<Rightarrow> nat \<Rightarrow> bytes \<Rightarrow> 'a fs_state_scheme \<Rightarrow> ((nat \<times> u32) option \<times> 'a fs_state_scheme) option" where
  "dirlookup devs dp name s =
     (let d = icache s dp in
      if ip_type d \<noteq> T_DIR then None
      else if ip_fs_type d = FS_UFS2 then
        (case storage_ufs2_volume (ip_dev d) s of None \<Rightarrow> Some (None, s)
         | Some v \<Rightarrow> (case ufs2_lookup v (ip_inum d) name s of None \<Rightarrow> None
             | Some (None, s) \<Rightarrow> Some (None, s)
             | Some (Some inum, s) \<Rightarrow> do {
                 (ip, s) \<leftarrow> iget (ip_dev d) inum s;
                 Some (Some (ip, 0), s) }))
      else do {
        (r, s) \<leftarrow> dirlookup_loop devs dp name 0 s;
        (case r of None \<Rightarrow> Some (None, s)
         | Some (inum, off) \<Rightarrow> do {
             (ip, s) \<leftarrow> iget (ip_dev d) (ucast inum) s;
             Some (Some (ip, off), s) }) })"

partial_function (option) dirlink_slot :: "'a fs_state_scheme devtab \<Rightarrow> nat \<Rightarrow> u32 \<Rightarrow> 'a fs_state_scheme \<Rightarrow> (u32 \<times> 'a fs_state_scheme) option" where
  "dirlink_slot devs dp off s =
     (if off < ip_size (icache s dp) then do {
        (r, de, s) \<leftarrow> readi devs dp off 16 s;
        if r \<noteq> 16 then None
        else if le16_of (take 2 de) = 0 then Some (off, s)
        else dirlink_slot devs dp (off + 16) s }
      else Some (off, s))"

text \<open>The name field that \<^verbatim>\<open>strncpy(de.name, name, DIRSIZ)\<close> fills; with a name of 14 bytes or
  more the kernel's \<^verbatim>\<open>strncpy\<close> does not stop at the field.\<close>

definition name_field :: "bytes \<Rightarrow> bytes option" where
  "name_field name = (if length name < 14 then Some (name @ replicate (14 - length name) 0) else None)"

definition dirlink_fat :: "nat \<Rightarrow> bytes \<Rightarrow> u32 \<Rightarrow> 'a fs_state_scheme \<Rightarrow> (int \<times> 'a fs_state_scheme) option" where
  "dirlink_fat dp name inum s = do {
     let d = icache s dp;
     (ip, s) \<leftarrow> iget (ip_dev d) inum s;
     let i = icache s ip;
     (f, s) \<leftarrow> fat32_dirlink (ip_dev d) (ip_fat d) name (ip_type i = T_DIR) (ip_size i) (ip_fat i) s;
     let s = upd_inode ip (\<lambda>i. i\<lparr>ip_fat := f\<rparr>) s;
     let s = (if ip_inum (icache s ip) AND 0x40000000 = 0 then s
              else iupdate_inum ip (if fi_cluster f = 0
                then 0x80000000 OR push_bit 12 (fi_parent_cluster f) OR fi_dir_off f div 32
                else fi_cluster f) s);
     s \<leftarrow> iput ip s;
     Some (0, s) }"

definition dirlink :: "'a fs_state_scheme devtab \<Rightarrow> nat \<Rightarrow> bytes \<Rightarrow> u32 \<Rightarrow> 'a fs_state_scheme \<Rightarrow> (int \<times> 'a fs_state_scheme) option" where
  "dirlink devs dp name inum s =
     (if ip_fs_type (icache s dp) = FS_UFS2 then Some (-1, s)
      else if ip_fs_type (icache s dp) = FS_FAT32 then dirlink_fat dp name inum s
      else do {
        (r, s) \<leftarrow> dirlookup devs dp name s;
        (case r of Some (ip, _) \<Rightarrow> do { s \<leftarrow> iput ip s; Some (-1, s) }
         | None \<Rightarrow> do {
             (off, s) \<leftarrow> dirlink_slot devs dp 0 s;
             field \<leftarrow> name_field name;
             (r, s) \<leftarrow> writei devs dp (bytes_of_le16 (ucast inum) @ field) off s;
             if r \<noteq> 16 then None else Some (0, s) }) })"

section \<open>Paths\<close>

definition skip_slashes :: "bytes \<Rightarrow> bytes" where
  "skip_slashes path = dropWhile (\<lambda>c. c = 47) path"

definition skipelem :: "bytes \<Rightarrow> (bytes \<times> bytes) option" where
  "skipelem path =
     (let p = skip_slashes path; name = takeWhile (\<lambda>c. c \<noteq> 47) p in
      if p = [] then None
      else if length name > 255 then None
      else Some (name, skip_slashes (dropWhile (\<lambda>c. c \<noteq> 47) p)))"

lemma skipelem_shorter: "skipelem path = Some (name, rest) \<Longrightarrow> length rest < length path"
proof -
  assume "skipelem path = Some (name, rest)"
  then have p: "skip_slashes path \<noteq> []" "rest = skip_slashes (dropWhile (\<lambda>c. c \<noteq> 47) (skip_slashes path))"
    by (auto simp: skipelem_def Let_def split: if_splits)
  obtain c cs where c: "skip_slashes path = c # cs" using p(1) by (cases "skip_slashes path") auto
  then have "c \<noteq> 47" using hd_dropWhile [of "\<lambda>c. c = 47" path] by (auto simp: skip_slashes_def)
  then have "dropWhile (\<lambda>c. c \<noteq> 47) (skip_slashes path) = dropWhile (\<lambda>c. c \<noteq> 47) cs" by (simp add: c)
  then have "length rest \<le> length cs"
    unfolding p(2) skip_slashes_def by (simp add: length_dropWhile_le [THEN le_trans])
  moreover have "length (skip_slashes path) \<le> length path" by (simp add: skip_slashes_def length_dropWhile_le)
  ultimately show ?thesis by (simp add: c)
qed

definition data_namespace :: "bytes \<Rightarrow> 'a fs_state_scheme \<Rightarrow> bytes option" where
  "data_namespace path s =
     (let p = skip_slashes path in
      if take 4 p \<noteq> [100, 97, 116, 97] \<or> (drop 4 p \<noteq> [] \<and> p ! 4 \<noteq> 47) \<or> storage_ufs2_volume 2 s = None then None
      else Some (skip_slashes (drop 4 p)))"

definition strip_slash :: "bytes \<Rightarrow> bytes" where
  "strip_slash path = (if path \<noteq> [] \<and> hd path = 47 then tl path else path)"

definition is_console_path :: "bytes \<Rightarrow> bool" where
  "is_console_path path \<longleftrightarrow> strip_slash path = [100, 101, 118, 47, 99, 111, 110, 115, 111, 108, 101] \<or>
     strip_slash path = [99, 111, 110, 115, 111, 108, 101]"

definition tty_digit :: "bytes \<Rightarrow> u32 option" where
  "tty_digit rest = (if length rest = 1 \<and> 49 \<le> rest ! 0 \<and> rest ! 0 < 53 then Some (8 + (ucast (rest ! 0) - 49)) else None)"

definition devfs_path :: "bytes \<Rightarrow> u32" where
  "devfs_path path =
     (if is_console_path path then 1
      else let p = strip_slash path;
               tty = (if take 7 p = [100, 101, 118, 47, 116, 116, 121] then tty_digit (drop 7 p)
                      else if take 3 p = [116, 116, 121] then tty_digit (drop 3 p) else None)
        in if tty \<noteq> None then the tty
        else if p = [102, 110, 117, 115, 118, 99, 46, 99, 111, 109, 109, 97, 110, 100] then 2
        else if p = [102, 110, 117, 115, 118, 99, 46, 115, 116, 97, 116, 117, 115] then 3
        else if p = [46, 102, 110, 117, 104, 101, 97, 108, 116, 104] then 4
        else 0)"

definition namex_root :: "bytes \<Rightarrow> 'a fs_state_scheme \<Rightarrow> ((nat \<times> bytes) \<times> 'a fs_state_scheme) option" where
  "namex_root path s =
     (if path = [] \<or> hd path \<noteq> 47 then Some ((cur_cwd s, path), idup (cur_cwd s) s)
      else case data_namespace path s of
        Some p \<Rightarrow> do { (ip, s) \<leftarrow> iget 2 UFS2_ROOT_INO s; Some ((ip, p), s) }
      | None \<Rightarrow>
        if root_fs_type s = FS_FAT32 then do {
          let c = fv_root_cluster s;
          (ip, s) \<leftarrow> iget ROOTDEV c s;
          s \<leftarrow> ilock ip s;
          let s = (if ip_valid (icache s ip) then s
                   else upd_inode ip (\<lambda>i. i\<lparr>ip_fs_type := FS_FAT32,
                     ip_fat := (ip_fat i)\<lparr>fi_cluster := c, fi_attr := FAT32_ATTR_DIRECTORY\<rparr>, ip_size := 0xffffffff,
                     ip_type := T_DIR, ip_nlink := 1, ip_valid := True\<rparr>) s);
          s \<leftarrow> iunlock ip s;
          Some ((ip, path), s)
        } else do { (ip, s) \<leftarrow> iget ROOTDEV 1 s; Some ((ip, path), s) })"

text \<open>One component in a FAT32 directory.  Where the lookup misses, the C code tests the
  first byte of an entry it has not filled in; that has no result here.\<close>

definition namex_fat :: "nat \<Rightarrow> bytes \<Rightarrow> 'a fs_state_scheme \<Rightarrow> (nat option \<times> 'a fs_state_scheme) option" where
  "namex_fat ip name s = do {
     let d = icache s ip;
     ((cluster, de, off), s) \<leftarrow> fat32_lookup (ip_dev d) (fi_cluster (ip_fat d)) name s;
     de \<leftarrow> de;
     off \<leftarrow> off;
     if cluster = 0 \<and> de ! 0 = 0 then Some (None, s)
     else do {
       (nxt, s) \<leftarrow> iget (ip_dev d)
         (if cluster = 0 then 0x80000000 OR push_bit 12 (fi_cluster (ip_fat d)) OR off div 32 else cluster) s;
       s \<leftarrow> ilock nxt s;
       let s = (if ip_valid (icache s nxt) then s
                else upd_inode nxt (\<lambda>i. i\<lparr>ip_fs_type := FS_FAT32,
                  ip_fat := \<lparr>fi_cluster = cluster, fi_attr = de ! 11, fi_parent_cluster = fi_cluster (ip_fat d), fi_dir_off = off\<rparr>,
                  ip_size := le32_of (get_bytes de 28 4), ip_nlink := 1, ip_uid := 0, ip_gid := 0,
                  ip_mode := (if de ! 11 AND FAT32_ATTR_DIRECTORY \<noteq> 0 then 0x1ed else 0x1a4), ip_valid := True,
                  ip_type := (if de ! 11 AND FAT32_ATTR_DIRECTORY \<noteq> 0 then T_DIR else T_FILE)\<rparr>) s);
       s \<leftarrow> iunlock nxt s;
       Some (Some nxt, s) } }"

text \<open>The checks of one turn of the loop of \<^verbatim>\<open>namex\<close> on the locked directory.\<close>

definition namex_refused :: "nat \<Rightarrow> bytes \<Rightarrow> 'a fs_state_scheme \<Rightarrow> bool" where
  "namex_refused ip name s \<longleftrightarrow> (let i = icache s ip in
     ip_type i \<noteq> T_DIR \<or> \<not> inode_access i (cur_gid s) (cur_uid s) 1 \<or> (ip_fs_type i \<noteq> FS_UFS2 \<and> length name > 14))"

function namex_loop :: "'a fs_state_scheme devtab \<Rightarrow> bool \<Rightarrow> nat \<Rightarrow> bytes \<Rightarrow> 'a fs_state_scheme \<Rightarrow> ((nat \<times> bytes) option \<times> 'a fs_state_scheme) option" where
  "namex_loop devs parent ip path s =
     (case skipelem path of
        None \<Rightarrow> if parent then do { s \<leftarrow> iput ip s; Some (None, s) } else Some (Some (ip, []), s)
      | Some (name, rest) \<Rightarrow> do {
          s \<leftarrow> ilock ip s;
          if namex_refused ip name s then do { s \<leftarrow> iunlockput ip s; Some (None, s) }
          else if \<not> parent \<and> name = [46] then do { s \<leftarrow> iunlock ip s; namex_loop devs parent ip rest s }
          else if parent \<and> rest = [] then do { s \<leftarrow> iunlock ip s; Some (Some (ip, name), s) }
          else do {
            (nxt, s) \<leftarrow> (if ip_fs_type (icache s ip) = FS_FAT32 then namex_fat ip name s
                          else do { (r, s) \<leftarrow> dirlookup devs ip name s; Some (map_option fst r, s) });
            s \<leftarrow> iunlockput ip s;
            (case nxt of None \<Rightarrow> Some (None, s) | Some nxt \<Rightarrow> namex_loop devs parent nxt rest s) } })"
  by pat_completeness auto
termination
  by (relation "measure (\<lambda>(devs, parent, ip, path, s). length path)") (auto dest: skipelem_shorter)

declare namex_loop.simps [simp del]

definition namex :: "'a fs_state_scheme devtab \<Rightarrow> bytes \<Rightarrow> bool \<Rightarrow> 'a fs_state_scheme \<Rightarrow> ((nat \<times> bytes) option \<times> 'a fs_state_scheme) option" where
  "namex devs path parent s =
     (if \<not> parent \<and> devfs_path path \<noteq> 0 then do {
        (ip, s) \<leftarrow> iget DEVFS_DEVICE (devfs_path path) s;
        Some (Some (ip, []), s)
      } else do {
        ((ip, path), s) \<leftarrow> namex_root path s;
        namex_loop devs parent ip path s })"

definition namei :: "'a fs_state_scheme devtab \<Rightarrow> bytes \<Rightarrow> 'a fs_state_scheme \<Rightarrow> (nat option \<times> 'a fs_state_scheme) option" where
  "namei devs path s = do {
     (r, s) \<leftarrow> namex devs path False s;
     Some (map_option fst r, s) }"

definition nameiparent :: "'a fs_state_scheme devtab \<Rightarrow> bytes \<Rightarrow> 'a fs_state_scheme \<Rightarrow> ((nat \<times> bytes) option \<times> 'a fs_state_scheme) option" where
  "nameiparent devs path s = namex devs path True s"

section \<open>The path of a directory\<close>

definition is_dots :: "bytes \<Rightarrow> bool" where
  "is_dots name \<longleftrightarrow> name = [46] \<or> name = [46, 46]"

partial_function (option) ufs2_name_of :: "ufs2_volume \<Rightarrow> u32 \<Rightarrow> u32 \<Rightarrow> u32 \<Rightarrow> u32 \<Rightarrow> 'a fs_state_scheme \<Rightarrow> (bytes option \<times> 'a fs_state_scheme) option" where
  "ufs2_name_of v d child sz k s = do {
     (r, s) \<leftarrow> ufs2_readdir v d k sz s;
     if r = None then Some (None, s)
     else if fst (the r) = child \<and> \<not> is_dots (snd (the r)) then Some (Some (snd (the r)), s)
     else ufs2_name_of v d child sz (k + 1) s }"

text \<open>The short name of a FAT32 entry, with its dot, cut to the size of the buffer.\<close>

definition fat_short_name :: "bytes \<Rightarrow> nat \<Rightarrow> bytes" where
  "fat_short_name de sz =
     (let base = take (sz - 2) (takeWhile (\<lambda>c. c \<noteq> 32) (take 8 de));
          ext = takeWhile (\<lambda>c. c \<noteq> 32) (get_bytes de 8 3)
      in if de ! 8 \<noteq> 32 \<and> length base + 1 < sz then base @ [46] @ take (sz - 1 - (length base + 1)) ext else base)"

text \<open>The scan of one 512-byte piece: an answer, or go on.\<close>

fun fat_name_scan :: "bytes \<Rightarrow> u32 \<Rightarrow> u32 \<Rightarrow> u32 \<Rightarrow> nat \<Rightarrow> nat list \<Rightarrow> bytes option option" where
  "fat_name_scan block cluster child off sz [] = None"
| "fat_name_scan block cluster child off sz (i # is) =
     (let de = get_bytes block i 32; c = dirent_cluster de in
      if de ! 0 = 0 then Some None
      else if de ! 0 = 0xe5 \<or> de ! 11 = FAT32_ATTR_LONG_NAME \<or> de ! 0 = 46 then fat_name_scan block cluster child off sz is
      else if (if c \<noteq> 0 then c else 0x80000000 OR push_bit 12 cluster OR (off + of_nat i) div 32) \<noteq> child
      then fat_name_scan block cluster child off sz is
      else Some (Some (fat_short_name de sz)))"

partial_function (option) fat_name_of :: "u32 \<Rightarrow> u32 \<Rightarrow> u32 \<Rightarrow> nat \<Rightarrow> u32 \<Rightarrow> 'a fs_state_scheme \<Rightarrow> (bytes option \<times> 'a fs_state_scheme) option" where
  "fat_name_of dev cluster child sz off s = do {
     (n, block, s) \<leftarrow> fat32_read dev cluster off 512 s;
     if length block > 512 then None
     else if n \<le> 0 then Some (None, s)
     else do {
       let r = fat_name_scan block cluster child off sz (map (\<lambda>k. k * 32) [0..<nat n div 32]);
       if r \<noteq> None then Some (the r, s)
       else if n < 512 then Some (None, s)
       else fat_name_of dev cluster child sz (off + 512) s } }"

partial_function (option) native_name_of :: "'a fs_state_scheme devtab \<Rightarrow> nat \<Rightarrow> u32 \<Rightarrow> nat \<Rightarrow> u32 \<Rightarrow> 'a fs_state_scheme \<Rightarrow> (bytes option \<times> 'a fs_state_scheme) option" where
  "native_name_of devs dp child sz off s =
     (if off < ip_size (icache s dp) then do {
        (r, de, s) \<leftarrow> readi devs dp off 16 s;
        let name = take (sz - 1) (cstr (drop 2 de));
        if r \<noteq> 16 then Some (None, s)
        else if ucast (le16_of (take 2 de)) = child \<and> \<not> is_dots name then Some (Some name, s)
        else native_name_of devs dp child sz (off + 16) s }
      else Some (None, s))"

definition dir_name_of :: "'a fs_state_scheme devtab \<Rightarrow> nat \<Rightarrow> u32 \<Rightarrow> u32 \<Rightarrow> 'a fs_state_scheme \<Rightarrow> (bytes option \<times> 'a fs_state_scheme) option" where
  "dir_name_of devs dp child sz s =
     (let d = icache s dp in
      if ip_type d \<noteq> T_DIR then Some (None, s)
      else case ip_fs_type d of
        FS_UFS2 \<Rightarrow> (case storage_ufs2_volume (ip_dev d) s of None \<Rightarrow> Some (None, s)
          | Some v \<Rightarrow> ufs2_name_of v (ip_inum d) child sz 0 s)
      | FS_FAT32 \<Rightarrow> fat_name_of (ip_dev d) (fi_cluster (ip_fat d)) child (unat sz) 0 s
      | _ \<Rightarrow> native_name_of devs dp child (unat sz) 0 s)"

text \<open>The buffer is filled from its end: \<open>acc\<close> is what it holds before the final NUL.\<close>

definition path_prepend :: "nat \<Rightarrow> bytes \<Rightarrow> bytes \<Rightarrow> bytes option" where
  "path_prepend sz acc name =
     (if sz - 1 - length acc < length name + 1 then None else Some (47 # name @ acc))"

text \<open>The walk towards the root; it gives the inode it stopped at, or fails.  The first
  argument is the turns left of the 64.\<close>

fun path_walk :: "nat \<Rightarrow> 'a fs_state_scheme devtab \<Rightarrow> nat \<Rightarrow> nat \<Rightarrow> bytes \<Rightarrow> 'a fs_state_scheme \<Rightarrow> ((nat \<times> bytes) option \<times> 'a fs_state_scheme) option" where
  "path_walk 0 devs sz ip acc s = do { s \<leftarrow> iput ip s; Some (None, s) }"
| "path_walk (Suc k) devs sz ip acc s = do {
     s \<leftarrow> ilock ip s;
     if ip_type (icache s ip) \<noteq> T_DIR then do { s \<leftarrow> iunlockput ip s; Some (None, s) }
     else do {
       (r, s) \<leftarrow> (if ip_fs_type (icache s ip) = FS_DEVFS then Some (None, s) else dirlookup devs ip [46, 46] s);
       (case r of None \<Rightarrow> do { s \<leftarrow> iunlock ip s; Some (Some (ip, acc), s) }
        | Some (parent, _) \<Rightarrow>
            if ip_dev (icache s parent) = ip_dev (icache s ip) \<and> ip_inum (icache s parent) = ip_inum (icache s ip) then do {
              s \<leftarrow> iunlock ip s;
              s \<leftarrow> iput parent s;
              Some (Some (ip, acc), s)
            } else do {
              s \<leftarrow> iunlock ip s;
              s \<leftarrow> ilock parent s;
              (name, s) \<leftarrow> dir_name_of devs parent (ip_inum (icache s ip)) 256 s;
              (case name of None \<Rightarrow> do { s \<leftarrow> iunlockput parent s; s \<leftarrow> iput ip s; Some (None, s) }
               | Some name \<Rightarrow> do {
                   s \<leftarrow> iunlock parent s;
                   s \<leftarrow> iput ip s;
                   (case path_prepend sz acc name of
                      None \<Rightarrow> do { s \<leftarrow> iput parent s; Some (None, s) }
                    | Some acc \<Rightarrow> path_walk k devs sz parent acc s) }) }) } }"

definition inode_path :: "'a fs_state_scheme devtab \<Rightarrow> nat \<Rightarrow> nat \<Rightarrow> 'a fs_state_scheme \<Rightarrow> (bytes option \<times> 'a fs_state_scheme) option" where
  "inode_path devs start sz s =
     (if sz < 2 then Some (None, s)
      else do {
        (r, s) \<leftarrow> path_walk 64 devs sz start [] (idup start s);
        (case r of None \<Rightarrow> Some (None, s)
         | Some (ip, acc) \<Rightarrow> do {
             let acc' = (if ip_dev (icache s ip) \<noteq> ROOTDEV \<and> storage_ufs2_volume (ip_dev (icache s ip)) s \<noteq> None
                         then path_prepend sz acc [100, 97, 116, 97] else Some acc);
             s \<leftarrow> iput ip s;
             Some (map_option (\<lambda>p. if p = [] then [47] else p) acc', s) }) })"

end
