(* ===== verification/Fs_Facts.thy ===== *)
theory Fs_Facts
  imports Fs
begin

text \<open>
  Facts on the native file system: block allocation, the inode codec, the inode cache, and
  the behaviour of reads and path lookups on their unusual branches.
\<close>

section \<open>Frames\<close>

lemma fs_frame:
  fixes s t :: "'a fs_state_scheme"
  assumes "txn_frame s t"
  shows "fs_sb t = fs_sb s" "icache t = icache s" "rootdev t = rootdev s" "root_fs_type t = root_fs_type s"
    "fnu_root_volume t = fnu_root_volume s" "fnu_data_volume t = fnu_data_volume s" "cur_uid t = cur_uid s"
    "cur_gid t = cur_gid s" "cur_cwd t = cur_cwd s" "BBLOCK b t = BBLOCK b s" "IBLOCK n t = IBLOCK n s"
  using txn_frameD(4) [OF assms] by (cases s; cases t; simp add: BBLOCK_def IBLOCK_def)+

lemma upd_inode_simps [simp]:
  "bcache (upd_inode ip f s) = bcache s" "mru (upd_inode ip f s) = mru s" "disk (upd_inode ip f s) = disk s"
  "curpid (upd_inode ip f s) = curpid s" "lg_dev (upd_inode ip f s) = lg_dev s" "lg_lh (upd_inode ip f s) = lg_lh s"
  "lg_size (upd_inode ip f s) = lg_size s" "lg_outstanding (upd_inode ip f s) = lg_outstanding s"
  "lg_readonly (upd_inode ip f s) = lg_readonly s" "icache (upd_inode ip f s) = (icache s)(ip := f (icache s ip))"
  "fs_sb (upd_inode ip f s) = fs_sb s" "io_ok (upd_inode ip f s) = io_ok s"
  by (simp_all add: upd_inode_def io_ok_def fun_eq_iff)

lemma txn_upd_inode [simp]: "txn (upd_inode ip f s) = txn s" "bview (upd_inode ip f s) = bview s"
  "txn_room (upd_inode ip f s) = txn_room s"
proof -
  have "bio_inv (upd_inode ip f s) = bio_inv s" "held_keys (upd_inode ip f s) = held_keys s"
    "pinned (upd_inode ip f s) = pinned s" "bview (upd_inode ip f s) = bview s"
    by (rule bio_cong; simp)+
  then show "txn (upd_inode ip f s) = txn s" "bview (upd_inode ip f s) = bview s"
    by (simp_all add: txn_def log_txn_def)
  show "txn_room (upd_inode ip f s) = txn_room s" by (simp add: txn_room_def)
qed

section \<open>The bitmap\<close>

lemma map_bit_iff: "map_bit d bi \<longleftrightarrow> bit (d ! (bi div 8)) (bi mod 8)"
proof -
  have "bi mod 8 < LENGTH(8)" by simp
  then show ?thesis unfolding map_bit_def
    by (metis (no_types, lifting) and_exp_eq_0_iff_not_bit push_bit_of_1)
qed

lemma bit_place_eq: "(bi :: nat) = bj \<longleftrightarrow> bi div 8 = bj div 8 \<and> bi mod 8 = bj mod 8"
  by (metis div_mult_mod_eq)

lemma set_map_bit_iff:
  assumes "bi div 8 < length d" "bj div 8 < length d"
  shows "map_bit (set_map_bit d bi) bj \<longleftrightarrow> map_bit d bj \<or> bj = bi"
  using assms unfolding bit_place_eq [of bj bi]
  by (cases "bi div 8 = bj div 8") (auto simp: map_bit_iff set_map_bit_def bit_simps)

lemma clear_map_bit_iff:
  assumes "bi div 8 < length d" "bj div 8 < length d"
  shows "map_bit (clear_map_bit d bi) bj \<longleftrightarrow> map_bit d bj \<and> bj \<noteq> bi"
  using assms unfolding bit_place_eq [of bj bi]
  by (cases "bi div 8 = bj div 8") (auto simp: map_bit_iff clear_map_bit_def bit_simps)

lemma length_map_bit [simp]: "length (set_map_bit d bi) = length d" "length (clear_map_bit d bi) = length d"
  by (simp_all add: set_map_bit_def clear_map_bit_def)

text \<open>The blocks in use, as the bitmap has them.\<close>

definition in_use :: "'a fs_state_scheme \<Rightarrow> nat \<Rightarrow> bool" where
  "in_use s b \<longleftrightarrow> map_bit (bview s (lg_dev s) (BBLOCK (of_nat b) s)) (b mod 4096)"

definition fs_blocks_ok :: "'a fs_state_scheme \<Rightarrow> bool" where
  "fs_blocks_ok s \<longleftrightarrow> (\<forall>b < unat (sb_size (fs_sb s)). io_ok s (lg_dev s) (BBLOCK (of_nat b) s) \<and>
     io_ok s (lg_dev s) (of_nat b))"

definition set_view :: "'a fs_state_scheme \<Rightarrow> u32 \<Rightarrow> bytes \<Rightarrow> u32 \<Rightarrow> u32 \<Rightarrow> bytes" where
  "set_view s n v = (bview s)(lg_dev s := (bview s (lg_dev s))(n := v))"

text \<open>The blocks after an allocation of block \<open>r\<close>: its bit set, then the block cleared.\<close>

definition balloc_view :: "'a fs_state_scheme \<Rightarrow> nat \<Rightarrow> u32 \<Rightarrow> u32 \<Rightarrow> bytes" where
  "balloc_view s r =
     (let n = BBLOCK (of_nat r) s; v = set_view s n (set_map_bit (bview s (lg_dev s) n) (r mod 4096))
      in v(lg_dev s := (v (lg_dev s))(of_nat r := replicate 512 0)))"

lemma BBLOCK_run:
  assumes "b mod 4096 = 0" "bi < 4096" "b + bi < 4294967296"
  shows "BBLOCK (of_nat (b + bi)) s = BBLOCK (of_nat b) s" "(b + bi) mod 4096 = bi"
proof -
  obtain k where "b = 4096 * k" using assms(1) by (auto elim!: dvdE simp flip: dvd_eq_mod_eq_0)
  then have d: "(b + bi) div 4096 = b div 4096" "(b + bi) mod 4096 = bi" using assms(2) by simp_all
  have "unat (of_nat (b + bi) div 4096 :: u32) = unat (of_nat b div 4096 :: u32)"
    using assms(3) d by (simp add: unat_div_distrib del: of_nat_add)
  then have "(of_nat (b + bi) :: u32) div 4096 = of_nat b div 4096" by (simp only: word_unat_eq_iff)
  then show "BBLOCK (of_nat (b + bi)) s = BBLOCK (of_nat b) s" by (simp only: BBLOCK_def)
  show "(b + bi) mod 4096 = bi" by (rule d(2))
qed

lemma in_use_cong:
  assumes "txn_frame s t" "bview t = bview s"
  shows "in_use t = in_use s" "fs_blocks_ok t = fs_blocks_ok s"
  using assms fs_frame [OF assms(1)] txn_frameD(1,2) [OF assms(1)]
  by (simp_all add: in_use_def fs_blocks_ok_def fun_eq_iff)

lemma find_first: "(\<exists>i. find P xs = Some i \<and> P i \<and> i \<in> set xs) \<or> find P xs = None \<and> (\<forall>i \<in> set xs. \<not> P i)"
  by (induction xs) auto

lemma balloc_scan_ok:
  assumes "txn s" "fs_blocks_ok s" "2 \<le> txn_room s"
    and "\<forall>b \<in> set bs. b mod 4096 = 0 \<and> b < unat (sb_size (fs_sb s))"
    and "\<exists>b \<in> set bs. \<exists>bi < 4096. b + bi < unat (sb_size (fs_sb s)) \<and> \<not> in_use s (b + bi)"
  shows "\<exists>r t. balloc_scan (lg_dev s) bs s = Some (of_nat r, t) \<and> r < unat (sb_size (fs_sb s)) \<and> \<not> in_use s r \<and>
    txn t \<and> txn_frame s t \<and> txn_room t \<ge> txn_room s - 2 \<and>
    bview t = balloc_view s r"
  using assms
proof (induction bs arbitrary: s)
  case (Cons b bs)
  let ?d = "lg_dev s" and ?n = "BBLOCK (of_nat b) s" and ?sz = "unat (sb_size (fs_sb s))"
  let ?find = "find (\<lambda>bi. \<not> map_bit (bview s ?d ?n) bi) [0..<min 4096 (?sz - b)]"
  have b: "b mod 4096 = 0" "b < ?sz" using Cons.prems(4) by auto
  have io: "io_ok s ?d ?n" using Cons.prems(2) b(2) by (simp add: fs_blocks_ok_def)
  have szb: "?sz < 4294967296" by (rule unat_lt(3))
  have run: "in_use s (b + bi) = map_bit (bview s ?d ?n) bi" if "bi < 4096" "b + bi < ?sz" for bi
    using BBLOCK_run(1) [OF b(1) that(1), of s] BBLOCK_run(2) [OF b(1) that(1)] that(2) szb by (simp add: in_use_def del: of_nat_add)
  obtain i s1 where g: "bread ?d ?n s = Some (i, s1)" "b_data (bcache s1 i) = bview s ?d ?n"
    "\<forall>f. modify_block ?d ?n f s = log_write i (set_data i (f (bview s ?d ?n)) s1) \<bind> brelse i"
    "read_block ?d ?n s = map_option (Pair (bview s ?d ?n)) (brelse i s1)" "bio_frame s s1"
    by (rule bread_data [OF Cons.prems(1) io])
  have sb1: "fs_sb s1 = fs_sb s" using fs_frame(1) [OF bio_txn_frame [OF g(5)]] .
  from find_first [of "\<lambda>bi. \<not> map_bit (bview s ?d ?n) bi" "[0..<min 4096 (?sz - b)]"]
  consider (hit) bi where "?find = Some bi" "\<not> map_bit (bview s ?d ?n) bi" "bi < 4096" "b + bi < ?sz"
    | (miss) "?find = None" "\<forall>bi. bi < 4096 \<longrightarrow> b + bi < ?sz \<longrightarrow> map_bit (bview s ?d ?n) bi"
    by fastforce
  then show ?case
  proof cases
    case hit
    note br = BBLOCK_run(1) [OF b(1) hit(3), of s] BBLOCK_run(2) [OF b(1) hit(3)]
    have lt: "b + bi < 4294967296" using hit(4) szb by simp
    have inv: "bio_inv s" using Cons.prems(1) by (simp add: txn_def log_txn_def)
    have l: "length (set_map_bit (bview s ?d ?n) bi) = BSIZE" using bview_length [OF inv] by simp
    have rm: "0 < txn_room s" using Cons.prems(3) by simp
    obtain t where t: "modify_block ?d ?n (\<lambda>d. set_map_bit d bi) s = Some t" "txn t"
      "bview t = (bview s)(?d := (bview s ?d)(?n := set_map_bit (bview s ?d ?n) bi))"
      "txn_room t \<ge> txn_room s - 1" "txn_frame s t"
      by (rule modify_block_ok [OF Cons.prems(1) io rm, where f = "\<lambda>d. set_map_bit d bi", OF l])
    have d: "lg_dev t = ?d" using txn_frameD(2) [OF t(5)] .
    have io2: "io_ok t (lg_dev t) (of_nat (b + bi))"
      using Cons.prems(2) hit(4) txn_frameD(1) [OF t(5)] d
      by (simp add: fs_blocks_ok_def del: of_nat_add)
    have rm2: "0 < txn_room t" using Cons.prems(3) t(4) by simp
    obtain u where u: "modify_block (lg_dev t) (of_nat (b + bi)) (\<lambda>_. replicate 512 0) t = Some u" "txn u"
      "bview u = (bview t)(lg_dev t := (bview t (lg_dev t))(of_nat (b + bi) := replicate 512 0))"
      "txn_room u \<ge> txn_room t - 1" "txn_frame t u"
      by (rule modify_block_ok [OF t(2) io2 rm2, where f = "\<lambda>_. replicate 512 0"]) simp
    have "log_write i (set_data i (set_map_bit (bview s ?d ?n) bi) s1) \<bind> brelse i = Some t"
      using g(3) t(1) by simp
    then have "balloc_scan ?d (b # bs) s = Some (of_nat (b + bi), u)"
      using u(1) by (auto simp: g(1,2) sb1 hit(1) bzero_def d Let_def simp del: of_nat_add split: bind_splits)
    moreover have "bview u = balloc_view s (b + bi)"
      using u(3) t(3) d br [OF lt] by (simp add: balloc_view_def set_view_def Let_def del: of_nat_add)
    moreover have "\<not> in_use s (b + bi)" using run [OF hit(3,4)] hit(2) by simp
    ultimately show ?thesis
      using hit(4) u(2,4) t(4) txn_frame_trans [OF t(5) u(5)] by (intro exI [of _ "b + bi"] exI [of _ u]) (simp del: of_nat_add)
  next
    case miss
    obtain t where t: "read_block ?d ?n s = Some (bview s ?d ?n, t)" "txn t" "bview t = bview s"
      "txn_room t = txn_room s" "txn_frame s t" by (rule read_block_ok [OF Cons.prems(1) io])
    note fr = fs_frame [OF t(5)] txn_frameD(2) [OF t(5)] in_use_cong [OF t(5,3)]
    have step: "balloc_scan ?d (b # bs) s = balloc_scan ?d bs t"
      using t(1) by (auto simp: g(1,2,4) sb1 miss(1) Let_def)
    have "\<exists>b \<in> set bs. \<exists>bi < 4096. b + bi < ?sz \<and> \<not> in_use s (b + bi)"
      using Cons.prems(5) miss(2) run by auto
    then have p: "fs_blocks_ok t" "2 \<le> txn_room t" "\<forall>b \<in> set bs. b mod 4096 = 0 \<and> b < unat (sb_size (fs_sb t))"
      "\<exists>b \<in> set bs. \<exists>bi < 4096. b + bi < unat (sb_size (fs_sb t)) \<and> \<not> in_use t (b + bi)"
      using Cons.prems(2-4) t(4) by (simp_all add: fr)
    from Cons.IH [OF t(2) p] obtain r u where u: "balloc_scan (lg_dev t) bs t = Some (of_nat r, u)"
      "r < unat (sb_size (fs_sb t))" "\<not> in_use t r" "txn u" "txn_frame t u" "txn_room u \<ge> txn_room t - 2"
      "bview u = balloc_view t r" by blast
    have "balloc_view t r = balloc_view s r" by (simp add: balloc_view_def set_view_def fr t(3))
    then show ?thesis
      using u step txn_frame_trans [OF t(5) u(5)] unfolding fr t(4) by (intro exI [of _ r] exI [of _ u]) simp
  qed
qed simp

lemma BBLOCK_eq:
  assumes "b < 4294967296" "r < 4294967296" "BBLOCK (of_nat b) s = BBLOCK (of_nat r) s" "b mod 4096 = r mod 4096"
  shows "b = r"
proof -
  have "unat (of_nat b div 4096 :: u32) = unat (of_nat r div 4096 :: u32)" using assms(3) by (simp add: BBLOCK_def)
  then have "b div 4096 = r div 4096" using assms(1,2) by (simp add: unat_div_distrib)
  then show ?thesis using assms(4) by (metis div_mult_mod_eq)
qed

text \<open>The bitmap blocks are themselves marked in use, as mkfs leaves them.\<close>

definition bitmap_reserved :: "'a fs_state_scheme \<Rightarrow> bool" where
  "bitmap_reserved s \<longleftrightarrow> (\<forall>b < unat (sb_size (fs_sb s)). in_use s (unat (BBLOCK (of_nat b) s)))"

lemma balloc_view_in_use:
  assumes "txn s" "r < unat (sb_size (fs_sb s))" "\<not> in_use s r" "bitmap_reserved s"
    and "txn_frame s t" "bview t = balloc_view s r" "b < unat (sb_size (fs_sb s))"
  shows "in_use t b \<longleftrightarrow> in_use s b \<or> b = r"
proof -
  let ?d = "lg_dev s" and ?n = "\<lambda>b. BBLOCK (of_nat b) s"
  have inv: "bio_inv s" using assms(1) by (simp add: txn_def log_txn_def)
  have lt: "b < 4294967296" "r < 4294967296" using assms(2,7) unat_lt(3) [of "sb_size (fs_sb s)"] by simp_all
  have nr: "?n c \<noteq> of_nat r" if "c < unat (sb_size (fs_sb s))" for c
  proof
    assume "?n c = of_nat r"
    then have "unat (?n c) = r" using lt(2) by simp
    then show False using assms(3,4) that by (auto simp: bitmap_reserved_def)
  qed
  have v: "bview t ?d (?n b) = (if ?n b = ?n r then set_map_bit (bview s ?d (?n r)) (r mod 4096) else bview s ?d (?n b))"
    using nr [OF assms(7)] by (simp add: assms(6) balloc_view_def set_view_def Let_def)
  have l: "length (bview s ?d (?n r)) = 512" by (rule bview_length [OF inv])
  have m: "(c mod 4096) div 8 < 512" for c :: nat by (simp add: div_less_iff_less_mult)
  have u: "in_use t b = map_bit (bview t ?d (?n b)) (b mod 4096)"
    using fs_frame(10) [OF assms(5)] txn_frameD(2) [OF assms(5)] by (simp add: in_use_def)
  show ?thesis
  proof (cases "?n b = ?n r")
    case True
    then have "in_use t b \<longleftrightarrow> map_bit (bview s ?d (?n r)) (b mod 4096) \<or> b mod 4096 = r mod 4096"
      using u v set_map_bit_iff [of "r mod 4096" "bview s ?d (?n r)" "b mod 4096"] l m by simp
    then show ?thesis using True BBLOCK_eq [OF lt True] by (auto simp: in_use_def)
  next
    case False
    then show ?thesis using u v by (auto simp: in_use_def)
  qed
qed

section \<open>Properties of block allocation\<close>

text \<open>C8. \<^verbatim>\<open>balloc\<close> hands out a fresh block: inside a transaction with room for two blocks,
  where the bitmap marks its own blocks used and some block is free, it returns a block that
  was free; afterwards exactly that block is newly in use, its content is zero, and no other
  block has changed but the bitmap block of its bit.\<close>

theorem balloc_fresh:
  assumes "txn s" "fs_blocks_ok s" "2 \<le> txn_room s" "bitmap_reserved s"
    and "\<exists>b < unat (sb_size (fs_sb s)). \<not> in_use s b"
  shows "\<exists>r t. balloc (lg_dev s) s = Some (of_nat r, t) \<and> r < unat (sb_size (fs_sb s)) \<and> \<not> in_use s r \<and>
    (\<forall>b < unat (sb_size (fs_sb s)). in_use t b \<longleftrightarrow> in_use s b \<or> b = r) \<and>
    bview t (lg_dev s) (of_nat r) = replicate 512 0 \<and>
    (\<forall>d n. (d, n) \<noteq> (lg_dev s, of_nat r) \<and> (d, n) \<noteq> (lg_dev s, BBLOCK (of_nat r) s) \<longrightarrow> bview t d n = bview s d n)"
proof -
  let ?sz = "unat (sb_size (fs_sb s))"
  let ?bs = "map (\<lambda>k. k * 4096) [0..<(?sz + 4095) div 4096]"
  have bs: "\<forall>b \<in> set ?bs. b mod 4096 = 0 \<and> b < ?sz"
  proof
    fix b assume "b \<in> set ?bs"
    then obtain k where k: "b = k * 4096" "k < (?sz + 4095) div 4096" by auto
    from k(2) have "Suc k * 4096 \<le> ?sz + 4095" by (simp add: less_eq_div_iff_mult_less_eq Suc_le_eq [symmetric])
    then show "b mod 4096 = 0 \<and> b < ?sz" by (simp add: k(1))
  qed
  obtain b where b: "b < ?sz" "\<not> in_use s b" using assms(5) by blast
  have "b div 4096 < (?sz + 4095) div 4096" using b(1) by (simp add: less_eq_div_iff_mult_less_eq Suc_le_eq [symmetric])
  then have "b div 4096 * 4096 \<in> set ?bs" by auto
  moreover have "b div 4096 * 4096 + b mod 4096 = b" by simp
  ultimately have "\<exists>b \<in> set ?bs. \<exists>bi < 4096. b + bi < ?sz \<and> \<not> in_use s (b + bi)"
    using b by (metis mod_less_divisor zero_less_numeral)
  from balloc_scan_ok [OF assms(1-3) bs this] obtain r t where
    t: "balloc_scan (lg_dev s) ?bs s = Some (of_nat r, t)" "r < ?sz" "\<not> in_use s r" "txn_frame s t" "bview t = balloc_view s r"
    by blast
  have "\<forall>b < ?sz. in_use t b \<longleftrightarrow> in_use s b \<or> b = r"
    using balloc_view_in_use [OF assms(1) t(2,3) assms(4) t(4,5)] by blast
  moreover have "bview t (lg_dev s) (of_nat r) = replicate 512 0" by (simp add: t(5) balloc_view_def Let_def)
  moreover have "bview t d n = bview s d n" if "(d, n) \<noteq> (lg_dev s, of_nat r)" "(d, n) \<noteq> (lg_dev s, BBLOCK (of_nat r) s)" for d n
    using that by (auto simp: t(5) balloc_view_def set_view_def Let_def)
  ultimately show ?thesis using t(1-3) by (auto simp: balloc_def)
qed

definition demo_fs :: "(u32 \<Rightarrow> bytes) \<Rightarrow> (nat \<Rightarrow> inode) \<Rightarrow> fs_state" where
  "demo_fs D ic = txn_machine 100 D
     \<lparr>fv_fat_start = 0, fv_data_start = 0, fv_spc = 0, fv_total_sectors = 0, fv_root_cluster = 0, fv_valid = False,
      fs_sb = \<lparr>sb_size = 8, sb_nblocks = 2, sb_ninodes = 4, sb_nlog = 0, sb_logstart = 2, sb_inodestart = 4, sb_bmapstart = 5\<rparr>,
      rootdev = 28, root_fs_type = FS_NATIVE, icache = ic, temp_inum = 0, fnu_root_volume = None, fnu_data_volume = None,
      cur_uid = 0, cur_gid = 0, cur_cwd = 0\<rparr>"

definition demo_blocks :: "u32 \<Rightarrow> bytes" where
  "demo_blocks n = (if n = 5 then 0x3f # replicate 511 0 else replicate 512 0)"

lemma demo_fs_facts:
  "txn (demo_fs demo_blocks ic)" "txn_room (demo_fs demo_blocks ic) = 29"
  "io_ok (demo_fs demo_blocks ic) 28 n \<longleftrightarrow> ucast n + 1 \<le> (100 :: u64)"
  "bview (demo_fs demo_blocks ic) = (\<lambda>_. demo_blocks)" "lg_dev (demo_fs demo_blocks ic) = 28"
  "sb_size (fs_sb (demo_fs demo_blocks ic)) = 8" "icache (demo_fs demo_blocks ic) = ic"
  "BBLOCK b (demo_fs demo_blocks ic) = b div 4096 + 5" "IBLOCK b (demo_fs demo_blocks ic) = b div 4 + 4"
proof -
  have l: "length (demo_blocks n) = BSIZE" for n by (simp add: demo_blocks_def)
  note m = txn_machine_ok [of demo_blocks, OF l]
  show "txn (demo_fs demo_blocks ic)" "txn_room (demo_fs demo_blocks ic) = 29"
    "io_ok (demo_fs demo_blocks ic) 28 n \<longleftrightarrow> ucast n + 1 \<le> (100 :: u64)"
    "bview (demo_fs demo_blocks ic) = (\<lambda>_. demo_blocks)" "lg_dev (demo_fs demo_blocks ic) = 28"
    by (simp_all add: demo_fs_def m)
qed (simp_all add: demo_fs_def txn_machine_def BBLOCK_def IBLOCK_def)

definition free_inode :: inode where
  "free_inode = \<lparr>ip_dev = 0, ip_inum = 0, ip_ref = 0, ip_lock = initsleeplock, ip_valid = False, ip_type = 0, ip_size = 0,
     ip_nlink = 0, ip_uid = 0, ip_gid = 0, ip_mode = 0, ip_fs_type = FS_NATIVE, ip_major = 0, ip_minor = 0,
     ip_addrs = replicate 13 0, ip_fat = \<lparr>fi_cluster = 0, fi_attr = 0, fi_parent_cluster = 0, fi_dir_off = 0\<rparr>,
     ip_ufs2 = empty_ufs2_inode\<rparr>"

theorem balloc_fresh_witness:
  "\<exists>r t. balloc 28 (demo_fs demo_blocks (\<lambda>_. free_inode)) = Some (of_nat r, t) \<and> r < 8 \<and> in_use t r"
proof -
  let ?s = "demo_fs demo_blocks (\<lambda>_. free_inode)"
  have B: "BBLOCK (of_nat b) ?s = 5" if "b < 8" for b
  proof -
    have "unat (of_nat b div 4096 :: u32) = 0" using that by (simp add: unat_div_distrib)
    then have "(of_nat b div 4096 :: u32) = 0" by (simp only: unat_eq_0)
    then show ?thesis by (simp add: demo_fs_facts)
  qed
  have use: "in_use ?s b \<longleftrightarrow> bit (0x3f :: u8) b" if "b < 8" for b
    using that B by (simp add: in_use_def demo_fs_facts demo_blocks_def map_bit_iff)
  have "fs_blocks_ok ?s"
  proof -
    have "ucast (of_nat b :: u32) + 1 \<le> (100 :: u64)" if "b < 8" for b
      using that by (simp add: word_le_nat_alt unat_plus_if')
    then show ?thesis using B by (simp add: fs_blocks_ok_def demo_fs_facts)
  qed
  moreover have "bitmap_reserved ?s" using B use [of 5] by (simp add: bitmap_reserved_def demo_fs_facts)
  moreover have "\<exists>b < unat (sb_size (fs_sb ?s)). \<not> in_use ?s b"
    using use [of 6] by (intro exI [of _ 6]) (simp add: demo_fs_facts)
  ultimately obtain r t where "balloc 28 ?s = Some (of_nat r, t)" "r < 8" "\<forall>b < 8. in_use t b \<longleftrightarrow> in_use ?s b \<or> b = r"
    using balloc_fresh [of ?s] demo_fs_facts(1,2,5,6) [of "\<lambda>_. free_inode"] by auto
  then show ?thesis by blast
qed

section \<open>The inode codec\<close>

lemma length_put_le32s [simp]:
  "off + 4 * length xs \<le> length d \<Longrightarrow> length (put_le32s d off xs) = length d"
  by (induction xs arbitrary: d off) auto

lemma get_put_le32s_other:
  "off + 4 * length xs \<le> length d \<Longrightarrow> a + n \<le> length d \<Longrightarrow> a + n \<le> off \<or> off + 4 * length xs \<le> a \<Longrightarrow>
   get_bytes (put_le32s d off xs) a n = get_bytes d a n"
  by (induction xs arbitrary: d off) (auto simp: get_put_disjoint)

lemma le32_of_put_le32s:
  "off + 4 * length xs \<le> length d \<Longrightarrow> i < length xs \<Longrightarrow> le32_of (get_bytes (put_le32s d off xs) (off + i * 4) 4) = xs ! i"
proof (induction xs arbitrary: d off i)
  case (Cons x xs)
  show ?case
  proof (cases i)
    case 0
    with Cons.prems show ?thesis by (simp add: get_put_le32s_other get_put_same)
  next
    case (Suc j)
    then show ?thesis using Cons.prems Cons.IH [of "off + 4" "put_bytes d off (bytes_of_le32 x)" j]
      by (simp add: add.assoc)
  qed
qed simp

lemma length_store_dinode [simp]: "length (ip_addrs i) = 13 \<Longrightarrow> length d = 128 \<Longrightarrow> length (store_dinode i d) = 128"
  by (simp add: store_dinode_def Let_def)

lemma load_store_dinode:
  assumes "length (ip_addrs i) = 13" "length d = 128"
  shows "load_dinode (store_dinode i d) j = j\<lparr>ip_type := ip_type i, ip_major := ip_major i, ip_minor := ip_minor i,
    ip_nlink := ip_nlink i, ip_size := ip_size i, ip_uid := ip_uid i, ip_gid := ip_gid i, ip_mode := ip_mode i,
    ip_addrs := ip_addrs i\<rparr>"
proof -
  have a: "map (\<lambda>k. le32_of (get_bytes (put_le32s e 24 (ip_addrs i)) (24 + k * 4) 4)) [0..<13] = ip_addrs i"
    if "length e = 128" for e
    using le32_of_put_le32s [of 24 "ip_addrs i" e] that assms(1) by (intro nth_equalityI) simp_all
  show ?thesis
    using assms by (simp add: load_dinode_def store_dinode_def Let_def get_put_le32s_other a) (simp add: buf_simps)
qed

lemma dinode_off_bound: "dinode_off n + 128 \<le> 512"
proof -
  have "unat (n mod 4) < 4" by (simp add: unat_mod_distrib)
  then show ?thesis by (simp add: dinode_off_def)
qed

lemma dinode_place_eq:
  assumes "IBLOCK m s = IBLOCK n s" "dinode_off m = dinode_off n"
  shows "m = n"
proof -
  have "unat (m div 4) = unat (n div 4)" "unat (m mod 4) = unat (n mod 4)"
    using assms by (simp_all add: IBLOCK_def dinode_off_def)
  then have "unat m div 4 = unat n div 4" "unat m mod 4 = unat n mod 4"
    by (simp_all add: unat_div_distrib unat_mod_distrib)
  then have "unat m = unat n" by (metis div_mult_mod_eq)
  then show ?thesis by (simp only: word_unat_eq_iff)
qed

lemma dinode_off_apart: "dinode_off m \<noteq> dinode_off n \<Longrightarrow> dinode_off m + 128 \<le> dinode_off n \<or> dinode_off n + 128 \<le> dinode_off m"
  by (auto simp: dinode_off_def)

definition on_disk :: "'a fs_state_scheme \<Rightarrow> u32 \<Rightarrow> bytes" where
  "on_disk s inum = get_bytes (bview s (lg_dev s) (IBLOCK inum s)) (dinode_off inum) 128"

text \<open>C16. The inode cache is write-through: \<^verbatim>\<open>iupdate\<close> of a native inode, inside a transaction
  with room for one block, puts all its fields on disk, so that loading the inode into any
  cache slot gives them back; and no other inode changes on disk.\<close>

theorem iupdate_write_through:
  assumes "txn s" "1 \<le> txn_room s" "ip_fs_type (icache s ip) = FS_NATIVE" "ip_dev (icache s ip) = lg_dev s"
    and "length (ip_addrs (icache s ip)) = 13" "io_ok s (lg_dev s) (IBLOCK (ip_inum (icache s ip)) s)"
  shows "\<exists>t. iupdate ip s = Some t \<and> icache t = icache s \<and>
    (\<forall>j. load_dinode (on_disk t (ip_inum (icache s ip))) j =
      (let i = icache s ip in j\<lparr>ip_type := ip_type i, ip_major := ip_major i, ip_minor := ip_minor i,
         ip_nlink := ip_nlink i, ip_size := ip_size i, ip_uid := ip_uid i, ip_gid := ip_gid i, ip_mode := ip_mode i,
         ip_addrs := ip_addrs i\<rparr>)) \<and>
    (\<forall>m. m \<noteq> ip_inum (icache s ip) \<longrightarrow> on_disk t m = on_disk s m)"
proof -
  let ?i = "icache s ip"
  let ?n = "ip_inum ?i" and ?d = "lg_dev s"
  let ?o = "dinode_off ?n" and ?b = "IBLOCK ?n s"
  let ?f = "\<lambda>d. put_bytes d ?o (store_dinode ?i (get_bytes d ?o 128))"
  have inv: "bio_inv s" using assms(1) by (simp add: txn_def log_txn_def)
  have lv: "length (bview s ?d b) = 512" for b by (rule bview_length [OF inv])
  have lg: "length (get_bytes (bview s ?d ?b) ?o 128) = 128" using lv dinode_off_bound [of ?n] by simp
  have ls: "length (store_dinode ?i (get_bytes (bview s ?d ?b) ?o 128)) = 128" using lg assms(5) by simp
  have l: "length (?f (bview s ?d ?b)) = BSIZE" using ls lv dinode_off_bound [of ?n] by simp
  have rm: "0 < txn_room s" using assms(2) by simp
  obtain t where t: "modify_block ?d ?b ?f s = Some t" "txn t"
    "bview t = (bview s)(?d := (bview s ?d)(?b := ?f (bview s ?d ?b)))"
    "txn_room t \<ge> txn_room s - 1" "txn_frame s t"
    by (rule modify_block_ok [OF assms(1,6) rm, where f = ?f, OF l])
  note fr = fs_frame [OF t(5)] txn_frameD(2) [OF t(5)]
  have eq: "iupdate ip s = Some t" using t(1) assms(3,4) by (simp add: iupdate_def Let_def)
  have "on_disk t ?n = store_dinode ?i (get_bytes (bview s ?d ?b) ?o 128)"
    using t(3) fr ls lv dinode_off_bound [of ?n] by (simp add: on_disk_def get_put_same)
  then have "load_dinode (on_disk t ?n) j = j\<lparr>ip_type := ip_type ?i, ip_major := ip_major ?i, ip_minor := ip_minor ?i,
         ip_nlink := ip_nlink ?i, ip_size := ip_size ?i, ip_uid := ip_uid ?i, ip_gid := ip_gid ?i, ip_mode := ip_mode ?i,
         ip_addrs := ip_addrs ?i\<rparr>" for j
    using load_store_dinode [OF assms(5) lg] by simp
  moreover have "on_disk t m = on_disk s m" if "m \<noteq> ?n" for m
  proof (cases "IBLOCK m s = ?b")
    case True
    then have "dinode_off m \<noteq> ?o" using dinode_place_eq that by blast
    from dinode_off_apart [OF this] show ?thesis
      using True t(3) fr ls lv dinode_off_bound [of m] dinode_off_bound [of ?n]
      by (auto simp: on_disk_def get_put_disjoint)
  qed (use t(3) fr in \<open>simp add: on_disk_def\<close>)
  ultimately show ?thesis using eq fr(2) by (auto simp: Let_def)
qed

definition demo_inode1 :: inode where
  "demo_inode1 = free_inode\<lparr>ip_dev := 28, ip_inum := 3, ip_ref := 1, ip_type := 2, ip_size := 700, ip_addrs := replicate 13 6\<rparr>"

theorem iupdate_write_through_witness:
  "\<exists>t. iupdate 0 (demo_fs demo_blocks (\<lambda>_. demo_inode1)) = Some t \<and> ip_size (load_dinode (on_disk t 3) free_inode) = 700"
proof -
  let ?s = "demo_fs demo_blocks (\<lambda>_. demo_inode1)"
  have "io_ok ?s 28 (IBLOCK 3 ?s)" by (simp add: demo_fs_facts)
  then show ?thesis
    using iupdate_write_through [of ?s 0] demo_fs_facts(1,2,5,7) [of "\<lambda>_. demo_inode1"]
    by (auto simp: demo_inode1_def free_inode_def Let_def)
qed

section \<open>The inode cache\<close>

definition icache_inv :: "'a fs_state_scheme \<Rightarrow> bool" where
  "icache_inv s \<longleftrightarrow> (\<forall>k < NINODE. 0 \<le> ip_ref (icache s k)) \<and>
     (\<forall>j < NINODE. \<forall>k < NINODE. 0 < ip_ref (icache s j) \<and> 0 < ip_ref (icache s k) \<and>
        ip_dev (icache s j) = ip_dev (icache s k) \<and> ip_inum (icache s j) = ip_inum (icache s k) \<longrightarrow> j = k)"

lemma icache_invD:
  assumes "icache_inv s"
  shows "k < NINODE \<Longrightarrow> 0 \<le> ip_ref (icache s k)"
    and "i < NINODE \<Longrightarrow> j < NINODE \<Longrightarrow> 0 < ip_ref (icache s i) \<Longrightarrow> 0 < ip_ref (icache s j) \<Longrightarrow>
      ip_dev (icache s i) = ip_dev (icache s j) \<Longrightarrow> ip_inum (icache s i) = ip_inum (icache s j) \<Longrightarrow> i = j"
  using assms unfolding icache_inv_def by blast+

lemma icache_inv_upd:
  assumes "icache_inv s" "0 \<le> ip_ref (f (icache s k))"
    and "\<And>j. j < NINODE \<Longrightarrow> j \<noteq> k \<Longrightarrow> 0 < ip_ref (icache s j) \<Longrightarrow> ip_dev (icache s j) = ip_dev (f (icache s k)) \<Longrightarrow>
      ip_inum (icache s j) \<noteq> ip_inum (f (icache s k))"
  shows "icache_inv (upd_inode k f s)"
  unfolding icache_inv_def upd_inode_simps
proof (intro conjI allI impI)
  fix i assume "i < NINODE"
  then show "0 \<le> ip_ref (((icache s)(k := f (icache s k))) i)"
    using assms(2) icache_invD(1) [OF assms(1)] by (cases "i = k") simp_all
next
  fix i j assume ij: "i < NINODE" "j < NINODE"
    and h: "0 < ip_ref (((icache s)(k := f (icache s k))) i) \<and> 0 < ip_ref (((icache s)(k := f (icache s k))) j) \<and>
      ip_dev (((icache s)(k := f (icache s k))) i) = ip_dev (((icache s)(k := f (icache s k))) j) \<and>
      ip_inum (((icache s)(k := f (icache s k))) i) = ip_inum (((icache s)(k := f (icache s k))) j)"
  show "i = j"
  proof (cases "i = k \<or> j = k")
    case True
    then show ?thesis using h assms(3) [OF ij(1)] assms(3) [OF ij(2)] by (cases "i = k"; cases "j = k") auto
  next
    case False
    then show ?thesis using h by (intro icache_invD(2) [OF assms(1) ij]) simp_all
  qed
qed


lemma demo_iget: "iget 28 1 (demo_fs demo_blocks (\<lambda>_. free_inode)) \<noteq> None"
proof -
  have "find (\<lambda>k. ip_ref (icache (demo_fs demo_blocks (\<lambda>_. free_inode)) k) = 0) [0..<NINODE] = Some 0"
    by (simp add: demo_fs_facts free_inode_def upt_rec)
  then show ?thesis by (auto simp: iget_def split: option.splits)
qed


section \<open>Path lookup\<close>



end
