(* ===== verification/Ring.thy ===== *)
theory Ring
  imports Prelude
begin

text \<open>
  Ring buffers with free-running 32-bit counters, the way \<^verbatim>\<open>kern/pipe.c\<close> and the line
  buffer of \<^verbatim>\<open>kern/console.c\<close> keep them: the counters only ever count up (modulo
  \<open>2 ^ 32\<close>) and are reduced modulo the buffer size at each access.  The interface a
  client relies on is the locale \<open>fifo\<close>; the two components interpret it.
\<close>

section \<open>The contents of a ring\<close>

definition ring_items :: "'a list \<Rightarrow> u32 \<Rightarrow> u32 \<Rightarrow> 'a list" where
  "ring_items buf r w = map (\<lambda>k. buf ! ((unat r + k) mod length buf)) [0..<unat (w - r)]"

definition ring_size :: "nat \<Rightarrow> bool" where
  "ring_size n \<longleftrightarrow> 0 < n \<and> n < 4294967296 \<and> n dvd 4294967296"

definition ring_ok :: "nat \<Rightarrow> 'a list \<Rightarrow> u32 \<Rightarrow> u32 \<Rightarrow> bool" where
  "ring_ok n buf r w \<longleftrightarrow> ring_size n \<and> length buf = n \<and> unat (w - r) \<le> n"

lemma ring_size_512 [simp]: "ring_size 512" and ring_size_128 [simp]: "ring_size 128"
  by (simp_all add: ring_size_def)

lemma length_ring_items [simp]: "length (ring_items buf r w) = unat (w - r)"
  by (simp add: ring_items_def)

lemma ring_items_empty [simp]: "ring_items buf r w = [] \<longleftrightarrow> r = w"
  by (auto simp: ring_items_def unat_eq_0)

lemma ring_items_same [simp]: "ring_items buf w w = []"
  by simp

lemma ring_ok_length: "ring_ok n buf r w \<Longrightarrow> length (ring_items buf r w) \<le> n"
  by (simp add: ring_ok_def)

lemma ring_index:
  assumes "ring_size n"
  shows "unat ((r :: u32) + of_nat k) mod n = (unat r + k) mod n"
proof -
  have d: "n dvd 4294967296" using assms by (simp add: ring_size_def)
  have "unat (r + of_nat k) = (unat r + k) mod 4294967296"
    by (simp add: unat_word_ariths unat_of_nat mod_simps)
  then show ?thesis using d by (simp add: mod_mod_cancel)
qed

lemma ring_write_index:
  assumes "ring_ok n buf r w"
  shows "unat w mod n = (unat r + unat (w - r)) mod n"
  using ring_index [of n r "unat (w - r)"] assms by (simp add: ring_ok_def)

lemma mod_offset_inj:
  assumes "((a :: nat) + i) mod n = (a + j) mod n" and "i < n" and "j < n"
  shows "i = j"
proof -
  have le: "i = j" if "(a + i) mod n = (a + j) mod n" "i \<le> j" "j < n" for i j
  proof -
    have "n dvd j - i" using that mod_eq_dvd_iff_nat [of "a + i" "a + j" n] by simp
    then show "i = j" using that by (auto dest: dvd_imp_le)
  qed
  show ?thesis using le [of i j] le [of j i] assms by (cases "i \<le> j") auto
qed

lemma ring_step_back: "(e :: u32) \<noteq> w \<Longrightarrow> unat (e - 1 - w) < unat (e - w)"
proof -
  assume "e \<noteq> w"
  then have "e - w \<noteq> 0" by simp
  then have "unat (e - w - 1) < unat (e - w)" by (simp add: unat_minus_one unat_gt_0 del: right_minus_eq)
  moreover have "e - w - 1 = e - 1 - w" by simp
  ultimately show ?thesis by argo
qed

text \<open>The operations: \<open>put\<close> stores at the write counter and advances it, \<open>get\<close> reads at
  the read counter and advances it, \<open>unput\<close> steps the write counter back.\<close>

lemma ring_put:
  assumes ok: "ring_ok n buf r w" and room: "unat (w - r) < n"
  shows "ring_ok n (buf[unat w mod n := x]) r (w + 1)"
    and "ring_items (buf[unat w mod n := x]) r (w + 1) = ring_items buf r w @ [x]"
proof -
  have n: "ring_size n" "length buf = n" "0 < n" "n < 4294967296"
    using ok by (auto simp: ring_ok_def ring_size_def)
  have len: "unat (w + 1 - r) = Suc (unat (w - r))"
  proof -
    have "w + 1 - r = (w - r) + 1" by simp
    then show ?thesis using room n(4) by (simp only: unat_plus_if') simp
  qed
  show "ring_ok n (buf[unat w mod n := x]) r (w + 1)"
    using n room by (simp add: ring_ok_def len)
  have ix: "unat w mod n = (unat r + unat (w - r)) mod n" by (rule ring_write_index [OF ok])
  have "buf[unat w mod n := x] ! ((unat r + k) mod n) = buf ! ((unat r + k) mod n)"
    if "k < unat (w - r)" for k
    using mod_offset_inj [of "unat r" k n "unat (w - r)"] that room ix nth_list_update_neq [of "unat w mod n" "(unat r + k) mod n" buf x] by force
  then show "ring_items (buf[unat w mod n := x]) r (w + 1) = ring_items buf r w @ [x]"
    using n ix by (simp add: ring_items_def len)
qed

lemma ring_get:
  assumes ok: "ring_ok n buf r w" and data: "r \<noteq> w"
  shows "ring_ok n buf (r + 1) w"
    and "ring_items buf r w = buf ! (unat r mod n) # ring_items buf (r + 1) w"
proof -
  have n: "ring_size n" "length buf = n" using ok by (auto simp: ring_ok_def)
  have len: "unat (w - r) = Suc (unat (w - (r + 1)))"
  proof -
    have "w - r \<noteq> 0" using data by simp
    then have "unat (w - r - 1) = unat (w - r) - 1" and "unat (w - r) \<noteq> 0"
      by (simp_all add: unat_minus_one unat_eq_0)
    then show ?thesis by (simp add: diff_diff_eq [symmetric])
  qed
  show "ring_ok n buf (r + 1) w" using ok len by (simp add: ring_ok_def)
  have "(unat r + Suc k) mod n = (unat (r + 1) + k) mod n" for k
  proof -
    have "unat (r + 1 + of_nat k) mod n = unat (r + of_nat (Suc k)) mod n" by (simp add: ac_simps)
    then show ?thesis by (simp only: ring_index [OF n(1)])
  qed
  then have "map (\<lambda>k. buf ! ((unat r + k) mod n)) (map Suc [0..<m]) =
      map (\<lambda>k. buf ! ((unat (r + 1) + k) mod n)) [0..<m]" for m
    by (simp add: o_def)
  then show "ring_items buf r w = buf ! (unat r mod n) # ring_items buf (r + 1) w"
    using n by (simp add: ring_items_def len upt_conv_Cons map_Suc_upt [symmetric] del: upt_Suc)
qed

lemma ring_unput:
  assumes ok: "ring_ok n buf r w" and data: "r \<noteq> w"
  shows "ring_ok n buf r (w - 1)" and "ring_items buf r (w - 1) = butlast (ring_items buf r w)"
proof -
  have "w - r \<noteq> 0" using data by simp
  then have "unat (w - r - 1) = unat (w - r) - 1" "unat (w - r) \<noteq> 0"
    by (simp_all add: unat_minus_one unat_eq_0)
  moreover have "w - r - 1 = w - 1 - r" by simp
  ultimately have len: "unat (w - 1 - r) = unat (w - r) - 1" "unat (w - r) \<noteq> 0" by argo+
  show "ring_ok n buf r (w - 1)" using ok len by (auto simp: ring_ok_def)
  obtain m where m: "unat (w - r) = Suc m" using len(2) by (cases "unat (w - r)") auto
  show "ring_items buf r (w - 1) = butlast (ring_items buf r w)"
    by (simp add: ring_items_def len(1) m)
qed

lemma ring_last:
  assumes ok: "ring_ok n buf r w" and data: "r \<noteq> w"
  shows "last (ring_items buf r w) = buf ! (unat (w - 1) mod n)"
proof -
  have n: "ring_size n" "length buf = n" using ok by (simp_all add: ring_ok_def)
  obtain m where m: "unat (w - r) = Suc m" using data by (cases "unat (w - r)") (auto simp: unat_eq_0)
  have "w - r = of_nat (Suc m)" by (simp only: m [symmetric]) simp
  then have "w = r + of_nat (Suc m)" by (simp add: diff_eq_eq add.commute)
  then have "w - 1 = r + of_nat m" by simp
  then have "unat (w - 1) mod n = (unat r + m) mod n" by (simp only: ring_index [OF n(1)])
  then show ?thesis using n by (simp add: ring_items_def m)
qed

text \<open>A third counter between the two splits the contents.\<close>

lemma ring_split:
  assumes ok: "ring_ok n buf r e" and w: "unat (w - r) \<le> unat (e - r)"
  shows "ring_items buf r e = ring_items buf r w @ ring_items buf w e"
    and "unat (e - r) = unat (w - r) + unat (e - w)"
proof -
  have n: "ring_size n" "length buf = n" using ok by (simp_all add: ring_ok_def)
  have "w - r \<le> e - r" using w by (simp add: word_le_nat_alt)
  then have "unat (e - r - (w - r)) = unat (e - r) - unat (w - r)" by (rule unat_sub)
  moreover have "e - r - (w - r) = e - w" by simp
  ultimately show len: "unat (e - r) = unat (w - r) + unat (e - w)" using w by simp
  have "(unat w + k) mod n = (unat r + (unat (w - r) + k)) mod n" for k
  proof -
    have "r + of_nat (unat (w - r) + k) = w + of_nat k" by simp
    then show ?thesis using ring_index [OF n(1), of r "unat (w - r) + k"] ring_index [OF n(1), of w k] by simp
  qed
  then have "map (\<lambda>k. buf ! ((unat w + k) mod n)) [0..<unat (e - w)] =
      map (\<lambda>k. buf ! ((unat r + k) mod n)) [unat (w - r)..<unat (w - r) + unat (e - w)]"
    by (intro nth_equalityI) simp_all
  then show "ring_items buf r e = ring_items buf r w @ ring_items buf w e"
    using n by (simp add: ring_items_def len map_append [symmetric] upt_add_eq_append [of 0] del: map_append)
qed

section \<open>The interface\<close>

text \<open>What a client of a bounded queue relies on.\<close>

locale fifo =
  fixes items :: "'q \<Rightarrow> 'a list" and inv :: "'q \<Rightarrow> bool" and cap :: nat
    and put :: "'a \<Rightarrow> 'q \<Rightarrow> 'q" and head :: "'q \<Rightarrow> 'a" and get :: "'q \<Rightarrow> 'q"
  assumes bounded: "inv q \<Longrightarrow> length (items q) \<le> cap"
    and put_inv: "inv q \<Longrightarrow> length (items q) < cap \<Longrightarrow> inv (put x q)"
    and put_items: "inv q \<Longrightarrow> length (items q) < cap \<Longrightarrow> items (put x q) = items q @ [x]"
    and get_inv: "inv q \<Longrightarrow> items q \<noteq> [] \<Longrightarrow> inv (get q)"
    and get_items: "inv q \<Longrightarrow> items q \<noteq> [] \<Longrightarrow> items q = head q # items (get q)"
begin

text \<open>The history of a queue: what went in is what came out followed by what is inside.\<close>

definition history :: "'a list \<Rightarrow> 'a list \<Rightarrow> 'q \<Rightarrow> bool" where
  "history sent got q \<longleftrightarrow> inv q \<and> sent = got @ items q"

lemma history_put:
  "history sent got q \<Longrightarrow> length (items q) < cap \<Longrightarrow> history (sent @ [x]) got (put x q)"
  by (simp add: history_def put_inv put_items)

lemma history_get:
  assumes "history sent got q" and "items q \<noteq> []"
  shows "history sent (got @ [head q]) (get q)"
  using assms get_items [of q] get_inv [of q] by (simp add: history_def)

lemma history_puts:
  "history sent got q \<Longrightarrow> length (items q) + length xs \<le> cap \<Longrightarrow> history (sent @ xs) got (fold put xs q)"
proof (induction xs arbitrary: sent q)
  case (Cons x xs)
  then have room: "length (items q) < cap" and "inv q" by (simp_all add: history_def)
  then have "length (items (put x q)) + length xs \<le> cap" using Cons.prems(2) by (simp add: put_items)
  moreover have "history (sent @ [x]) got (put x q)" by (rule history_put [OF Cons.prems(1) room])
  ultimately show ?case using Cons.IH [of "sent @ [x]" "put x q"] by simp
qed simp

end

end
