(* ===== verification/Pipe.thy ===== *)
theory Pipe
  imports Ring
begin

text \<open>
  \<^verbatim>\<open>kern/pipe.c\<close>: a pipe and the calls on it.  \<^verbatim>\<open>p->lock\<close> is held from the entry of a
  call to its next \<^verbatim>\<open>sleep\<close> or its return, so a call is a sequence of atomic runs: a
  function below takes the pipe from one such point to the next.  Any number of
  processes may be inside the calls at the same time; \<open>pipe_step\<close> interleaves their
  runs, with \<^verbatim>\<open>wakeup\<close>, signals and kills.  \<^verbatim>\<open>pipealloc\<close>, which needs the file table,
  is in the theory of files.
\<close>

section \<open>The pipe\<close>

abbreviation PIPESIZE :: nat where "PIPESIZE \<equiv> 512"

record pipe =
  p_data :: bytes
  p_nread :: u32
  p_nwrite :: u32
  p_readopen :: bool
  p_writeopen :: bool

definition new_pipe :: "bytes \<Rightarrow> pipe" where
  "new_pipe d = \<lparr>p_data = d, p_nread = 0, p_nwrite = 0, p_readopen = True, p_writeopen = True\<rparr>"

definition pipe_full :: "pipe \<Rightarrow> bool" where
  "pipe_full p \<longleftrightarrow> p_nwrite p = p_nread p + of_nat PIPESIZE"

definition pipe_empty :: "pipe \<Rightarrow> bool" where
  "pipe_empty p \<longleftrightarrow> p_nread p = p_nwrite p"

definition pipe_put :: "u8 \<Rightarrow> pipe \<Rightarrow> pipe" where
  "pipe_put b p = p\<lparr>p_data := (p_data p)[unat (p_nwrite p) mod PIPESIZE := b], p_nwrite := p_nwrite p + 1\<rparr>"

definition pipe_head :: "pipe \<Rightarrow> u8" where
  "pipe_head p = p_data p ! (unat (p_nread p) mod PIPESIZE)"

definition pipe_get :: "pipe \<Rightarrow> pipe" where
  "pipe_get p = p\<lparr>p_nread := p_nread p + 1\<rparr>"

text \<open>\<^verbatim>\<open>pipewrite\<close> with the bytes still to be written: it ends with a return of \<^verbatim>\<open>n\<close>, with a
  return of -1, or asleep with the bytes that are left.\<close>

datatype write_end = WriteDone | WriteFail | WriteSleep bytes

fun pipewrite :: "bool \<Rightarrow> bytes \<Rightarrow> pipe \<Rightarrow> pipe \<times> write_end" where
  "pipewrite killed [] p = (p, WriteDone)"
| "pipewrite killed (b # bs) p =
     (if pipe_full p
      then (p, if \<not> p_readopen p \<or> killed then WriteFail else WriteSleep (b # bs))
      else pipewrite killed bs (pipe_put b p))"

datatype read_end = ReadDone bytes | ReadFail | ReadSleep

fun piperead_loop :: "nat \<Rightarrow> pipe \<Rightarrow> bytes \<times> pipe" where
  "piperead_loop 0 p = ([], p)"
| "piperead_loop (Suc n) p =
     (if pipe_empty p then ([], p)
      else let (bs, p') = piperead_loop n (pipe_get p) in (pipe_head p # bs, p'))"

definition piperead :: "bool \<Rightarrow> nat \<Rightarrow> pipe \<Rightarrow> pipe \<times> read_end" where
  "piperead killed n p =
     (if pipe_empty p \<and> p_writeopen p then (p, if killed then ReadFail else ReadSleep)
      else let (bs, p') = piperead_loop n p in (p', ReadDone bs))"

text \<open>\<^verbatim>\<open>pipeclose\<close>: the flag tells whether the page of the pipe is freed.\<close>

definition pipeclose :: "bool \<Rightarrow> pipe \<Rightarrow> pipe \<times> bool" where
  "pipeclose writable p =
     (let p = (if writable then p\<lparr>p_writeopen := False\<rparr> else p\<lparr>p_readopen := False\<rparr>)
      in (p, \<not> p_readopen p \<and> \<not> p_writeopen p))"

section \<open>Processes on a pipe\<close>

text \<open>Where a process is: outside, about to run (again) inside a call, or asleep on
  \<^verbatim>\<open>&p->nwrite\<close> or \<^verbatim>\<open>&p->nread\<close>.\<close>

datatype pipe_pc = Outside | Writing bytes | WriteAsleep bytes | Reading nat | ReadAsleep nat

fun wake_writer :: "pipe_pc \<Rightarrow> pipe_pc" where
  "wake_writer (WriteAsleep bs) = Writing bs"
| "wake_writer c = c"

fun wake_reader :: "pipe_pc \<Rightarrow> pipe_pc" where
  "wake_reader (ReadAsleep n) = Reading n"
| "wake_reader c = c"

text \<open>The machine: the pipe, the processes, and the history of the bytes that were
  written to and read from it.\<close>

record pipe_machine =
  pm_pipe :: pipe
  pm_pc :: "nat \<Rightarrow> pipe_pc"
  pm_killed :: "nat \<Rightarrow> bool"
  pm_sent :: bytes
  pm_got :: bytes

definition after_write :: "nat \<Rightarrow> write_end \<Rightarrow> (nat \<Rightarrow> pipe_pc) \<Rightarrow> nat \<Rightarrow> pipe_pc" where
  "after_write t e pc = (case e of
     WriteDone \<Rightarrow> (wake_reader \<circ> pc)(t := Outside)
   | WriteFail \<Rightarrow> pc(t := Outside)
   | WriteSleep bs \<Rightarrow> (wake_reader \<circ> pc)(t := WriteAsleep bs))"

definition after_read :: "nat \<Rightarrow> nat \<Rightarrow> read_end \<Rightarrow> (nat \<Rightarrow> pipe_pc) \<Rightarrow> nat \<Rightarrow> pipe_pc" where
  "after_read t n e pc = (case e of
     ReadDone bs \<Rightarrow> (wake_writer \<circ> pc)(t := Outside)
   | ReadFail \<Rightarrow> pc(t := Outside)
   | ReadSleep \<Rightarrow> pc(t := ReadAsleep n))"

fun bytes_read :: "read_end \<Rightarrow> bytes" where
  "bytes_read (ReadDone bs) = bs"
| "bytes_read e = []"

text \<open>The number of bytes a run of \<^verbatim>\<open>pipewrite\<close> has put is the advance of the write counter.
  An end is closed by the last process that has it open, so no process is inside a
  call on that end then; a signal ends a sleep, and a kill also marks the process.\<close>

fun writer_at :: "pipe_pc \<Rightarrow> bool" where
  "writer_at (Writing bs) = True"
| "writer_at (WriteAsleep bs) = True"
| "writer_at c = False"

fun reader_at :: "pipe_pc \<Rightarrow> bool" where
  "reader_at (Reading n) = True"
| "reader_at (ReadAsleep n) = True"
| "reader_at c = False"

definition put_count :: "pipe \<Rightarrow> pipe \<Rightarrow> nat" where
  "put_count p p' = unat (p_nwrite p' - p_nwrite p)"

inductive pipe_step :: "pipe_machine \<Rightarrow> pipe_machine \<Rightarrow> bool" where
  write_call: "pm_pc m t = Outside \<Longrightarrow> p_writeopen (pm_pipe m) \<Longrightarrow>
    pipe_step m (m\<lparr>pm_pc := (pm_pc m)(t := Writing bs)\<rparr>)"
| read_call: "pm_pc m t = Outside \<Longrightarrow> p_readopen (pm_pipe m) \<Longrightarrow>
    pipe_step m (m\<lparr>pm_pc := (pm_pc m)(t := Reading n)\<rparr>)"
| write_run: "pm_pc m t = Writing bs \<Longrightarrow> pipewrite (pm_killed m t) bs (pm_pipe m) = (p', e) \<Longrightarrow>
    pipe_step m (m\<lparr>pm_pipe := p', pm_pc := after_write t e (pm_pc m),
      pm_sent := pm_sent m @ take (put_count (pm_pipe m) p') bs\<rparr>)"
| read_run: "pm_pc m t = Reading n \<Longrightarrow> piperead (pm_killed m t) n (pm_pipe m) = (p', e) \<Longrightarrow>
    pipe_step m (m\<lparr>pm_pipe := p', pm_pc := after_read t n e (pm_pc m),
      pm_got := pm_got m @ bytes_read e\<rparr>)"
| close_write: "p_writeopen (pm_pipe m) \<Longrightarrow>
    \<forall>t. \<not> writer_at (pm_pc m t) \<Longrightarrow>
    pipe_step m (m\<lparr>pm_pipe := fst (pipeclose True (pm_pipe m)), pm_pc := wake_reader \<circ> pm_pc m\<rparr>)"
| close_read: "p_readopen (pm_pipe m) \<Longrightarrow>
    \<forall>t. \<not> reader_at (pm_pc m t) \<Longrightarrow>
    pipe_step m (m\<lparr>pm_pipe := fst (pipeclose False (pm_pipe m)), pm_pc := wake_writer \<circ> pm_pc m\<rparr>)"
| signal: "pipe_step m (m\<lparr>pm_pc := (pm_pc m)(t := wake_reader (wake_writer (pm_pc m t)))\<rparr>)"
| kill: "pipe_step m (m\<lparr>pm_pc := (pm_pc m)(t := wake_reader (wake_writer (pm_pc m t))),
    pm_killed := (pm_killed m)(t := True)\<rparr>)"

definition pipe_start :: "bytes \<Rightarrow> pipe_machine" where
  "pipe_start d = \<lparr>pm_pipe = new_pipe d, pm_pc = (\<lambda>t. Outside), pm_killed = (\<lambda>t. False), pm_sent = [], pm_got = []\<rparr>"

inductive pipe_reach :: "pipe_machine \<Rightarrow> bool" where
  start: "length d = PIPESIZE \<Longrightarrow> pipe_reach (pipe_start d)"
| step: "pipe_reach m \<Longrightarrow> pipe_step m m' \<Longrightarrow> pipe_reach m'"

section \<open>A pipe is a bounded queue\<close>

definition pipe_items :: "pipe \<Rightarrow> bytes" where
  "pipe_items p = ring_items (p_data p) (p_nread p) (p_nwrite p)"

definition pipe_ok :: "pipe \<Rightarrow> bool" where
  "pipe_ok p \<longleftrightarrow> ring_ok PIPESIZE (p_data p) (p_nread p) (p_nwrite p)"

interpretation pq: fifo pipe_items pipe_ok PIPESIZE pipe_put pipe_head pipe_get
proof
  fix q x
  assume ok: "pipe_ok q"
  show "length (pipe_items q) \<le> PIPESIZE" using ok by (simp add: pipe_ok_def pipe_items_def ring_ok_def)
  show "pipe_ok (pipe_put x q)" "pipe_items (pipe_put x q) = pipe_items q @ [x]"
    if "length (pipe_items q) < PIPESIZE"
    using that ok ring_put [of PIPESIZE "p_data q" "p_nread q" "p_nwrite q" x]
    by (simp_all add: pipe_ok_def pipe_items_def pipe_put_def)
  show "pipe_ok (pipe_get q)" "pipe_items q = pipe_head q # pipe_items (pipe_get q)"
    if "pipe_items q \<noteq> []"
    using that ok ring_get [of PIPESIZE "p_data q" "p_nread q" "p_nwrite q"]
    by (simp_all add: pipe_ok_def pipe_items_def pipe_get_def pipe_head_def)
qed

lemma pipe_full_iff: "pipe_full p \<longleftrightarrow> length (pipe_items p) = PIPESIZE"
proof -
  have "pipe_full p \<longleftrightarrow> p_nwrite p - p_nread p = 512" by (simp add: pipe_full_def diff_eq_eq add.commute)
  also have "\<dots> \<longleftrightarrow> unat (p_nwrite p - p_nread p) = 512" by (subst word_unat_eq_iff) simp
  finally show ?thesis by (simp add: pipe_items_def)
qed

lemma pipe_empty_iff: "pipe_empty p \<longleftrightarrow> pipe_items p = []"
  by (simp add: pipe_empty_def pipe_items_def)

lemma fold_pipe_put [simp]:
  "p_nread (fold pipe_put bs p) = p_nread p" "p_readopen (fold pipe_put bs p) = p_readopen p"
  "p_writeopen (fold pipe_put bs p) = p_writeopen p"
  "p_nwrite (fold pipe_put bs p) = p_nwrite p + of_nat (length bs)"
  by (induction bs arbitrary: p) (simp_all add: pipe_put_def)

text \<open>How a run of \<^verbatim>\<open>pipewrite\<close> that has put \<open>j\<close> bytes may end.\<close>

definition write_ended :: "bool \<Rightarrow> pipe \<Rightarrow> write_end \<Rightarrow> bool" where
  "write_ended k p e = (case e of WriteDone \<Rightarrow> True
     | WriteFail \<Rightarrow> pipe_full p \<and> (\<not> p_readopen p \<or> k)
     | WriteSleep r \<Rightarrow> pipe_full p \<and> p_readopen p \<and> \<not> k)"

lemma pipewrite_puts:
  assumes "pipe_ok p"
  shows "\<exists>j \<le> length bs. length (pipe_items p) + j \<le> PIPESIZE \<and>
    fst (pipewrite k bs p) = fold pipe_put (take j bs) p \<and>
    write_ended k (fst (pipewrite k bs p)) (snd (pipewrite k bs p)) \<and>
    (snd (pipewrite k bs p) = WriteDone \<longrightarrow> j = length bs)"
  using assms
proof (induction bs arbitrary: p)
  case Nil
  then show ?case using pq.bounded [of p] by (simp add: write_ended_def)
next
  case (Cons b bs)
  note ok = Cons.prems
  show ?case
  proof (cases "pipe_full p")
    case True
    then show ?thesis using pq.bounded [OF ok] by (intro exI [of _ 0]) (simp add: write_ended_def)
  next
    case False
    then have room: "length (pipe_items p) < PIPESIZE"
      using pq.bounded [OF ok] pipe_full_iff [of p] by linarith
    obtain j where "j \<le> length bs" "length (pipe_items (pipe_put b p)) + j \<le> PIPESIZE"
      "fst (pipewrite k bs (pipe_put b p)) = fold pipe_put (take j bs) (pipe_put b p)"
      "write_ended k (fst (pipewrite k bs (pipe_put b p))) (snd (pipewrite k bs (pipe_put b p)))"
      "snd (pipewrite k bs (pipe_put b p)) = WriteDone \<longrightarrow> j = length bs"
      using Cons.IH [OF pq.put_inv [OF ok room]] by blast
    then show ?thesis
      using pq.put_items [OF ok room, of b] False by (intro exI [of _ "Suc j"]) simp
  qed
qed

lemma piperead_loop_gets:
  assumes "pq.history sent got p"
  shows "pq.history sent (got @ fst (piperead_loop n p)) (snd (piperead_loop n p)) \<and>
    p_nwrite (snd (piperead_loop n p)) = p_nwrite p \<and>
    p_readopen (snd (piperead_loop n p)) = p_readopen p \<and> p_writeopen (snd (piperead_loop n p)) = p_writeopen p"
  using assms
proof (induction n arbitrary: got p)
  case (Suc n)
  show ?case
  proof (cases "pipe_empty p")
    case False
    then have "pq.history sent (got @ [pipe_head p]) (pipe_get p)"
      using pq.history_get [OF Suc.prems] by (simp add: pipe_empty_iff)
    then show ?thesis using Suc.IH [of "got @ [pipe_head p]" "pipe_get p"] False
      by (auto simp: case_prod_beta Let_def pipe_get_def)
  qed (use Suc.prems in simp)
qed simp

section \<open>The invariant of a pipe in use\<close>

definition ends_open :: "pipe_machine \<Rightarrow> bool" where
  "ends_open m \<longleftrightarrow> (\<forall>t. (writer_at (pm_pc m t) \<longrightarrow> p_writeopen (pm_pipe m)) \<and>
     (reader_at (pm_pc m t) \<longrightarrow> p_readopen (pm_pipe m)))"

definition writers_blocked :: "pipe_machine \<Rightarrow> bool" where
  "writers_blocked m \<longleftrightarrow> (\<forall>t bs. pm_pc m t = WriteAsleep bs \<longrightarrow>
     length (pipe_items (pm_pipe m)) = PIPESIZE \<and> p_readopen (pm_pipe m))"

definition readers_blocked :: "pipe_machine \<Rightarrow> bool" where
  "readers_blocked m \<longleftrightarrow> (\<forall>t n. pm_pc m t = ReadAsleep n \<longrightarrow>
     pipe_items (pm_pipe m) = [] \<and> p_writeopen (pm_pipe m))"

definition pipe_inv :: "pipe_machine \<Rightarrow> bool" where
  "pipe_inv m \<longleftrightarrow> pq.history (pm_sent m) (pm_got m) (pm_pipe m) \<and> ends_open m \<and> writers_blocked m \<and>
     ((\<forall>t. \<not> pm_killed m t) \<longrightarrow> readers_blocked m)"

lemma at_simps [simp]:
  "writer_at (wake_reader c) = writer_at c" "writer_at (wake_writer c) = writer_at c"
  "reader_at (wake_reader c) = reader_at c" "reader_at (wake_writer c) = reader_at c"
  by (cases c; simp)+

lemma wake_simps [simp]:
  "wake_reader c \<noteq> ReadAsleep n" "wake_writer c \<noteq> WriteAsleep bs"
  "wake_reader c = WriteAsleep bs \<longleftrightarrow> c = WriteAsleep bs"
  "wake_writer c = ReadAsleep n \<longleftrightarrow> c = ReadAsleep n"
  by (cases c; simp)+

lemma write_run_inv:
  assumes inv: "pipe_inv m" and pc: "pm_pc m t = Writing bs"
    and run: "pipewrite (pm_killed m t) bs (pm_pipe m) = (p', e)"
  shows "pipe_inv (m\<lparr>pm_pipe := p', pm_pc := after_write t e (pm_pc m),
      pm_sent := pm_sent m @ take (put_count (pm_pipe m) p') bs\<rparr>)" (is "pipe_inv ?m")
proof -
  let ?p = "pm_pipe m"
  have hist: "pq.history (pm_sent m) (pm_got m) ?p" and ok: "pipe_ok ?p"
    using inv by (simp_all add: pipe_inv_def pq.history_def)
  obtain j where j: "j \<le> length bs" "length (pipe_items ?p) + j \<le> PIPESIZE" "p' = fold pipe_put (take j bs) ?p"
    and ended: "write_ended (pm_killed m t) p' e"
    using pipewrite_puts [OF ok, of bs "pm_killed m t"] run by auto
  have "put_count ?p p' = j" using j by (simp add: put_count_def min_absorb2)
  moreover have "pq.history (pm_sent m @ take j bs) (pm_got m) p'"
    using pq.history_puts [OF hist, of "take j bs"] j by (simp add: min_absorb2)
  ultimately have h: "pq.history (pm_sent ?m) (pm_got ?m) (pm_pipe ?m)" by simp
  have opens: "p_readopen p' = p_readopen ?p" "p_writeopen p' = p_writeopen ?p" using j by simp_all
  have ends: "ends_open ?m"
    using inv pc unfolding pipe_inv_def ends_open_def
    by (auto simp: opens after_write_def split: write_end.splits if_splits) (metis writer_at.simps(1))+
  have full: "length (pipe_items ?p) = PIPESIZE \<Longrightarrow> p' = ?p" using j by simp
  have writers: "writers_blocked ?m"
    using inv ended full
    by (auto simp: pipe_inv_def writers_blocked_def opens after_write_def write_ended_def pipe_full_iff
        split: write_end.splits if_splits)
  have "readers_blocked ?m" if nk: "\<forall>t. \<not> pm_killed m t"
  proof (cases e)
    case WriteFail
    then have "\<not> p_readopen ?p" using ended nk by (simp add: write_ended_def opens)
    then have "\<not> reader_at (pm_pc m u)" for u using inv by (auto simp: pipe_inv_def ends_open_def)
    then have "pm_pc m u \<noteq> ReadAsleep n" for u n by (metis reader_at.simps(2))
    then show ?thesis by (simp add: readers_blocked_def after_write_def WriteFail)
  qed (simp_all add: readers_blocked_def after_write_def)
  then show ?thesis using h ends writers by (simp add: pipe_inv_def)
qed

lemma read_run_inv:
  assumes inv: "pipe_inv m" and pc: "pm_pc m t = Reading n"
    and run: "piperead (pm_killed m t) n (pm_pipe m) = (p', e)"
  shows "pipe_inv (m\<lparr>pm_pipe := p', pm_pc := after_read t n e (pm_pc m),
      pm_got := pm_got m @ bytes_read e\<rparr>)" (is "pipe_inv ?m")
proof -
  let ?p = "pm_pipe m"
  have hist: "pq.history (pm_sent m) (pm_got m) ?p" using inv by (simp add: pipe_inv_def)
  show ?thesis
  proof (cases "pipe_empty ?p \<and> p_writeopen ?p")
    case True
    then have "p' = ?p" "e = ReadFail \<or> e = ReadSleep"
      using run by (auto simp: piperead_def split: if_splits)
    then show ?thesis
      using inv pc True unfolding pipe_inv_def ends_open_def
      by (auto simp: writers_blocked_def readers_blocked_def after_read_def pipe_empty_iff split: if_splits)
  next
    case False
    then have e: "e = ReadDone (fst (piperead_loop n ?p))" "p' = snd (piperead_loop n ?p)"
      using run by (auto simp: piperead_def case_prod_beta Let_def)
    note got = piperead_loop_gets [OF hist, of n]
    have "pipe_items ?p = [] \<Longrightarrow> p' = ?p" using e(2) by (cases n) (simp_all add: pipe_empty_iff)
    then show ?thesis
      using inv pc got unfolding e(1) pipe_inv_def ends_open_def
      by (auto simp: writers_blocked_def readers_blocked_def after_read_def e(2) split: if_splits)
  qed
qed

lemma pipe_step_inv: "pipe_step m m' \<Longrightarrow> pipe_inv m \<Longrightarrow> pipe_inv m'"
proof (induction rule: pipe_step.induct)
  case (write_run m t bs p' e)
  then show ?case by (intro write_run_inv)
next
  case (read_run m t n p' e)
  then show ?case by (intro read_run_inv)
next
  case (close_write m)
  then show ?case
    by (auto simp: pipe_inv_def pq.history_def pipe_ok_def pipe_items_def ends_open_def writers_blocked_def
        readers_blocked_def pipeclose_def Let_def)
next
  case (close_read m)
  then show ?case
    by (auto simp: pipe_inv_def pq.history_def pipe_ok_def pipe_items_def ends_open_def writers_blocked_def
        readers_blocked_def pipeclose_def Let_def)
qed (auto simp: pipe_inv_def ends_open_def writers_blocked_def readers_blocked_def split: if_splits)

lemma pipe_reach_inv: "pipe_reach m \<Longrightarrow> pipe_inv m"
proof (induction rule: pipe_reach.induct)
  case (start d)
  then show ?case
    by (simp add: pipe_inv_def pipe_start_def pq.history_def pipe_ok_def pipe_items_def new_pipe_def
        ring_ok_def ring_items_def ends_open_def writers_blocked_def readers_blocked_def)
qed (auto intro: pipe_step_inv)

section \<open>Properties\<close>

text \<open>C4. A pipe is a first-in first-out queue of at most 512 bytes, however the calls of its
  readers and writers interleave and wherever the 32-bit counters stand: the bytes
  written so far are the bytes read so far followed by the bytes in the buffer.\<close>

theorem pipe_fifo:
  assumes "pipe_reach m"
  shows "pm_sent m = pm_got m @ pipe_items (pm_pipe m) \<and> length (pipe_items (pm_pipe m)) \<le> PIPESIZE"
  using pipe_reach_inv [OF assms] pq.bounded [of "pm_pipe m"] by (simp add: pipe_inv_def pq.history_def)

text \<open>A run in which process 1 sleeps in a read, process 2 writes two bytes, and process 1
  takes one of them.\<close>

definition demo_pipe :: "nat \<Rightarrow> pipe" where
  "demo_pipe n = \<lparr>p_data = 65 # 66 # replicate 510 0, p_nread = of_nat n, p_nwrite = 2, p_readopen = True, p_writeopen = True\<rparr>"

definition demo_pipe_run :: pipe_machine where
  "demo_pipe_run = \<lparr>pm_pipe = demo_pipe 1, pm_pc = (\<lambda>t. Outside), pm_killed = (\<lambda>t. False),
     pm_sent = [65, 66], pm_got = [65]\<rparr>"

lemma replicate_512: "replicate 512 x = x # x # replicate 510 x"
  by (simp add: replicate_Suc [symmetric] del: replicate_Suc)

definition sleeping_reader :: pipe_machine where
  "sleeping_reader = (pipe_start (replicate 512 0))\<lparr>pm_pc := (\<lambda>t. Outside)(1 := ReadAsleep 1)\<rparr>"

lemma sleeping_reader_reach: "pipe_reach sleeping_reader"
proof -
  let ?p = "new_pipe (replicate 512 0)"
  let ?out = "\<lambda>t :: nat. Outside"
  have s0: "pipe_reach (pipe_start (replicate 512 0))" by (rule pipe_reach.start) simp
  have e: "pipe_empty ?p" "p_writeopen ?p" by (simp_all add: pipe_empty_def new_pipe_def)
  have s1: "pipe_reach ((pipe_start (replicate 512 0))\<lparr>pm_pc := ?out(1 := Reading 1)\<rparr>)"
    using pipe_reach.step [OF s0 pipe_step.read_call [of _ 1 1]] by (simp add: pipe_start_def new_pipe_def)
  show ?thesis
    using pipe_reach.step [OF s1 pipe_step.read_run [of _ 1 1 ?p ReadSleep]] e
    by (simp add: piperead_def pipe_start_def after_read_def sleeping_reader_def)
qed

lemma demo_pipe_reach: "pipe_reach demo_pipe_run"
proof -
  let ?p = "new_pipe (replicate 512 0)"
  let ?out = "\<lambda>t :: nat. Outside"
  have s3: "pipe_reach (sleeping_reader\<lparr>pm_pc := ?out(1 := ReadAsleep 1, 2 := Writing [65, 66])\<rparr>)" (is "pipe_reach ?m3")
    using pipe_reach.step [OF sleeping_reader_reach pipe_step.write_call [of _ 2 "[65, 66]"]]
    by (simp add: pipe_start_def sleeping_reader_def new_pipe_def)
  have w: "pipewrite False [65, 66] ?p = (demo_pipe 0, WriteDone)"
    by (simp add: pipe_full_def pipe_put_def new_pipe_def demo_pipe_def replicate_512)
  have c: "put_count ?p (demo_pipe 0) = 2" by (simp add: put_count_def new_pipe_def demo_pipe_def)
  have pc: "after_write 2 WriteDone (?out(1 := ReadAsleep 1, 2 := Writing [65, 66])) = ?out(1 := Reading 1)"
    by (auto simp: after_write_def)
  have s4: "pipe_reach (?m3\<lparr>pm_pipe := demo_pipe 0, pm_pc := ?out(1 := Reading 1), pm_sent := [65, 66]\<rparr>)" (is "pipe_reach ?m4")
    using pipe_reach.step [OF s3 pipe_step.write_run [of _ 2 "[65, 66]" "demo_pipe 0" WriteDone]] w c pc
    by (simp add: pipe_start_def sleeping_reader_def del: pipewrite.simps)
  have r: "piperead False 1 (demo_pipe 0) = (demo_pipe 1, ReadDone [65])"
    by (simp add: piperead_def pipe_empty_def pipe_get_def pipe_head_def demo_pipe_def)
  show ?thesis
    using pipe_reach.step [OF s4 pipe_step.read_run [of _ 1 1 "demo_pipe 1" "ReadDone [65]"]] r
    by (simp add: pipe_start_def sleeping_reader_def after_read_def demo_pipe_run_def comp_def fun_upd_def cong: if_cong)
qed

theorem pipe_fifo_witness: "pm_sent demo_pipe_run = pm_got demo_pipe_run @ [66]"
proof -
  have "pipe_items (demo_pipe 1) = [66]"
    by (simp add: demo_pipe_def pipe_items_def ring_items_def)
  then show ?thesis using pipe_fifo [OF demo_pipe_reach] by (simp add: demo_pipe_run_def)
qed

text \<open>C19. No process sleeps on a pipe for nothing: whoever is asleep in a write faces a full
  buffer and an open read end, and, as long as no process has been killed, whoever is
  asleep in a read faces an empty buffer and an open write end.\<close>

theorem pipe_sleepers:
  assumes "pipe_reach m"
  shows "(pm_pc m t = WriteAsleep bs \<longrightarrow> pipe_full (pm_pipe m) \<and> p_readopen (pm_pipe m)) \<and>
    (pm_pc m t = ReadAsleep n \<longrightarrow> (\<exists>u. pm_killed m u) \<or> pipe_empty (pm_pipe m) \<and> p_writeopen (pm_pipe m))"
  using pipe_reach_inv [OF assms]
  by (auto simp: pipe_inv_def writers_blocked_def readers_blocked_def pipe_full_iff pipe_empty_iff)

theorem pipe_sleepers_witness:
  "pm_pc sleeping_reader 1 = ReadAsleep 1 \<and> pipe_empty (pm_pipe sleeping_reader) \<and> p_writeopen (pm_pipe sleeping_reader)"
  using pipe_sleepers [OF sleeping_reader_reach, of 1 _ 1] by (simp add: sleeping_reader_def pipe_start_def)

text \<open>C29. A killed writer loses a wakeup: a reader that went to sleep on an empty pipe is still
  asleep although the buffer has become full and no other process is inside a call,
  because \<^verbatim>\<open>pipewrite\<close> returns -1 from a full buffer without waking the readers.\<close>

theorem pipe_lost_wakeup:
  "\<exists>m. pipe_reach m \<and> pm_pc m = (\<lambda>t. Outside)(1 := ReadAsleep 1) \<and> pipe_full (pm_pipe m) \<and>
     p_readopen (pm_pipe m) \<and> p_writeopen (pm_pipe m)"
proof -
  let ?p = "new_pipe (replicate 512 0)"
  obtain bs :: bytes where len: "length bs = 600" by (rule that [OF length_replicate])
  let ?pc = "(\<lambda>t :: nat. Outside)(1 := ReadAsleep 1)"
  obtain p' e where run: "pipewrite True bs ?p = (p', e)" by (metis surj_pair)
  have ok: "pipe_ok ?p" by (simp add: pipe_ok_def new_pipe_def ring_ok_def)
  obtain j where j: "length (pipe_items ?p) + j \<le> 512" "p' = fold pipe_put (take j bs) ?p" "write_ended True p' e"
    "e = WriteDone \<longrightarrow> j = length bs"
    using pipewrite_puts [OF ok, of bs True] unfolding run fst_conv snd_conv by blast
  then have e: "e = WriteFail" "pipe_full p'" using len by (auto simp: write_ended_def split: write_end.splits)
  have s1: "pipe_reach (sleeping_reader\<lparr>pm_pc := ?pc(2 := Writing bs)\<rparr>)" (is "pipe_reach ?m1")
    using pipe_reach.step [OF sleeping_reader_reach pipe_step.write_call [of _ 2 bs]]
    by (simp add: pipe_start_def sleeping_reader_def new_pipe_def)
  have s2: "pipe_reach (?m1\<lparr>pm_killed := (\<lambda>t. False)(2 := True)\<rparr>)" (is "pipe_reach ?m2")
    using pipe_reach.step [OF s1 pipe_step.kill [of _ 2]] by (simp add: pipe_start_def sleeping_reader_def)
  have "after_write 2 e (?pc(2 := Writing bs)) = ?pc" by (auto simp: after_write_def e)
  then have "pipe_reach (?m2\<lparr>pm_pipe := p', pm_pc := ?pc, pm_sent := take (put_count ?p p') bs\<rparr>)"
    using pipe_reach.step [OF s2 pipe_step.write_run [of _ 2 bs p' e]] run
    by (simp add: pipe_start_def sleeping_reader_def)
  moreover have "p_readopen p'" "p_writeopen p'" using j(2) by (simp_all add: new_pipe_def)
  ultimately show ?thesis using e(2) by fastforce
qed

end
