(* ===== verification/Console.thy ===== *)
theory Console
  imports Ring Kalloc
begin

text \<open>
  \<^verbatim>\<open>kern/console.c\<close>: the virtual terminals with their screens, the UTF-8 and escape
  sequence decoders, and the line discipline.  \<^verbatim>\<open>cons.lock\<close> is held through each
  operation.  A store outside the cells of a terminal has no meaning in C, so the
  functions that draw return \<^term>\<open>None\<close> there, as they do at a panic.  What is shown
  outside memory (the text adapter, the frame buffer) is not modelled; the bytes sent to
  the serial line are, and so are the wakeups and signals the keyboard causes.  The
  memory of the screens comes from the arena of the page allocator's theory.
\<close>

section \<open>State\<close>

abbreviation BACKSPACE :: int where "BACKSPACE \<equiv> 256"
abbreviation NVT :: nat where "NVT \<equiv> 4"
abbreviation KBD_VT_BASE :: int where "KBD_VT_BASE \<equiv> 512"
abbreviation INPUT_BUF :: nat where "INPUT_BUF \<equiv> 128"
abbreviation ICANON :: u32 where "ICANON \<equiv> 2"
abbreviation ECHO :: u32 where "ECHO \<equiv> 8"
abbreviation ECHOPASS :: u32 where "ECHOPASS \<equiv> 16"

record line =
  in_buf :: bytes
  in_r :: u32
  in_w :: u32
  in_e :: u32

record vt =
  v_addr :: u64
  v_cells :: "u16 list"
  v_pos :: int
  v_scrolls :: int
  v_state :: nat
  v_params :: "u32 list"
  v_nparams :: nat
  v_attr :: u16
  v_codepoint :: u32
  v_expected :: nat
  v_fgpid :: int
  v_in :: line

datatype cons_event = WakeReaders nat | SendSignal int nat

record cons_state =
  cs_vts :: "nat \<Rightarrow> vt"
  cs_active :: nat
  cs_columns :: int
  cs_rows :: int
  cs_lflag :: u32
  cs_panicked :: bool
  cs_uart :: "int list"
  cs_events :: "cons_event list"
  cs_arena :: vmem_arena

definition upd_vt :: "nat \<Rightarrow> (vt \<Rightarrow> vt) \<Rightarrow> cons_state \<Rightarrow> cons_state" where
  "upd_vt k f s = s\<lparr>cs_vts := (cs_vts s)(k := f (cs_vts s k))\<rparr>"

definition upd_in :: "(line \<Rightarrow> line) \<Rightarrow> vt \<Rightarrow> vt" where
  "upd_in f v = v\<lparr>v_in := f (v_in v)\<rparr>"

section \<open>UTF-8\<close>

text \<open>The decoder maps the punctuation it knows to ASCII and the rest to a question mark; -1
  asks for more bytes.\<close>

definition ascii_of :: "u32 \<Rightarrow> int" where
  "ascii_of cp =
     (if cp = 0x2014 \<or> cp = 0x2013 \<or> cp = 0x2015 \<or> cp = 0x2212 then 45
      else if cp = 0x2018 \<or> cp = 0x2019 then 39
      else if cp = 0x201C \<or> cp = 0x201D then 34
      else if cp = 0x2022 \<or> cp = 0x00B7 then 42
      else if cp = 0x00A0 then 32
      else if cp = 0x2026 then 46
      else if cp < 128 then uint cp else 63)"

definition decode_utf8 :: "u8 \<Rightarrow> vt \<Rightarrow> int \<times> vt" where
  "decode_utf8 b v =
     (if v_expected v = 0 then
        (if b AND 0x80 = 0 then (uint b, v)
         else if b AND 0xE0 = 0xC0 then (-1, v\<lparr>v_codepoint := ucast (b AND 0x1F), v_expected := 1\<rparr>)
         else if b AND 0xF0 = 0xE0 then (-1, v\<lparr>v_codepoint := ucast (b AND 0x0F), v_expected := 2\<rparr>)
         else if b AND 0xF8 = 0xF0 then (-1, v\<lparr>v_codepoint := ucast (b AND 0x07), v_expected := 3\<rparr>)
         else (63, v))
      else if b AND 0xC0 = 0x80 then
        (let cp = push_bit 6 (v_codepoint v) OR ucast (b AND 0x3F);
             v = v\<lparr>v_codepoint := cp, v_expected := v_expected v - 1\<rparr>
         in if v_expected v = 0 then (ascii_of cp, v) else (-1, v))
      else (63, v\<lparr>v_expected := 0\<rparr>))"

section \<open>The screen\<close>

definition put_cell :: "int \<Rightarrow> u16 \<Rightarrow> vt \<Rightarrow> vt option" where
  "put_cell i x v = (if 0 \<le> i \<and> i < int (length (v_cells v))
     then Some (v\<lparr>v_cells := (v_cells v)[nat i := x]\<rparr>) else None)"

definition blank :: "vt \<Rightarrow> u16" where
  "blank v = 32 OR v_attr v"

function erase_cells :: "int \<Rightarrow> int \<Rightarrow> vt \<Rightarrow> vt option" where
  "erase_cells i hi v = (if i < hi then do { v \<leftarrow> put_cell i (blank v) v; erase_cells (i + 1) hi v } else Some v)"
  by pat_completeness auto
termination by (relation "measure (\<lambda>(i, hi, v). nat (hi - i))") auto

declare erase_cells.simps [simp del]

text \<open>The parameters of an escape sequence are of type \<^verbatim>\<open>int\<close>; the digits of a parameter
  accumulate in two's complement.\<close>

definition ansi_to_vga :: "u16 list" where
  "ansi_to_vga = [0, 4, 2, 6, 1, 5, 3, 7]"

definition sgr :: "u32 \<Rightarrow> u16 \<Rightarrow> u16" where
  "sgr p attr =
     (if sint p = 0 then 0x0700
      else if sint p = 7 then 0x7000
      else if 30 \<le> sint p \<and> sint p \<le> 37
      then (attr AND 0xf000) OR push_bit 8 (ansi_to_vga ! nat (sint p - 30)) OR 0x0800
      else attr)"

definition clamp :: "int \<Rightarrow> int \<Rightarrow> int" where
  "clamp x hi = (let x = (if x < 0 then 0 else x) in if x \<ge> hi then hi - 1 else x)"

definition coord :: "u32 \<Rightarrow> int" where
  "coord p = (if p = 0 then 0 else sint (p - 1))"

text \<open>The final byte of a control sequence, at cursor position \<open>pos\<close>.\<close>

definition csi_final :: "int \<Rightarrow> int \<Rightarrow> int \<Rightarrow> int \<Rightarrow> vt \<Rightarrow> (int \<times> vt) option" where
  "csi_final cols rows c pos v =
     (if c = 109 then Some (pos, v\<lparr>v_attr := fold sgr (take (v_nparams v) (v_params v)) (v_attr v)\<rparr>)
      else if c = 74 then
        (if v_params v ! 0 = 2 then do {
           v \<leftarrow> erase_cells 0 (cols * rows) v;
           Some (0, v\<lparr>v_scrolls := 0\<rparr>) }
         else Some (pos, v))
      else if c = 72 \<or> c = 102 then
        Some (clamp (coord (v_params v ! 0)) rows * cols + clamp (coord (v_params v ! 1)) cols, v)
      else if c = 75 then
        (if v_params v ! 0 = 0 then do { v \<leftarrow> erase_cells pos ((pos div cols + 1) * cols) v; Some (pos, v) }
         else if v_params v ! 0 = 1 then do { v \<leftarrow> erase_cells (pos div cols * cols) (pos + 1) v; Some (pos, v) }
         else if v_params v ! 0 = 2 then do {
           v \<leftarrow> erase_cells (pos div cols * cols) ((pos div cols + 1) * cols) v; Some (pos, v) }
         else Some (pos, v))
      else Some (pos, v))"

definition plain_char :: "int \<Rightarrow> int \<Rightarrow> int \<Rightarrow> vt \<Rightarrow> (int \<times> vt) option" where
  "plain_char cols c pos v =
     (if c = 10 then Some (pos + (cols - pos mod cols), v)
      else if c = 13 then Some (pos - pos mod cols, v)
      else if c = BACKSPACE then
        (if pos > 0 then do { v \<leftarrow> put_cell (pos - 1) (blank v) v; Some (pos - 1, v) } else Some (pos, v))
      else if c = 8 then Some (if pos > 0 then pos - 1 else pos, v)
      else if c \<ge> 32 then do {
        v \<leftarrow> put_cell pos ((of_int c AND 0xff) OR v_attr v) v;
        Some (pos + 1, v) }
      else Some (pos, v))"

definition scroll_up :: "int \<Rightarrow> int \<Rightarrow> int \<Rightarrow> vt \<Rightarrow> (int \<times> vt) option" where
  "scroll_up cols rows pos v = do {
     let n = nat ((rows - 1) * cols);
     cells \<leftarrow> load_bytes (v_cells v) (nat cols) n;
     v \<leftarrow> Some (v\<lparr>v_cells := put_bytes (v_cells v) 0 cells\<rparr>);
     v \<leftarrow> erase_cells (pos - cols) (rows * cols) v;
     Some (pos - cols, v\<lparr>v_scrolls := v_scrolls v + 1\<rparr>) }"

definition cga_plain :: "int \<Rightarrow> int \<Rightarrow> int \<Rightarrow> vt \<Rightarrow> vt option" where
  "cga_plain cols rows c v = do {
     (pos, v) \<leftarrow> plain_char cols c (v_pos v) v;
     if pos < 0 \<or> pos > rows * cols then None
     else do {
       (pos, v) \<leftarrow> (if pos div cols \<ge> rows then scroll_up cols rows pos v else Some (pos, v));
       Some (v\<lparr>v_pos := pos\<rparr>) } }"

definition cga_char :: "int \<Rightarrow> int \<Rightarrow> int \<Rightarrow> vt \<Rightarrow> vt option" where
  "cga_char cols rows c v =
     (if v_state v = 0 then
        (if c = 27 then Some (v\<lparr>v_state := 1\<rparr>) else cga_plain cols rows c v)
      else if v_state v = 1 then
        (if c = 91 then Some (v\<lparr>v_state := 2, v_nparams := 0, v_params := replicate 8 0\<rparr>)
         else cga_plain cols rows c (v\<lparr>v_state := 0\<rparr>))
      else if v_state v = 2 then
        (if 48 \<le> c \<and> c \<le> 57 then
           (if v_nparams v < 8 then Some (v\<lparr>v_params := (v_params v)[v_nparams v :=
              (v_params v ! v_nparams v) * 10 + of_int (c - 48)]\<rparr>) else None)
         else if c = 59 then Some (if v_nparams v < 7 then v\<lparr>v_nparams := v_nparams v + 1\<rparr> else v)
         else do {
           (pos, v) \<leftarrow> csi_final cols rows c (v_pos v) (v\<lparr>v_nparams := v_nparams v + 1\<rparr>);
           Some (v\<lparr>v_state := 0, v_pos := pos\<rparr>) })
      else cga_plain cols rows c v)"

definition cgaputc :: "int \<Rightarrow> int \<Rightarrow> int \<Rightarrow> vt \<Rightarrow> vt option" where
  "cgaputc cols rows c v =
     (if v_addr v = 0 then Some v
      else if c \<noteq> BACKSPACE \<and> 0 \<le> c \<and> c \<le> 255 then
        (let (c, v) = decode_utf8 (of_int c) v in if c < 0 then Some v else cga_char cols rows c v)
      else cga_char cols rows c v)"

section \<open>Output\<close>

definition vtputc :: "nat \<Rightarrow> int \<Rightarrow> cons_state \<Rightarrow> cons_state option" where
  "vtputc k c s =
     (if cs_panicked s then None
      else do {
        let s = (if k = cs_active s then s\<lparr>cs_uart := cs_uart s @ (if c = BACKSPACE then [8, 32, 8] else [c])\<rparr> else s);
        v \<leftarrow> cgaputc (cs_columns s) (cs_rows s) c (cs_vts s k);
        Some (upd_vt k (\<lambda>_. v) s) })"

fun vtputs :: "nat \<Rightarrow> int list \<Rightarrow> cons_state \<Rightarrow> cons_state option" where
  "vtputs k [] s = Some s"
| "vtputs k (c # cs) s = do { s \<leftarrow> vtputc k c s; vtputs k cs s }"

definition consputc_raw :: "int \<Rightarrow> cons_state \<Rightarrow> cons_state option" where
  "consputc_raw c s = vtputc (cs_active s) c s"

text \<open>The terminal of a device file: minors 0 to 3 are the terminals, any other minor is the
  one in front.\<close>

definition vt_of :: "int \<Rightarrow> cons_state \<Rightarrow> nat" where
  "vt_of minor s = (if 0 \<le> minor \<and> minor < int NVT then nat minor else cs_active s)"

definition consolewrite :: "int \<Rightarrow> bytes \<Rightarrow> cons_state \<Rightarrow> (int \<times> cons_state) option" where
  "consolewrite minor buf s = do {
     s \<leftarrow> vtputs (vt_of minor s) (map uint buf) s;
     Some (int (length buf), s) }"

definition console_set_foreground :: "int \<Rightarrow> int \<Rightarrow> cons_state \<Rightarrow> cons_state" where
  "console_set_foreground tty pid s = upd_vt (vt_of tty s) (\<lambda>v. v\<lparr>v_fgpid := pid\<rparr>) s"

definition vt_switch :: "int \<Rightarrow> cons_state \<Rightarrow> cons_state" where
  "vt_switch n s =
     (if n < 0 \<or> n \<ge> int NVT \<or> n = int (cs_active s) \<or> v_addr (cs_vts s (nat n)) = 0 then s
      else upd_vt (nat n) (\<lambda>v. v\<lparr>v_scrolls := 0\<rparr>) (s\<lparr>cs_active := nat n\<rparr>))"

section \<open>Input\<close>

definition line_used :: "line \<Rightarrow> u32" where
  "line_used l = in_e l - in_r l"

definition line_put :: "u8 \<Rightarrow> line \<Rightarrow> line" where
  "line_put b l = l\<lparr>in_buf := (in_buf l)[unat (in_e l) mod INPUT_BUF := b], in_e := in_e l + 1\<rparr>"

text \<open>The loop of \<^verbatim>\<open>C('U')\<close> and \<^verbatim>\<open>C('C')\<close>: the characters typed since the last committed one
  are taken back; the number of them is the number of backspaces shown.\<close>

function line_kill :: "line \<Rightarrow> line \<times> nat" where
  "line_kill l =
     (if in_e l \<noteq> in_w l \<and> in_buf l ! (unat (in_e l - 1) mod INPUT_BUF) \<noteq> 10
      then let (l, n) = line_kill (l\<lparr>in_e := in_e l - 1\<rparr>) in (l, Suc n)
      else (l, 0))"
  by pat_completeness auto
termination
proof (relation "measure (\<lambda>l. unat (in_e l - in_w l))")
  fix l :: line
  assume "in_e l \<noteq> in_w l \<and> in_buf l ! (unat (in_e l - 1) mod INPUT_BUF) \<noteq> 10"
  then have "unat (in_e l - 1 - in_w l) < unat (in_e l - in_w l)" by (intro ring_step_back) simp
  then show "(l\<lparr>in_e := in_e l - 1\<rparr>, l) \<in> measure (\<lambda>l. unat (in_e l - in_w l))" by simp
qed simp

declare line_kill.simps [simp del]

definition line_backspace :: "line \<Rightarrow> line \<times> nat" where
  "line_backspace l = (if in_e l \<noteq> in_w l then (l\<lparr>in_e := in_e l - 1\<rparr>, 1) else (l, 0))"

definition emit :: "cons_event list \<Rightarrow> cons_state \<Rightarrow> cons_state" where
  "emit es s = s\<lparr>cs_events := cs_events s @ es\<rparr>"

definition take_back :: "nat \<Rightarrow> (line \<Rightarrow> line \<times> nat) \<Rightarrow> cons_state \<Rightarrow> cons_state option" where
  "take_back k f s =
     (let (l, n) = f (v_in (cs_vts s k)) in
      vtputs k (replicate n BACKSPACE) (upd_vt k (upd_in (\<lambda>_. l)) s))"

definition raw_echo :: "nat \<Rightarrow> int \<Rightarrow> cons_state \<Rightarrow> cons_state option" where
  "raw_echo k c s =
     (if cs_lflag s AND ECHO \<noteq> 0 then vtputc k c s
      else if cs_lflag s AND ECHOPASS \<noteq> 0 then vtputc k 42 s else Some s)"

definition cooked_echo :: "nat \<Rightarrow> int \<Rightarrow> cons_state \<Rightarrow> cons_state option" where
  "cooked_echo k c s =
     (if cs_lflag s AND ECHOPASS \<noteq> 0 \<and> c \<noteq> 10 then vtputc k 42 s
      else if cs_lflag s AND ECHO \<noteq> 0 \<or> c = 10 then vtputc k c s else Some s)"

definition line_commit :: "line \<Rightarrow> line" where
  "line_commit l = l\<lparr>in_w := in_e l\<rparr>"

definition commit_line :: "nat \<Rightarrow> cons_state \<Rightarrow> cons_state" where
  "commit_line k s = emit [WakeReaders k] (upd_vt k (upd_in line_commit) s)"

definition raw_char :: "nat \<Rightarrow> int \<Rightarrow> cons_state \<Rightarrow> cons_state option" where
  "raw_char k c s =
     (if c \<noteq> 0 \<and> line_used (v_in (cs_vts s k)) < of_nat INPUT_BUF then do {
        s \<leftarrow> raw_echo k c (upd_vt k (upd_in (line_put (of_int c))) s);
        Some (commit_line k s) }
      else Some s)"

definition line_complete :: "int \<Rightarrow> line \<Rightarrow> bool" where
  "line_complete c l \<longleftrightarrow> c = 10 \<or> c = 4 \<or> in_e l = in_r l + of_nat INPUT_BUF"

definition cooked_char :: "nat \<Rightarrow> int \<Rightarrow> cons_state \<Rightarrow> cons_state option" where
  "cooked_char k c s =
     (if c \<noteq> 0 \<and> line_used (v_in (cs_vts s k)) < of_nat INPUT_BUF then do {
        let c = (if c = 13 then 10 else c);
        s \<leftarrow> cooked_echo k c (upd_vt k (upd_in (line_put (of_int c))) s);
        Some (if line_complete c (v_in (cs_vts s k)) then commit_line k s else s) }
      else Some s)"

text \<open>One character of \<^verbatim>\<open>consoleintr\<close>; \<^verbatim>\<open>C('P')\<close> asks for a process listing, which prints
  only.\<close>

definition console_char :: "int \<Rightarrow> cons_state \<Rightarrow> cons_state option" where
  "console_char c s =
     (let k = cs_active s in
      if KBD_VT_BASE \<le> c \<and> c < KBD_VT_BASE + int NVT then Some (vt_switch (c - KBD_VT_BASE) s)
      else if cs_lflag s AND ICANON = 0 then raw_char k c s
      else if c = 16 then Some s
      else if c = 21 then take_back k line_kill s
      else if c = 3 then do {
        s \<leftarrow> take_back k line_kill s;
        s \<leftarrow> vtputs k [94, 67, 10] s;
        Some (emit ((if v_fgpid (cs_vts s k) > 0 then [SendSignal (v_fgpid (cs_vts s k)) 2] else []) @ [WakeReaders k]) s) }
      else if c = 8 \<or> c = 127 then take_back k line_backspace s
      else cooked_char k c s)"

fun consoleintr :: "int list \<Rightarrow> cons_state \<Rightarrow> cons_state option" where
  "consoleintr [] s = Some s"
| "consoleintr (c # cs) s = (if c < 0 then Some s else do { s \<leftarrow> console_char c s; consoleintr cs s })"

text \<open>\<^verbatim>\<open>consoleread\<close> from one sleep to the next, with \<open>n\<close> bytes still wanted and \<open>acc\<close> those
  already stored: it returns, is interrupted, or goes to sleep.\<close>

datatype read_result = ReadReturn bytes | ReadInterrupted | ReadBlocked nat bytes

fun consoleread :: "bool \<Rightarrow> bool \<Rightarrow> nat \<Rightarrow> bytes \<Rightarrow> line \<Rightarrow> line \<times> read_result" where
  "consoleread canon intr 0 acc l = (l, ReadReturn acc)"
| "consoleread canon intr (Suc n) acc l =
     (if in_r l = in_w l then (l, if intr then ReadInterrupted else ReadBlocked (Suc n) acc)
      else let c = in_buf l ! (unat (in_r l) mod INPUT_BUF); l' = l\<lparr>in_r := in_r l + 1\<rparr> in
        if canon then
          (if c = 4 then (if acc \<noteq> [] then l else l', ReadReturn acc)
           else if c = 10 then (l', ReadReturn (acc @ [c]))
           else consoleread canon intr n (acc @ [c]) l')
        else (l', ReadReturn (acc @ [c])))"

section \<open>Initialisation\<close>

fun reset_vts :: "nat list \<Rightarrow> cons_state \<Rightarrow> (bool \<times> cons_state) option" where
  "reset_vts [] s = Some (True, s)"
| "reset_vts (k # ks) s = do {
     let cells = nat (cs_columns s * cs_rows s);
     a \<leftarrow> (if v_addr (cs_vts s k) \<noteq> 0 then vmem_free (v_addr (cs_vts s k)) (cs_arena s) else Some (cs_arena s));
     let (p, a) = vmem_alloc (of_nat (cells * 2)) a;
     let s = upd_vt k (\<lambda>v. v\<lparr>v_addr := p\<rparr>) (s\<lparr>cs_arena := a\<rparr>);
     if p = 0 then Some (False, s)
     else reset_vts ks (upd_vt k (\<lambda>v. v\<lparr>v_cells := replicate cells (32 OR 0x0700), v_attr := 0x0700, v_pos := 0,
       v_scrolls := 0, v_state := 0, v_expected := 0\<rparr>) s) }"

definition vt_reset_all :: "cons_state \<Rightarrow> (bool \<times> cons_state) option" where
  "vt_reset_all s = reset_vts [0..<NVT] s"

definition set_geometry :: "(int \<times> int) option \<Rightarrow> cons_state \<Rightarrow> cons_state" where
  "set_geometry fb s = (case fb of None \<Rightarrow> s | Some (c, r) \<Rightarrow> s\<lparr>cs_columns := c, cs_rows := r\<rparr>)"

definition consoleinit :: "(int \<times> int) option \<Rightarrow> cons_state \<Rightarrow> cons_state option" where
  "consoleinit fb s = do {
     (ok, s) \<leftarrow> vt_reset_all (set_geometry fb s);
     if ok then Some s else None }"

definition console_switch_to_gpu :: "(int \<times> int) option \<Rightarrow> cons_state \<Rightarrow> cons_state option" where
  "console_switch_to_gpu fb s =
     (if fb = None then Some s else do { (ok, s) \<leftarrow> vt_reset_all (set_geometry fb s); Some s })"

end
