(* ===== verification/Console_Facts.thy ===== *)
theory Console_Facts
  imports Console
begin

text \<open>
  What the console guarantees: drawing never leaves the screen, and the line discipline
  is a line editor on lists.
\<close>

section \<open>Drawing stays on the screen\<close>

definition vt_ok :: "int \<Rightarrow> int \<Rightarrow> vt \<Rightarrow> bool" where
  "vt_ok cols rows v \<longleftrightarrow> length (v_params v) = 8 \<and> (v_state v = 2 \<longrightarrow> v_nparams v < 8) \<and>
     (v_addr v \<noteq> 0 \<longrightarrow> int (length (v_cells v)) = cols * rows \<and> 0 \<le> v_pos v \<and> v_pos v < cols * rows)"

definition redrawn :: "vt \<Rightarrow> vt \<Rightarrow> bool" where
  "redrawn v v' \<longleftrightarrow> (\<exists>cells. length cells = length (v_cells v) \<and> v' = v\<lparr>v_cells := cells\<rparr>)"

lemma redrawn_refl [simp]: "redrawn v v"
  by (auto simp: redrawn_def intro: exI [of _ "v_cells v"])

lemma redrawn_trans: "redrawn u v \<Longrightarrow> redrawn v w \<Longrightarrow> redrawn u w"
  by (auto simp: redrawn_def)

lemma redrawnD:
  assumes "redrawn v v'"
  shows "length (v_cells v') = length (v_cells v)" "v_addr v' = v_addr v" "v_params v' = v_params v"
    "v_nparams v' = v_nparams v" "v_state v' = v_state v" "v_attr v' = v_attr v" "v_in v' = v_in v"
    "v_fgpid v' = v_fgpid v"
  using assms by (auto simp: redrawn_def)

lemma put_cell_ok:
  "0 \<le> i \<Longrightarrow> i < int (length (v_cells v)) \<Longrightarrow> \<exists>v'. put_cell i x v = Some v' \<and> redrawn v v'"
  by (auto simp: put_cell_def redrawn_def intro: exI [of _ "(v_cells v)[nat i := x]"])

lemma erase_cells_ok:
  assumes "0 \<le> i" and "hi \<le> int (length (v_cells v))"
  shows "\<exists>v'. erase_cells i hi v = Some v' \<and> redrawn v v'"
  using assms
proof (induction i hi v rule: erase_cells.induct)
  case (1 i hi v)
  show ?case
  proof (cases "i < hi")
    case True
    then obtain u where u: "put_cell i (blank v) v = Some u" "redrawn v u"
      using put_cell_ok [of i v "blank v"] 1(2, 3) by auto
    then obtain v' where "erase_cells (i + 1) hi u = Some v'" "redrawn u v'"
      using 1(1) [OF True] 1(2, 3) by (auto simp: redrawnD)
    then show ?thesis using True u by (auto simp: erase_cells.simps [of i] intro: redrawn_trans)
  qed (simp add: erase_cells.simps)
qed

text \<open>The row of a position.\<close>

lemma row_bounds:
  fixes cols rows pos :: int
  assumes "0 < cols" and "0 \<le> pos" and "pos < cols * rows"
  shows "0 \<le> pos div cols * cols" "pos div cols * cols \<le> pos" "pos < (pos div cols + 1) * cols"
    "(pos div cols + 1) * cols \<le> cols * rows"
proof -
  have m: "pos = pos div cols * cols + pos mod cols" "0 \<le> pos mod cols" "pos mod cols < cols"
    using assms(1) by simp_all
  show "0 \<le> pos div cols * cols" using assms by (simp add: pos_imp_zdiv_nonneg_iff)
  show "pos div cols * cols \<le> pos" using m by linarith
  show "pos < (pos div cols + 1) * cols" using m(1, 3) by (simp only: distrib_right)
  have "pos div cols < rows"
  proof (rule ccontr)
    assume "\<not> ?thesis"
    then have "rows * cols \<le> pos div cols * cols" using assms(1) by (intro mult_right_mono) simp_all
    then show False using m assms(3) mult.commute [of cols rows] by linarith
  qed
  then have "pos div cols + 1 \<le> rows" by simp
  then have "(pos div cols + 1) * cols \<le> rows * cols" using assms(1) by (intro mult_right_mono) simp_all
  then show "(pos div cols + 1) * cols \<le> cols * rows" by (simp add: mult.commute)
qed

lemma clamp_bounds: "0 < hi \<Longrightarrow> 0 \<le> clamp x hi \<and> clamp x hi < hi"
  by (auto simp: clamp_def Let_def)

text \<open>What every drawing step leaves: a position and cells that fit, and the rest of the
  terminal as it was.\<close>

definition vt_kept :: "vt \<Rightarrow> vt \<Rightarrow> bool" where
  "vt_kept v v' \<longleftrightarrow> v_addr v' = v_addr v \<and> v_in v' = v_in v \<and> v_fgpid v' = v_fgpid v"

definition drawn :: "int \<Rightarrow> int \<Rightarrow> int \<Rightarrow> vt \<Rightarrow> vt \<Rightarrow> bool" where
  "drawn cols rows pos v v' \<longleftrightarrow> 0 \<le> pos \<and> pos < cols * rows \<and> int (length (v_cells v')) = cols * rows \<and>
     length (v_params v') = 8 \<and> v_state v' = v_state v \<and> v_nparams v' = v_nparams v \<and> vt_kept v v'"

lemma csi_final_ok:
  assumes g: "0 < cols" "0 < rows" and v: "drawn cols rows pos v v"
  shows "\<exists>pos' v'. csi_final cols rows c pos v = Some (pos', v') \<and> drawn cols rows pos' v v'"
proof -
  let ?ok = "\<lambda>r. \<exists>pos' v'. r = Some (pos', v') \<and> drawn cols rows pos' v v'"
  have pos: "0 \<le> pos" "pos < cols * rows" using v by (auto simp: drawn_def)
  note row = row_bounds [OF g(1) pos]
  have erase: "\<exists>u. erase_cells i hi v = Some u \<and> redrawn v u" if "0 \<le> i" "hi \<le> cols * rows" for i hi
    using erase_cells_ok [of i hi v] that v by (simp add: drawn_def)
  have pick: "0 \<le> clamp x rows * cols + clamp y cols \<and> clamp x rows * cols + clamp y cols < cols * rows" for x y
  proof -
    have "clamp x rows * cols \<le> (rows - 1) * cols"
      using clamp_bounds [OF g(2), of x] g by (intro mult_right_mono) auto
    then show ?thesis
      using clamp_bounds [OF g(1), of y] clamp_bounds [OF g(2), of x] g by (auto simp: algebra_simps)
  qed
  have erased: "?ok (do { v \<leftarrow> erase_cells i hi v; Some (pos, v) })" if "0 \<le> i" "hi \<le> cols * rows" for i hi
    using erase [OF that] v by (auto simp: redrawnD drawn_def vt_kept_def)
  have cleared: "?ok (do { v \<leftarrow> erase_cells 0 (cols * rows) v; Some (0, v\<lparr>v_scrolls := 0\<rparr>) })"
    using erase [of 0 "cols * rows"] v g by (auto simp: redrawnD drawn_def vt_kept_def)
  have moved: "?ok (Some (clamp x rows * cols + clamp y cols, v))" for x y
    using pick [of x y] v by (simp add: drawn_def)
  have kept: "?ok (Some (pos, v))" "?ok (Some (pos, v\<lparr>v_attr := a\<rparr>))" for a
    using v by (auto simp: drawn_def vt_kept_def)
  show ?thesis
    unfolding csi_final_def
    using erased [of pos "(pos div cols + 1) * cols"] erased [of "pos div cols * cols" "pos + 1"]
      erased [of "pos div cols * cols" "(pos div cols + 1) * cols"] cleared moved kept row pos
    by (simp only: split: if_splits) simp
qed

lemma plain_char_ok:
  assumes g: "0 < cols" "0 < rows" and v: "drawn cols rows (v_pos v) v v"
  shows "\<exists>pos v'. plain_char cols c (v_pos v) v = Some (pos, v') \<and> 0 \<le> pos \<and> pos \<le> cols * rows \<and> redrawn v v'"
proof -
  have pos: "0 \<le> v_pos v" "v_pos v < cols * rows" and len: "int (length (v_cells v)) = cols * rows"
    using v by (auto simp: drawn_def)
  note row = row_bounds [OF g(1) pos]
  have m: "v_pos v - v_pos v mod cols = v_pos v div cols * cols"
    "v_pos v + (cols - v_pos v mod cols) = (v_pos v div cols + 1) * cols"
    by (simp_all add: minus_mod_eq_div_mult distrib_right)
  have left: "\<exists>v'. put_cell (v_pos v - 1) x v = Some v' \<and> redrawn v v'" if "0 < v_pos v" for x
    using put_cell_ok [of "v_pos v - 1" v x] that pos len by simp
  have here: "\<exists>v'. put_cell (v_pos v) x v = Some v' \<and> redrawn v v'" for x
    using put_cell_ok [of "v_pos v" v x] pos len by simp
  show ?thesis
    using left [of "blank v"] here [of "(of_int c AND 0xff) OR v_attr v"] pos row
    by (auto simp: plain_char_def m)
qed

lemma scroll_up_ok:
  assumes g: "0 < cols" "0 < rows" and v: "int (length (v_cells v)) = cols * rows" "length (v_params v) = 8"
  shows "\<exists>v'. scroll_up cols rows (cols * rows) v = Some (cols * rows - cols, v') \<and>
    drawn cols rows (cols * rows - cols) v v'"
proof -
  have n: "nat cols + nat ((rows - 1) * cols) = length (v_cells v)"
    using v(1) g by (simp add: nat_add_distrib [symmetric] algebra_simps)
  let ?u = "v\<lparr>v_cells := put_bytes (v_cells v) 0 (get_bytes (v_cells v) (nat cols) (nat ((rows - 1) * cols)))\<rparr>"
  have load: "load_bytes (v_cells v) (nat cols) (nat ((rows - 1) * cols)) =
      Some (get_bytes (v_cells v) (nat cols) (nat ((rows - 1) * cols)))"
    using n by (simp add: load_bytes_def)
  have len: "length (v_cells ?u) = length (v_cells v)" using n by simp
  have bounds: "0 \<le> cols * rows - cols" "cols * rows - cols < cols * rows"
    using g mult_left_mono [of 1 rows cols] by simp_all
  obtain v' where "erase_cells (cols * rows - cols) (rows * cols) ?u = Some v'" "redrawn ?u v'"
    using erase_cells_ok [of "cols * rows - cols" "rows * cols" ?u] bounds v len by (auto simp: mult.commute)
  then show ?thesis using load bounds v len
    by (auto simp: scroll_up_def redrawnD drawn_def vt_kept_def)
qed

lemma cga_plain_ok:
  assumes g: "0 < cols" "0 < rows" and v: "drawn cols rows (v_pos v) v v"
  shows "\<exists>v'. cga_plain cols rows c v = Some v' \<and> drawn cols rows (v_pos v') v v'"
proof -
  obtain pos u where u: "plain_char cols c (v_pos v) v = Some (pos, u)" "0 \<le> pos" "pos \<le> cols * rows" "redrawn v u"
    using plain_char_ok [OF g v] by blast
  have len: "int (length (v_cells u)) = cols * rows" "length (v_params u) = 8"
    using v redrawnD [OF u(4)] by (simp_all add: drawn_def)
  show ?thesis
  proof (cases "pos div cols \<ge> rows")
    case True
    then have "rows * cols \<le> pos div cols * cols" using g by (intro mult_right_mono) simp_all
    moreover have "pos div cols * cols \<le> pos" using g minus_mod_eq_div_mult [of pos cols] pos_mod_sign [of cols pos] by linarith
    ultimately have "pos = cols * rows" using u(3) by (simp add: mult.commute)
    moreover obtain w where "scroll_up cols rows (cols * rows) u = Some (cols * rows - cols, w)"
      "drawn cols rows (cols * rows - cols) u w"
      using scroll_up_ok [OF g len] by blast
    ultimately show ?thesis using True u redrawnD [OF u(4)]
      by (auto simp: cga_plain_def drawn_def vt_kept_def mult.commute)
  next
    case False
    then have "pos < cols * rows" using u(2, 3) g by (cases "pos = cols * rows") simp_all
    then show ?thesis using False u redrawnD [OF u(4)] v
      by (auto simp: cga_plain_def drawn_def vt_kept_def mult.commute)
  qed
qed

lemma decode_utf8_kept: "vt_kept v (snd (decode_utf8 b v))" and decode_utf8_screen:
  "v_pos (snd (decode_utf8 b v)) = v_pos v" "v_cells (snd (decode_utf8 b v)) = v_cells v"
  "v_params (snd (decode_utf8 b v)) = v_params v" "v_state (snd (decode_utf8 b v)) = v_state v"
  "v_nparams (snd (decode_utf8 b v)) = v_nparams v"
  by (simp_all add: decode_utf8_def vt_kept_def Let_def)

lemma drawn_state [simp]:
  "drawn cols rows pos (v\<lparr>v_state := n\<rparr>) (v\<lparr>v_state := n\<rparr>) = drawn cols rows pos v v"
  "drawn cols rows pos (v\<lparr>v_nparams := n\<rparr>) (v\<lparr>v_nparams := n\<rparr>) = drawn cols rows pos v v"
  by (simp_all add: drawn_def vt_kept_def)

lemma cga_char_ok:
  assumes g: "0 < cols" "0 < rows" and v: "drawn cols rows (v_pos v) v v" and st: "v_state v = 2 \<longrightarrow> v_nparams v < 8"
  shows "\<exists>v'. cga_char cols rows c v = Some v' \<and> vt_ok cols rows v' \<and> vt_kept v v'"
proof -
  have plain: "\<exists>v'. cga_plain cols rows c u = Some v' \<and> vt_ok cols rows v' \<and> vt_kept v v'"
    if u: "u = v \<or> u = v\<lparr>v_state := 0\<rparr>" for u
  proof -
    have "drawn cols rows (v_pos u) u u" using u v by auto
    then obtain v' where "cga_plain cols rows c u = Some v'" "drawn cols rows (v_pos v') u v'"
      using cga_plain_ok [OF g] by blast
    then show ?thesis using u st by (auto simp: drawn_def vt_ok_def vt_kept_def)
  qed
  have final: "\<exists>pos v'. csi_final cols rows c (v_pos v) (v\<lparr>v_nparams := v_nparams v + 1\<rparr>) = Some (pos, v') \<and>
      drawn cols rows pos (v\<lparr>v_nparams := v_nparams v + 1\<rparr>) v'"
    using csi_final_ok [OF g, of "v_pos v" "v\<lparr>v_nparams := v_nparams v + 1\<rparr>" c] v by simp
  consider "v_state v = 0" | "v_state v = 1" | "v_state v = 2" | "v_state v > 2" by linarith
  then show ?thesis
  proof cases
    case 1
    then show ?thesis using plain [of v] v by (auto simp: cga_char_def vt_ok_def vt_kept_def drawn_def)
  next
    case 2
    then show ?thesis using plain [of "v\<lparr>v_state := 0\<rparr>"] v by (auto simp: cga_char_def vt_ok_def vt_kept_def drawn_def)
  next
    case 3
    then show ?thesis using final st v by (auto simp: cga_char_def vt_ok_def vt_kept_def drawn_def)
  next
    case 4
    then show ?thesis using plain [of v] by (simp add: cga_char_def)
  qed
qed

lemma vt_kept_trans: "vt_kept u v \<Longrightarrow> vt_kept v w \<Longrightarrow> vt_kept u w"
  by (simp add: vt_kept_def)

lemma cgaputc_ok:
  assumes g: "0 < cols" "0 < rows" and v: "vt_ok cols rows v"
  shows "\<exists>v'. cgaputc cols rows c v = Some v' \<and> vt_ok cols rows v' \<and> vt_kept v v'"
proof -
  have go: "\<exists>v'. cga_char cols rows d u = Some v' \<and> vt_ok cols rows v' \<and> vt_kept v v'"
    if "vt_ok cols rows u" "v_addr u \<noteq> 0" "vt_kept v u" for d u
    using cga_char_ok [OF g, of u d] that by (auto simp: vt_ok_def drawn_def vt_kept_def)
  obtain d u where d: "decode_utf8 (of_int c) v = (d, u)" by (metis surj_pair)
  have u: "vt_ok cols rows u" "vt_kept v u"
    using decode_utf8_kept [of v "of_int c"] decode_utf8_screen [of "of_int c" v] v d
    by (auto simp: vt_ok_def vt_kept_def)
  show ?thesis
  proof (cases "v_addr v = 0")
    case False
    then show ?thesis
      using go [OF u(1) _ u(2), of d] go [OF v False, of c] u d v by (auto simp: cgaputc_def vt_kept_def)
  qed (simp add: cgaputc_def v vt_kept_def)
qed

text \<open>The invariant of the console, and that no operation leaves it.\<close>

definition cons_ok :: "cons_state \<Rightarrow> bool" where
  "cons_ok s \<longleftrightarrow> \<not> cs_panicked s \<and> 0 < cs_columns s \<and> 0 < cs_rows s \<and> cs_active s < NVT \<and>
     (\<forall>k < NVT. vt_ok (cs_columns s) (cs_rows s) (cs_vts s k))"

definition cons_kept :: "cons_state \<Rightarrow> cons_state \<Rightarrow> bool" where
  "cons_kept s s' \<longleftrightarrow> cs_active s' = cs_active s \<and> cs_lflag s' = cs_lflag s \<and> cs_events s' = cs_events s \<and>
     (\<forall>k. vt_kept (cs_vts s k) (cs_vts s' k))"

lemma cons_kept_refl [simp]: "cons_kept s s"
  by (simp add: cons_kept_def vt_kept_def)

lemma cons_kept_trans: "cons_kept s t \<Longrightarrow> cons_kept t u \<Longrightarrow> cons_kept s u"
  by (auto simp: cons_kept_def vt_kept_def)

lemma vtputc_ok:
  assumes "cons_ok s" and "k < NVT"
  shows "\<exists>s'. vtputc k c s = Some s' \<and> cons_ok s' \<and> cons_kept s s'"
proof -
  have "0 < cs_columns s" "0 < cs_rows s" "vt_ok (cs_columns s) (cs_rows s) (cs_vts s k)" "\<not> cs_panicked s"
    using assms by (auto simp: cons_ok_def)
  then obtain v where "cgaputc (cs_columns s) (cs_rows s) c (cs_vts s k) = Some v"
    "vt_ok (cs_columns s) (cs_rows s) v" "vt_kept (cs_vts s k) v"
    using cgaputc_ok by blast
  then show ?thesis
    using assms by (auto simp: vtputc_def upd_vt_def cons_ok_def cons_kept_def vt_kept_def Let_def)
qed

lemma vtputs_ok:
  assumes "cons_ok s" and "k < NVT"
  shows "\<exists>s'. vtputs k cs s = Some s' \<and> cons_ok s' \<and> cons_kept s s'"
  using assms(1)
proof (induction cs arbitrary: s)
  case (Cons c cs)
  obtain t where "vtputc k c s = Some t" "cons_ok t" "cons_kept s t"
    using vtputc_ok [OF Cons.prems assms(2)] by blast
  then show ?case using Cons.IH [of t] by (auto intro: cons_kept_trans)
qed simp

lemma vt_ok_upd_in [simp]: "vt_ok c r (upd_in f v) = vt_ok c r v"
  by (simp add: vt_ok_def upd_in_def)

lemma cons_ok_upd_in [simp]: "cons_ok (upd_vt k (upd_in f) s) = cons_ok s"
  by (auto simp: cons_ok_def upd_vt_def)

lemma cons_ok_emit [simp]: "cons_ok (emit es s) = cons_ok s"
  by (simp add: cons_ok_def emit_def)

lemma emit_simps [simp]:
  "cs_vts (emit es s) = cs_vts s" "cs_active (emit es s) = cs_active s" "cs_lflag (emit es s) = cs_lflag s"
  by (simp_all add: emit_def)

lemma cons_ok_switch: "cons_ok s \<Longrightarrow> cons_ok (vt_switch n s)"
  by (auto simp: vt_switch_def cons_ok_def upd_vt_def vt_ok_def)

lemma take_back_ok:
  assumes "cons_ok s" and "k < NVT"
  shows "\<exists>s'. take_back k f s = Some s' \<and> cons_ok s' \<and>
    cons_kept (upd_vt k (upd_in (\<lambda>_. fst (f (v_in (cs_vts s k))))) s) s'"
  using vtputs_ok [of "upd_vt k (upd_in (\<lambda>_. fst (f (v_in (cs_vts s k))))) s" k
      "replicate (snd (f (v_in (cs_vts s k)))) BACKSPACE"] assms
  by (simp add: take_back_def case_prod_beta)

lemma cons_ok_commit [simp]: "cons_ok (commit_line k s) = cons_ok s"
  by (simp add: commit_line_def)

text \<open>An echo keeps everything but the screen.\<close>

lemma echo_ok:
  assumes "cons_ok s" and "k < NVT"
  shows "\<exists>s'. raw_echo k c s = Some s' \<and> cons_ok s' \<and> cons_kept s s'"
    and "\<exists>s'. cooked_echo k c s = Some s' \<and> cons_ok s' \<and> cons_kept s s'"
  using assms vtputc_ok [OF assms] by (simp_all add: raw_echo_def cooked_echo_def)

lemma raw_char_ok:
  assumes "cons_ok s" and "k < NVT"
  shows "\<exists>s'. raw_char k c s = Some s' \<and> cons_ok s'"
  using echo_ok(1) [of "upd_vt k (upd_in (line_put (of_int c))) s" k c] assms by (auto simp: raw_char_def)

lemma cooked_char_ok:
  assumes "cons_ok s" and "k < NVT"
  shows "\<exists>s'. cooked_char k c s = Some s' \<and> cons_ok s'"
proof -
  let ?c = "if c = 13 then 10 else c"
  obtain u where "cooked_echo k ?c (upd_vt k (upd_in (line_put (of_int ?c))) s) = Some u" "cons_ok u"
    using echo_ok(2) [of "upd_vt k (upd_in (line_put (of_int ?c))) s" k ?c] assms by auto
  then show ?thesis using assms(1) by (simp add: cooked_char_def Let_def)
qed

lemma console_char_ok:
  assumes "cons_ok s"
  shows "\<exists>s'. console_char c s = Some s' \<and> cons_ok s'"
proof -
  let ?k = "cs_active s"
  have k: "?k < NVT" using assms by (simp add: cons_ok_def)
  have undo: "\<exists>s'. take_back ?k f s = Some s' \<and> cons_ok s'" for f using take_back_ok [OF assms k] by blast
  have ctl: "\<exists>s'. do { s \<leftarrow> take_back ?k line_kill s; s \<leftarrow> vtputs ?k cs s; Some (g s) } = Some s' \<and> cons_ok s'"
    if g: "\<And>s. cons_ok (g s) = cons_ok s" for g cs
  proof -
    obtain t where t: "take_back ?k line_kill s = Some t" "cons_ok t" using undo by blast
    then show ?thesis using vtputs_ok [OF t(2) k, of cs] by (auto simp: g)
  qed
  show ?thesis
    unfolding console_char_def Let_def
    using raw_char_ok [OF assms k, of c] cons_ok_switch [OF assms] undo [of line_kill] undo [of line_backspace]
      ctl [of "\<lambda>s. emit ((if v_fgpid (cs_vts s ?k) > 0 then [SendSignal (v_fgpid (cs_vts s ?k)) 2] else []) @ [WakeReaders ?k]) s"]
      cooked_char_ok [OF assms k, of c] assms
    by (simp only: split: if_splits) (simp del: vtputs.simps)
qed

lemma consoleintr_ok: "cons_ok s \<Longrightarrow> \<exists>s'. consoleintr cs s = Some s' \<and> cons_ok s'"
proof (induction cs arbitrary: s)
  case (Cons c cs)
  then obtain t where "console_char c s = Some t" "cons_ok t" using console_char_ok by blast
  then show ?case using Cons.IH [of t] Cons.prems by simp
qed simp

section \<open>The line discipline is a line editor\<close>

text \<open>The reference: the bytes the reader may take and the bytes still being edited.\<close>

definition edit_char :: "int \<Rightarrow> bytes \<times> bytes \<Rightarrow> bytes \<times> bytes" where
  "edit_char c st = (case st of (com, cur) \<Rightarrow>
     if c = 16 then (com, cur)
     else if c = 21 \<or> c = 3 then (com, [])
     else if c = 8 \<or> c = 127 then (com, butlast cur)
     else if c = 0 \<or> length com + length cur \<ge> INPUT_BUF then (com, cur)
     else let b = (if c = 13 then 10 else c); cur = cur @ [of_int b] in
       if b = 10 \<or> b = 4 \<or> length com + length cur = INPUT_BUF then (com @ cur, []) else (com, cur))"

definition line_abs :: "line \<Rightarrow> bytes \<times> bytes" where
  "line_abs l = (ring_items (in_buf l) (in_r l) (in_w l), ring_items (in_buf l) (in_w l) (in_e l))"

definition line_ring :: "line \<Rightarrow> bool" where
  "line_ring l \<longleftrightarrow> ring_ok INPUT_BUF (in_buf l) (in_r l) (in_e l)"

definition line_ok :: "line \<Rightarrow> bool" where
  "line_ok l \<longleftrightarrow> line_ring l \<and> unat (in_w l - in_r l) \<le> unat (in_e l - in_r l) \<and>
     10 \<notin> set (ring_items (in_buf l) (in_w l) (in_e l))"

definition line_items :: "line \<Rightarrow> bytes" where
  "line_items l = ring_items (in_buf l) (in_r l) (in_e l)"

definition line_head :: "line \<Rightarrow> u8" where
  "line_head l = in_buf l ! (unat (in_r l) mod INPUT_BUF)"

definition line_get :: "line \<Rightarrow> line" where
  "line_get l = l\<lparr>in_r := in_r l + 1\<rparr>"

interpretation lq: fifo line_items line_ring INPUT_BUF line_put line_head line_get
proof
  fix q x
  assume ok: "line_ring q"
  show "length (line_items q) \<le> INPUT_BUF" using ok by (simp add: line_ring_def line_items_def ring_ok_def)
  show "line_ring (line_put x q)" "line_items (line_put x q) = line_items q @ [x]"
    if "length (line_items q) < INPUT_BUF"
    using that ok ring_put [of INPUT_BUF "in_buf q" "in_r q" "in_e q" x]
    by (simp_all add: line_ring_def line_items_def line_put_def)
  show "line_ring (line_get q)" "line_items q = line_head q # line_items (line_get q)"
    if "line_items q \<noteq> []"
    using that ok ring_get [of INPUT_BUF "in_buf q" "in_r q" "in_e q"]
    by (simp_all add: line_ring_def line_items_def line_get_def line_head_def)
qed

lemma line_split:
  assumes "line_ring l" and "unat (in_w l - in_r l) \<le> unat (in_e l - in_r l)"
  shows "line_items l = fst (line_abs l) @ snd (line_abs l)"
    and "length (fst (line_abs l)) = unat (in_w l - in_r l)"
    and "length (snd (line_abs l)) = unat (in_e l - in_w l)"
  using ring_split(1) [of INPUT_BUF "in_buf l" "in_r l" "in_e l" "in_w l"] assms
  by (simp_all add: line_ring_def line_items_def line_abs_def)

lemma line_put_abs:
  assumes ok: "line_ring l" "unat (in_w l - in_r l) \<le> unat (in_e l - in_r l)" and room: "length (line_items l) < INPUT_BUF"
  shows "line_ring (line_put b l)" "unat (in_w l - in_r l) \<le> unat (in_e (line_put b l) - in_r l)"
    "line_abs (line_put b l) = (fst (line_abs l), snd (line_abs l) @ [b])"
proof -
  let ?l = "line_put b l"
  have ring: "line_ring ?l" and items: "line_items ?l = line_items l @ [b]"
    using lq.put_inv [OF ok(1) room] lq.put_items [OF ok(1) room] by simp_all
  show "line_ring ?l" by (rule ring)
  have same: "in_w ?l = in_w l" "in_r ?l = in_r l" by (simp_all add: line_put_def)
  have "length (line_items ?l) = Suc (length (line_items l))" by (simp add: items)
  then have le: "unat (in_w ?l - in_r ?l) \<le> unat (in_e ?l - in_r ?l)"
    using ok(2) by (simp add: line_items_def same)
  then show "unat (in_w l - in_r l) \<le> unat (in_e ?l - in_r l)" by (simp add: same)
  have "fst (line_abs ?l) @ snd (line_abs ?l) = fst (line_abs l) @ (snd (line_abs l) @ [b])"
    using line_split(1) [OF ring le] line_split(1) [OF ok] items by simp
  moreover have "length (fst (line_abs ?l)) = length (fst (line_abs l))"
    using line_split(2) [OF ring le] line_split(2) [OF ok] by (simp add: same)
  ultimately show "line_abs ?l = (fst (line_abs l), snd (line_abs l) @ [b])"
    by (simp add: prod_eq_iff append_eq_append_conv)
qed

lemma line_commit_abs:
  assumes "line_ring l" and "unat (in_w l - in_r l) \<le> unat (in_e l - in_r l)"
  shows "line_ok (line_commit l)" "line_abs (line_commit l) = (fst (line_abs l) @ snd (line_abs l), [])"
proof -
  have e: "ring_items b w w = []" for b :: bytes and w by simp
  show "line_ok (line_commit l)" using assms(1) by (simp add: line_ok_def line_commit_def line_ring_def e)
  show "line_abs (line_commit l) = (fst (line_abs l) @ snd (line_abs l), [])"
    using line_split(1) [OF assms] by (simp add: line_abs_def line_commit_def line_items_def)
qed

lemma line_erase_abs:
  assumes ok: "line_ok l" and e: "in_e l \<noteq> in_w l"
  shows "line_ok (l\<lparr>in_e := in_e l - 1\<rparr>)" (is "line_ok ?l")
    "line_abs (l\<lparr>in_e := in_e l - 1\<rparr>) = (fst (line_abs l), butlast (snd (line_abs l)))"
    "in_buf l ! (unat (in_e l - 1) mod INPUT_BUF) \<noteq> 10"
proof -
  have r: "line_ring l" "unat (in_w l - in_r l) \<le> unat (in_e l - in_r l)"
    and nl: "10 \<notin> set (ring_items (in_buf l) (in_w l) (in_e l))"
    using ok by (simp_all add: line_ok_def)
  have cur: "ring_ok INPUT_BUF (in_buf l) (in_w l) (in_e l)"
    using r ring_split(2) [of INPUT_BUF "in_buf l" "in_r l" "in_e l" "in_w l"] by (simp add: line_ring_def ring_ok_def)
  note back1 = ring_unput [OF cur e [symmetric]]
  have ne: "in_e l \<noteq> in_r l"
  proof
    assume "in_e l = in_r l"
    then have "unat (in_w l - in_r l) = 0" using r(2) by simp
    then show False using e \<open>in_e l = in_r l\<close> by (simp add: unat_eq_0)
  qed
  have "ring_ok INPUT_BUF (in_buf l) (in_r l) (in_e l - 1)"
    using ring_unput(1) [of INPUT_BUF "in_buf l" "in_r l" "in_e l"] r(1) ne by (simp add: line_ring_def)
  moreover have "unat (in_w l - in_r l) \<le> unat (in_e l - 1 - in_r l)"
  proof -
    have "unat (in_e l - in_w l) \<noteq> 0" using e by (simp add: unat_eq_0)
    then have "unat (in_w l - in_r l) < unat (in_e l - in_r l)"
      using ring_split(2) [of INPUT_BUF "in_buf l" "in_r l" "in_e l" "in_w l"] r by (simp add: line_ring_def)
    moreover have "in_e l - in_r l - 1 = in_e l - 1 - in_r l" by simp
    moreover have "unat (in_e l - in_r l - 1) = unat (in_e l - in_r l) - 1" using ne by (simp add: unat_minus_one)
    ultimately show ?thesis by (metis Suc_pred diff_Suc_1 less_Suc_eq_le not_less_zero not_gr_zero)
  qed
  ultimately show "line_ok ?l"
    using nl back1 by (auto simp: line_ok_def line_ring_def dest: in_set_butlastD)
  show "line_abs ?l = (fst (line_abs l), butlast (snd (line_abs l)))"
    using back1 by (simp add: line_abs_def)
  have "last (ring_items (in_buf l) (in_w l) (in_e l)) = in_buf l ! (unat (in_e l - 1) mod INPUT_BUF)"
    by (rule ring_last [OF cur e [symmetric]])
  then show "in_buf l ! (unat (in_e l - 1) mod INPUT_BUF) \<noteq> 10"
    using nl e by (metis last_in_set ring_items_empty)
qed

lemma line_kill_abs:
  "line_ok l \<Longrightarrow> line_ok (fst (line_kill l)) \<and> line_abs (fst (line_kill l)) = (fst (line_abs l), [])"
proof (induction l rule: line_kill.induct)
  case (1 l)
  show ?case
  proof (cases "in_e l = in_w l")
    case True
    then have "line_kill l = (l, 0)" by (simp add: line_kill.simps)
    then show ?thesis using 1(2) True by (simp add: line_abs_def)
  next
    case False
    note e = line_erase_abs [OF 1(2) False]
    have k: "fst (line_kill l) = fst (line_kill (l\<lparr>in_e := in_e l - 1\<rparr>))"
      using False e(3) by (simp add: line_kill.simps [of l] case_prod_beta)
    show ?thesis using 1(1) [OF _ e(1)] False e k by simp
  qed
qed

lemma line_backspace_abs:
  assumes "line_ok l"
  shows "line_ok (fst (line_backspace l)) \<and>
    line_abs (fst (line_backspace l)) = (fst (line_abs l), butlast (snd (line_abs l)))"
proof (cases "in_e l = in_w l")
  case True
  then have "snd (line_abs l) = []" by (simp add: line_abs_def)
  then show ?thesis using assms True by (simp add: line_backspace_def prod_eq_iff)
next
  case False
  then show ?thesis using line_erase_abs [OF assms False] by (simp add: line_backspace_def)
qed

lemma line_used_iff: "line_ring l \<Longrightarrow> line_used l < of_nat INPUT_BUF \<longleftrightarrow> length (line_items l) < INPUT_BUF"
  by (simp add: line_used_def line_items_def word_less_nat_alt)

lemma line_full_iff: "in_e l = in_r l + of_nat INPUT_BUF \<longleftrightarrow> length (line_items l) = INPUT_BUF"
proof -
  have "in_e l = in_r l + of_nat INPUT_BUF \<longleftrightarrow> in_e l - in_r l = 128" by (simp add: diff_eq_eq add.commute)
  also have "\<dots> \<longleftrightarrow> unat (in_e l - in_r l) = 128" by (subst word_unat_eq_iff) simp
  finally show ?thesis by (simp add: line_items_def)
qed

text \<open>The line after a character that is not for editing.\<close>

lemma line_typed:
  assumes ok: "line_ok l" and c: "c \<noteq> 0" "c \<noteq> 3" "c \<noteq> 8" "c \<noteq> 16" "c \<noteq> 21" "c \<noteq> 127" "0 \<le> c" "c < 256"
    and room: "line_used l < of_nat INPUT_BUF"
  defines "d \<equiv> (if c = 13 then 10 else c)"
  defines "l' \<equiv> line_put (of_int d) l"
  shows "line_ok (if line_complete d l' then line_commit l' else l')"
    "line_abs (if line_complete d l' then line_commit l' else l') = edit_char c (line_abs l)"
proof -
  have r: "line_ring l" "unat (in_w l - in_r l) \<le> unat (in_e l - in_r l)" using ok by (simp_all add: line_ok_def)
  have len: "length (line_items l) < INPUT_BUF" using room line_used_iff [OF r(1)] by simp
  have same: "in_w l' = in_w l" "in_r l' = in_r l" by (simp_all add: l'_def line_put_def)
  have put: "line_ring l'" "unat (in_w l' - in_r l') \<le> unat (in_e l' - in_r l')"
    "line_abs l' = (fst (line_abs l), snd (line_abs l) @ [of_int d])"
    using line_put_abs [OF r len, of "of_int d"] by (simp_all add: l'_def [symmetric] same)
  have sum: "length (fst (line_abs l)) + length (snd (line_abs l)) = length (line_items l)"
    using line_split(1) [OF r] by simp
  have full: "in_e l' = in_r l' + of_nat INPUT_BUF \<longleftrightarrow> length (line_items l) + 1 = INPUT_BUF"
    using line_full_iff [of l'] line_split(1) [OF put(1, 2)] put(3) sum by simp
  have nl: "d \<noteq> 10 \<Longrightarrow> (of_int d :: u8) \<noteq> 10"
  proof
    assume "d \<noteq> 10" "(of_int d :: u8) = 10"
    then have "uint (of_int d :: u8) = 10" by simp
    then show False using c(7, 8) \<open>d \<noteq> 10\<close> by (simp add: d_def uint_word_of_int take_bit_int_eq_self split: if_splits)
  qed
  show "line_ok (if line_complete d l' then line_commit l' else l')"
    using line_commit_abs(1) [OF put(1, 2)] put ok nl by (auto simp: line_ok_def line_abs_def line_complete_def)
  show "line_abs (if line_complete d l' then line_commit l' else l') = edit_char c (line_abs l)"
    using line_commit_abs(2) [OF put(1, 2)] put(3) c len sum full
    by (auto simp: line_complete_def edit_char_def d_def case_prod_beta Let_def)
qed

lemma console_char_line:
  assumes s: "cons_ok s" "cs_lflag s AND ICANON \<noteq> 0" and l: "line_ok (v_in (cs_vts s (cs_active s)))"
    and c: "0 \<le> c" "c < 256"
  shows "\<exists>s'. console_char c s = Some s' \<and> cons_ok s' \<and> cs_active s' = cs_active s \<and> cs_lflag s' = cs_lflag s \<and>
    line_ok (v_in (cs_vts s' (cs_active s))) \<and>
    line_abs (v_in (cs_vts s' (cs_active s))) = edit_char c (line_abs (v_in (cs_vts s (cs_active s))))"
    (is "\<exists>s'. _ \<and> ?post s'")
proof -
  let ?k = "cs_active s" let ?l = "v_in (cs_vts s ?k)"
  have k: "?k < NVT" using s by (simp add: cons_ok_def)
  have undo: "\<exists>s'. take_back ?k f s = Some s' \<and> cons_ok s' \<and> cs_active s' = ?k \<and> cs_lflag s' = cs_lflag s \<and>
      v_in (cs_vts s' ?k) = fst (f ?l)" for f
    using take_back_ok [OF s(1) k, of f] by (auto simp: cons_kept_def upd_vt_def upd_in_def vt_kept_def)
  consider (kill) "c = 21" | (intr) "c = 3" | (back_space) "c = 8 \<or> c = 127" | (list) "c = 16"
    | (full) "c = 0 \<or> \<not> line_used ?l < of_nat INPUT_BUF" "c \<noteq> 21" "c \<noteq> 3" "c \<noteq> 8" "c \<noteq> 127" "c \<noteq> 16"
    | (typed) "c \<noteq> 0" "line_used ?l < of_nat INPUT_BUF" "c \<noteq> 21" "c \<noteq> 3" "c \<noteq> 8" "c \<noteq> 127" "c \<noteq> 16"
    by blast
  then show ?thesis
  proof cases
    case kill
    then show ?thesis using undo [of line_kill] line_kill_abs [OF l] s c
      by (auto simp: console_char_def edit_char_def case_prod_beta)
  next
    case back_space
    then show ?thesis using undo [of line_backspace] line_backspace_abs [OF l] s c
      by (auto simp: console_char_def edit_char_def case_prod_beta)
  next
    case list
    then show ?thesis using s l by (simp add: console_char_def edit_char_def case_prod_beta)
  next
    case intr
    obtain t where t: "take_back ?k line_kill s = Some t" "cons_ok t" "cs_active t = ?k" "cs_lflag t = cs_lflag s"
      "v_in (cs_vts t ?k) = fst (line_kill ?l)"
      using undo [of line_kill] by blast
    obtain u where u: "vtputs ?k [94, 67, 10] t = Some u" "cons_ok u" "cons_kept t u"
      using vtputs_ok [OF t(2) k] by blast
    show ?thesis using intr t u line_kill_abs [OF l] s
      by (auto simp: console_char_def edit_char_def case_prod_beta cons_kept_def vt_kept_def Let_def simp del: vtputs.simps)
  next
    case full
    then have "console_char c s = Some s" using s c by (auto simp: console_char_def cooked_char_def)
    moreover have "edit_char c (line_abs ?l) = line_abs ?l"
      using full l line_used_iff [of ?l] line_split(1) [of ?l]
      by (auto simp: edit_char_def case_prod_beta line_ok_def)
    ultimately show ?thesis using s l by simp
  next
    case typed
    let ?d = "if c = 13 then 10 else c"
    let ?t = "upd_vt ?k (upd_in (line_put (of_int ?d))) s"
    obtain u where u: "cooked_echo ?k ?d ?t = Some u" "cons_ok u" "cons_kept ?t u"
      using echo_ok(2) [of ?t ?k ?d] s k by auto
    have vin: "v_in (cs_vts u ?k) = line_put (of_int ?d) ?l" "cs_active u = ?k" "cs_lflag u = cs_lflag s"
      using u(3) by (simp_all add: cons_kept_def vt_kept_def upd_vt_def upd_in_def)
    have "console_char c s = Some (if line_complete ?d (v_in (cs_vts u ?k)) then commit_line ?k u else u)"
      using typed s c u(1) by (simp add: console_char_def cooked_char_def Let_def)
    moreover have "v_in (cs_vts (commit_line ?k u) ?k) = line_commit (v_in (cs_vts u ?k))"
      by (simp add: commit_line_def emit_def upd_vt_def upd_in_def)
    moreover have "cs_active (commit_line ?k u) = ?k" "cs_lflag (commit_line ?k u) = cs_lflag s"
      using vin by (simp_all add: commit_line_def emit_def upd_vt_def)
    ultimately show ?thesis
      using line_typed [OF l typed(1, 4, 5, 7, 3, 6) c typed(2)] u(2) vin by (cases "line_complete ?d (v_in (cs_vts u ?k))") simp_all
  qed
qed

lemma consoleintr_line:
  assumes "cons_ok s" "cs_lflag s AND ICANON \<noteq> 0" "line_ok (v_in (cs_vts s (cs_active s)))"
    and "\<forall>c \<in> set cs. 0 \<le> c \<and> c < 256"
  shows "\<exists>s'. consoleintr cs s = Some s' \<and> line_ok (v_in (cs_vts s' (cs_active s))) \<and>
    line_abs (v_in (cs_vts s' (cs_active s))) = fold edit_char cs (line_abs (v_in (cs_vts s (cs_active s))))"
  using assms
proof (induction cs arbitrary: s)
  case (Cons c cs)
  obtain t where "console_char c s = Some t" "cons_ok t" "cs_active t = cs_active s" "cs_lflag t = cs_lflag s"
    "line_ok (v_in (cs_vts t (cs_active s)))"
    "line_abs (v_in (cs_vts t (cs_active s))) = edit_char c (line_abs (v_in (cs_vts s (cs_active s))))"
    using console_char_line [OF Cons.prems(1-3), of c] Cons.prems(4) by auto
  then show ?case using Cons.IH [of t] Cons.prems by auto
qed simp

text \<open>The reader takes from the committed part.\<close>

lemma line_get_abs:
  assumes ok: "line_ok l" and com: "fst (line_abs l) = b # rest"
  shows "in_r l \<noteq> in_w l" "in_buf l ! (unat (in_r l) mod INPUT_BUF) = b"
    "line_ok (l\<lparr>in_r := in_r l + 1\<rparr>)" "line_abs (l\<lparr>in_r := in_r l + 1\<rparr>) = (rest, snd (line_abs l))"
proof -
  have r: "line_ring l" "unat (in_w l - in_r l) \<le> unat (in_e l - in_r l)" using ok by (simp_all add: line_ok_def)
  show w: "in_r l \<noteq> in_w l" using com by (auto simp: line_abs_def)
  have rw: "ring_ok INPUT_BUF (in_buf l) (in_r l) (in_w l)" using r by (auto simp: line_ring_def ring_ok_def)
  have e: "in_r l \<noteq> in_e l" using r(2) w by (auto simp: unat_eq_0)
  have re: "ring_ok INPUT_BUF (in_buf l) (in_r l) (in_e l)" using r(1) by (simp add: line_ring_def)
  note get = ring_get [OF rw w] ring_get [OF re e]
  show "in_buf l ! (unat (in_r l) mod INPUT_BUF) = b" using get(2) com by (simp add: line_abs_def)
  show "line_abs (l\<lparr>in_r := in_r l + 1\<rparr>) = (rest, snd (line_abs l))" using get(2) com by (simp add: line_abs_def)
  have "Suc (length (ring_items (in_buf l) (in_r l + 1) (in_w l))) \<le> Suc (length (ring_items (in_buf l) (in_r l + 1) (in_e l)))"
    using r(2) get(2, 4) by (metis length_Cons length_ring_items)
  then show "line_ok (l\<lparr>in_r := in_r l + 1\<rparr>)" using get(3) ok by (simp add: line_ok_def line_ring_def)
qed

lemma consoleread_line:
  assumes "line_ok l" and "fst (line_abs l) = line @ 10 # rest" and "10 \<notin> set line" "4 \<notin> set line" and "length line < n"
  shows "\<exists>l'. consoleread True intr n acc l = (l', ReadReturn (acc @ line @ [10])) \<and> line_ok l' \<and>
    line_abs l' = (rest, snd (line_abs l))"
  using assms
proof (induction line arbitrary: n acc l)
  case Nil
  then obtain m where "n = Suc m" by (cases n) auto
  then show ?case using line_get_abs [of l 10 rest] Nil by simp
next
  case (Cons b line)
  then obtain m where n: "n = Suc m" by (cases n) auto
  have g: "in_r l \<noteq> in_w l" "in_buf l ! (unat (in_r l) mod INPUT_BUF) = b" "line_ok (l\<lparr>in_r := in_r l + 1\<rparr>)"
    "line_abs (l\<lparr>in_r := in_r l + 1\<rparr>) = (line @ 10 # rest, snd (line_abs l))"
    using line_get_abs [of l b "line @ 10 # rest"] Cons.prems by simp_all
  show ?case using Cons.IH [OF g(3), of m "acc @ [b]"] g Cons.prems n by simp
qed

section \<open>Properties\<close>

text \<open>C6. The console draws inside the screen: whatever bytes are written to whatever terminal
  and whatever keys are pressed, in any mode and at any cursor position, no cell outside
  the buffer is written, the kernel does not panic, and the terminals stay well formed.\<close>

theorem console_stays_on_screen:
  assumes "cons_ok s"
  shows "(\<exists>s'. consolewrite minor buf s = Some (int (length buf), s') \<and> cons_ok s') \<and>
    (\<exists>s'. consoleintr cs s = Some s' \<and> cons_ok s')"
proof -
  have "vt_of minor s < NVT" using assms by (auto simp: vt_of_def cons_ok_def)
  then obtain s' where "vtputs (vt_of minor s) (map uint buf) s = Some s'" "cons_ok s'"
    using vtputs_ok [OF assms] by blast
  then show ?thesis using consoleintr_ok [OF assms, of cs] by (simp add: consolewrite_def)
qed

text \<open>C13. The line discipline is the line editor \<^const>\<open>edit_char\<close>: after any keys, the ring
  buffer of the terminal in front holds the committed and the edited text that the
  editor on lists computes.\<close>

theorem console_line_editor:
  assumes "cons_ok s" and "cs_lflag s AND ICANON \<noteq> 0" and "line_ok (v_in (cs_vts s (cs_active s)))"
    and "\<forall>c \<in> set cs. 0 \<le> c \<and> c < 256"
  shows "\<exists>s'. consoleintr cs s = Some s' \<and>
    line_abs (v_in (cs_vts s' (cs_active s))) = fold edit_char cs (line_abs (v_in (cs_vts s (cs_active s))))"
  using consoleintr_line [OF assms] by blast

text \<open>A console of one row and two columns at the start.\<close>

definition demo_vt :: vt where
  "demo_vt = \<lparr>v_addr = 4096, v_cells = [0, 0], v_pos = 1, v_scrolls = 0, v_state = 0, v_params = replicate 8 0, v_nparams = 0,
     v_attr = 0x700, v_codepoint = 0, v_expected = 0, v_fgpid = 0,
     v_in = \<lparr>in_buf = replicate 128 0, in_r = 0, in_w = 0, in_e = 0\<rparr>\<rparr>"

definition demo_cons :: cons_state where
  "demo_cons = \<lparr>cs_vts = (\<lambda>k. demo_vt), cs_active = 0, cs_columns = 2, cs_rows = 1, cs_lflag = ICANON OR ECHO,
     cs_panicked = False, cs_uart = [], cs_events = [], cs_arena = vmem_init 0 0\<rparr>"

lemma demo_cons_ok: "cons_ok demo_cons" "line_ok (v_in (cs_vts demo_cons 0))" "line_abs (v_in (cs_vts demo_cons 0)) = ([], [])"
  by (simp_all add: demo_cons_def cons_ok_def vt_ok_def demo_vt_def line_ok_def line_ring_def ring_ok_def line_abs_def)

theorem console_stays_on_screen_witness:
  "\<exists>s'. consolewrite 0 [65, 66, 27, 91, 50, 75, 10] demo_cons = Some (7, s') \<and> cons_ok s'"
  using console_stays_on_screen [OF demo_cons_ok(1), of 0 "[65, 66, 27, 91, 50, 75, 10]"] by simp

theorem console_line_editor_witness:
  "\<exists>s'. consoleintr [97, 98, 127, 99, 13] demo_cons = Some s' \<and> line_abs (v_in (cs_vts s' 0)) = ([97, 99, 10], [])"
  using console_line_editor [of demo_cons "[97, 98, 127, 99, 13]"] demo_cons_ok
  by (simp add: edit_char_def demo_cons_def)

definition full_arena :: vmem_arena where
  "full_arena = \<lparr>vmem_base = 0x10000, vmem_blocks =
     map (\<lambda>a. \<lparr>vb_addr = a, vb_size = 0x1000, vb_used = True\<rparr>) [0x10000, 0x11000, 0x12000, 0x13000]\<rparr>"

definition full_cons :: cons_state where
  "full_cons = demo_cons\<lparr>cs_vts := (\<lambda>k. demo_vt\<lparr>v_addr := [0x10040, 0x11040, 0x12040, 0x13040] ! k\<rparr>), cs_arena := full_arena\<rparr>"


end
