(* ===== verification/Printf.thy ===== *)
theory Printf
  imports Prelude
begin

text \<open>
  Formatted output: \<^verbatim>\<open>user/printf.c\<close> with its 512-byte buffer, and \<^verbatim>\<open>printint\<close> and
  \<^verbatim>\<open>cprintf\<close> of \<^verbatim>\<open>kern/console.c\<close>.  The variable arguments are a list; asking for an
  argument of the wrong type, or for one that is not there, has no meaning in C and no
  value here.  The kernel's \<^verbatim>\<open>cprintf\<close> is given by the characters it passes to
  \<^verbatim>\<open>consputc_raw\<close>.
\<close>

section \<open>Digits\<close>

definition digit_char :: "nat \<Rightarrow> u8" where
  "digit_char d = (if d < 10 then of_nat (48 + d) else of_nat (87 + d))"

text \<open>The do-while loop of \<^verbatim>\<open>printint\<close>: the least significant digit first.\<close>

function digits :: "nat \<Rightarrow> nat \<Rightarrow> bytes" where
  "digits base x = digit_char (x mod base) # (if base < 2 \<or> x div base = 0 then [] else digits base (x div base))"
  by pat_completeness auto
termination by (relation "measure snd") (auto simp: div_eq_0_iff intro: div_less_dividend)

declare digits.simps [simp del]

definition is_neg :: "bool \<Rightarrow> u64 \<Rightarrow> bool" where
  "is_neg sign xx \<longleftrightarrow> sign \<and> sint xx < 0"

definition int_chars :: "u64 \<Rightarrow> nat \<Rightarrow> bool \<Rightarrow> bytes" where
  "int_chars xx base sign =
     digits base (unat (if is_neg sign xx then - xx else xx)) @ (if is_neg sign xx then [45] else [])"

section \<open>The kernel\<close>

text \<open>\<^verbatim>\<open>printint\<close> of the kernel collects the characters in \<^verbatim>\<open>char buf[16]\<close>; a number that
  needs more writes past it.\<close>

definition kprintint :: "u64 \<Rightarrow> nat \<Rightarrow> bool \<Rightarrow> bytes option" where
  "kprintint xx base sign = (let buf = int_chars xx base sign in if length buf \<le> 16 then Some (rev buf) else None)"

datatype arg = ArgInt u64 | ArgStr "bytes option"

definition null_text :: bytes where
  "null_text = [40, 110, 117, 108, 108, 41]"

fun arg_int :: "arg list \<Rightarrow> (u64 \<times> arg list) option" where
  "arg_int (ArgInt v # as) = Some (v, as)"
| "arg_int as = None"

fun arg_str :: "arg list \<Rightarrow> (bytes \<times> arg list) option" where
  "arg_str (ArgStr None # as) = Some (null_text, as)"
| "arg_str (ArgStr (Some s) # as) = Some (s, as)"
| "arg_str as = None"

definition low_int :: "u64 \<Rightarrow> u64" where
  "low_int v = scast (ucast v :: u32)"

definition low_uint :: "u64 \<Rightarrow> u64" where
  "low_uint v = ucast (ucast v :: u32)"

text \<open>One conversion of \<^verbatim>\<open>cprintf\<close>: the characters and the remaining arguments.\<close>

definition kconversion :: "u8 \<Rightarrow> bool \<Rightarrow> arg list \<Rightarrow> (bytes \<times> arg list) option" where
  "kconversion c lng as =
     (if c = 99 then do { (v, as) \<leftarrow> arg_int as; Some ([ucast v], as) }
      else if c = 100 then do {
        (v, as) \<leftarrow> arg_int as;
        out \<leftarrow> kprintint (if lng then v else low_int v) 10 True;
        Some (out, as) }
      else if c = 117 then do {
        (v, as) \<leftarrow> arg_int as;
        out \<leftarrow> kprintint (if lng then v else low_uint v) 10 False;
        Some (out, as) }
      else if c = 120 \<or> c = 112 then do {
        (v, as) \<leftarrow> arg_int as;
        out \<leftarrow> kprintint v 16 False;
        Some (out, as) }
      else if c = 115 then arg_str as
      else if c = 37 then Some ([37], as)
      else Some ([37, c], as))"

function cprintf :: "bytes \<Rightarrow> arg list \<Rightarrow> bytes option" where
  "cprintf fmt as = (case fmt of [] \<Rightarrow> Some []
     | c # fmt \<Rightarrow>
       if c \<noteq> 37 then do { out \<leftarrow> cprintf fmt as; Some (c # out) }
       else (let (lng, fmt) = (if fmt \<noteq> [] \<and> hd fmt = 108 then (True, tl fmt) else (False, fmt)) in
         case fmt of [] \<Rightarrow> Some []
         | c # fmt \<Rightarrow> do {
             (out, as) \<leftarrow> kconversion c lng as;
             rest \<leftarrow> cprintf fmt as;
             Some (out @ rest) }))"
  by pat_completeness auto
termination
  by (relation "measure (length \<circ> fst)") (auto split: if_splits simp: less_Suc_eq_le le_SucI dest: arg_cong [where f = length])

section \<open>The buffer\<close>

text \<open>\<open>pb_writes\<close> are the \<^verbatim>\<open>write\<close> calls made so far.\<close>

record print_buf =
  pb_buf :: bytes
  pb_pos :: nat
  pb_cnt :: nat
  pb_writes :: "bytes list"

abbreviation PRINTF_BUF_SIZE :: nat where "PRINTF_BUF_SIZE \<equiv> 512"

definition pbuf_flush :: "print_buf \<Rightarrow> print_buf" where
  "pbuf_flush pb = (if pb_pos pb > 0
     then pb\<lparr>pb_writes := pb_writes pb @ [take (pb_pos pb) (pb_buf pb)], pb_pos := 0\<rparr> else pb)"

definition printchar :: "u8 \<Rightarrow> print_buf \<Rightarrow> print_buf" where
  "printchar c pb =
     (let pb = pb\<lparr>pb_buf := (pb_buf pb)[pb_pos pb := c], pb_pos := pb_pos pb + 1, pb_cnt := pb_cnt pb + 1\<rparr>
      in if pb_pos pb \<ge> PRINTF_BUF_SIZE then pbuf_flush pb else pb)"

definition printchars :: "bytes \<Rightarrow> print_buf \<Rightarrow> print_buf" where
  "printchars cs pb = fold printchar cs pb"

text \<open>\<^verbatim>\<open>printint\<close> and \<^verbatim>\<open>printint_width\<close> use \<^verbatim>\<open>char buf[32]\<close>.\<close>

definition printint :: "u64 \<Rightarrow> nat \<Rightarrow> bool \<Rightarrow> print_buf \<Rightarrow> print_buf option" where
  "printint xx base sign pb = (let buf = int_chars xx base sign in
     if length buf \<le> 32 then Some (printchars (rev buf) pb) else None)"

definition padding :: "int \<Rightarrow> nat \<Rightarrow> u8 \<Rightarrow> bytes" where
  "padding width len c = replicate (nat (width - int len)) c"

definition printint_width :: "u64 \<Rightarrow> nat \<Rightarrow> bool \<Rightarrow> int \<Rightarrow> bool \<Rightarrow> u8 \<Rightarrow> print_buf \<Rightarrow> print_buf option" where
  "printint_width v base sign width left_justify pad_char pb = (let buf = int_chars v base sign in
     if length buf \<le> 32 then
       Some (printchars ((if left_justify then [] else padding width (length buf) pad_char) @ rev buf @
         (if left_justify then padding width (length buf) 32 else [])) pb)
     else None)"

definition printstr_width :: "bytes \<Rightarrow> int \<Rightarrow> bool \<Rightarrow> print_buf \<Rightarrow> print_buf" where
  "printstr_width s width left_justify pb =
     printchars ((if left_justify then [] else padding width (length s) 32) @ s @
       (if left_justify then padding width (length s) 32 else [])) pb"

section \<open>Format strings\<close>

text \<open>The parts of a conversion specification in the order the code reads them: the flag, the
  width and the length modifier.  Each function returns what follows its part; the width
  accumulates in an \<^verbatim>\<open>int\<close>.\<close>

definition is_digit :: "u8 \<Rightarrow> bool" where
  "is_digit c \<longleftrightarrow> 48 \<le> c \<and> c \<le> 57"

definition spec_width :: "bytes \<Rightarrow> bool \<Rightarrow> arg list \<Rightarrow> (int \<times> bool \<times> bytes \<times> arg list) option" where
  "spec_width fmt left_justify as =
     (if fmt \<noteq> [] \<and> hd fmt = 42 then do {
        (v, as) \<leftarrow> arg_int as;
        let w = sint (ucast v :: u32);
        Some (if w < 0 then sint (- ucast v :: u32) else w, left_justify \<or> w < 0, tl fmt, as) }
      else Some (sint (foldl (\<lambda>w c. w * 10 + (ucast c - 48)) (0 :: u32) (takeWhile is_digit fmt)),
        left_justify, dropWhile is_digit fmt, as))"

definition spec_length :: "bytes \<Rightarrow> bool \<times> bytes" where
  "spec_length fmt =
     (if fmt \<noteq> [] \<and> hd fmt = 108
      then (True, if tl fmt \<noteq> [] \<and> hd (tl fmt) = 108 then tl (tl fmt) else tl fmt)
      else (False, fmt))"

definition print_number :: "u64 \<Rightarrow> nat \<Rightarrow> bool \<Rightarrow> int \<Rightarrow> bool \<Rightarrow> print_buf \<Rightarrow> print_buf option" where
  "print_number v base sign width left_justify pb =
     (if width > 0 then printint_width v base sign width left_justify 32 pb else printint v base sign pb)"

definition conversion :: "u8 \<Rightarrow> bool \<Rightarrow> int \<Rightarrow> bool \<Rightarrow> arg list \<Rightarrow> print_buf \<Rightarrow> (print_buf \<times> arg list) option" where
  "conversion c is_long width left_justify as pb =
     (if c = 100 \<or> c = 105 then do {
        (v, as) \<leftarrow> arg_int as;
        pb \<leftarrow> print_number (if is_long then v else low_int v) 10 True width left_justify pb;
        Some (pb, as) }
      else if c = 117 then do {
        (v, as) \<leftarrow> arg_int as;
        pb \<leftarrow> print_number (if is_long then v else low_uint v) 10 False width left_justify pb;
        Some (pb, as) }
      else if c = 120 \<or> c = 112 then do {
        (v, as) \<leftarrow> arg_int as;
        pb \<leftarrow> print_number (if is_long then v else low_uint v) 16 False width left_justify pb;
        Some (pb, as) }
      else if c = 115 then do {
        (s, as) \<leftarrow> arg_str as;
        Some (if width > 0 then printstr_width s width left_justify pb else printchars s pb, as) }
      else if c = 99 then do { (v, as) \<leftarrow> arg_int as; Some (printchar (ucast v) pb, as) }
      else if c = 37 then Some (printchar 37 pb, as)
      else Some (printchars ([37] @ (if left_justify then [45] else []) @ [c]) pb, as))"

text \<open>A whole specification: the conversion character with its modifiers, or nothing when the
  format ends inside it.\<close>

definition read_spec :: "bytes \<Rightarrow> arg list \<Rightarrow> ((u8 \<times> bool \<times> int \<times> bool) option \<times> bytes \<times> arg list) option" where
  "read_spec fmt as =
     (if fmt = [] then Some (None, [], as)
      else do {
        (width, left_justify, fmt, as) \<leftarrow> spec_width (dropWhile (\<lambda>c. c = 45) fmt) (hd fmt = 45) as;
        let (is_long, fmt) = spec_length fmt;
        Some (case fmt of [] \<Rightarrow> (None, [], as) | c # fmt \<Rightarrow> (Some (c, is_long, width, left_justify), fmt, as)) })"

lemma spec_width_shorter: "spec_width fmt l as = Some (w, l', fmt', as') \<Longrightarrow> length fmt' \<le> length fmt"
  by (auto simp: spec_width_def length_dropWhile_le Let_def split: if_splits bind_splits)

lemma spec_length_shorter: "length (snd (spec_length fmt)) \<le> length fmt"
  by (auto simp: spec_length_def)

lemma read_spec_shorter: "read_spec fmt as = Some (c, fmt', as') \<Longrightarrow> length fmt' \<le> length fmt"
proof -
  assume r: "read_spec fmt as = Some (c, fmt', as')"
  show ?thesis
  proof (cases "fmt = []")
    case False
    then obtain w l f a where s: "spec_width (dropWhile (\<lambda>c. c = 45) fmt) (hd fmt = 45) as = Some (w, l, f, a)"
      using r by (auto simp: read_spec_def split: bind_splits)
    have "length f \<le> length fmt" using spec_width_shorter [OF s] length_dropWhile_le le_trans by blast
    moreover have "length fmt' \<le> length (snd (spec_length f))"
      using r s False by (auto simp: read_spec_def case_prod_beta Let_def split: list.splits)
    ultimately show ?thesis using spec_length_shorter [of f] by linarith
  qed (use r in \<open>simp add: read_spec_def\<close>)
qed

function do_printf :: "bytes \<Rightarrow> arg list \<Rightarrow> print_buf \<Rightarrow> print_buf option" where
  "do_printf fmt as pb = (case fmt of [] \<Rightarrow> Some pb
     | c # fmt \<Rightarrow>
       if c \<noteq> 37 then do_printf fmt as (printchar c pb)
       else (case read_spec fmt as of None \<Rightarrow> None
         | Some (None, fmt, as) \<Rightarrow> Some pb
         | Some (Some (c, is_long, width, left_justify), fmt, as) \<Rightarrow>
             (case conversion c is_long width left_justify as pb of None \<Rightarrow> None
              | Some (pb, as) \<Rightarrow> do_printf fmt as pb)))"
  by pat_completeness auto
termination
  by (relation "measure (length \<circ> fst)") (auto simp: less_Suc_eq_le dest!: read_spec_shorter)

declare do_printf.simps [simp del]

definition printf :: "bytes \<Rightarrow> arg list \<Rightarrow> (nat \<times> bytes list) option" where
  "printf fmt as = do {
     pb \<leftarrow> do_printf fmt as \<lparr>pb_buf = replicate PRINTF_BUF_SIZE 0, pb_pos = 0, pb_cnt = 0, pb_writes = []\<rparr>;
     let pb = pbuf_flush pb;
     Some (pb_cnt pb, pb_writes pb) }"

section \<open>What is printed\<close>

definition digit_val :: "u8 \<Rightarrow> nat" where
  "digit_val c = (if unat c < 58 then unat c - 48 else unat c - 87)"

text \<open>Reading a number: the most significant digit comes first.\<close>

definition read_digits :: "nat \<Rightarrow> bytes \<Rightarrow> nat" where
  "read_digits base cs = foldl (\<lambda>a c. a * base + digit_val c) 0 cs"

lemma digit_val_char: "d < 16 \<Longrightarrow> digit_val (digit_char d) = d"
  by (auto simp: digit_val_def digit_char_def unat_of_nat simp del: of_nat_add)

lemma read_digits_snoc: "read_digits base (cs @ [c]) = read_digits base cs * base + digit_val c"
  by (simp add: read_digits_def)

lemma digits_value:
  assumes "2 \<le> base" and "base \<le> 16"
  shows "read_digits base (rev (digits base x)) = x"
proof (induction x rule: less_induct)
  case (less x)
  have d: "digit_val (digit_char (x mod base)) = x mod base"
    using assms by (intro digit_val_char) (meson less_le_trans mod_less_divisor not_less zero_less_numeral order.trans not_gr_zero)
  show ?case
  proof (cases "x div base = 0")
    case True
    then show ?thesis using d assms(1) by (simp add: digits.simps [of base x] read_digits_def div_eq_0_iff)
  next
    case False
    then have "x div base < x" using assms(1) by (intro div_less_dividend) (auto intro: gr_zeroI)
    then show ?thesis using less.IH [of "x div base"] False assms(1) d
      by (simp add: digits.simps [of base x] read_digits_snoc)
  qed
qed

lemma length_digits:
  assumes "2 \<le> base"
  shows "length (digits base x) \<le> n \<longleftrightarrow> 0 < n \<and> x < base ^ n"
proof (induction n arbitrary: x)
  case 0
  then show ?case by (simp add: digits.simps [of base x])
next
  case (Suc n)
  show ?case
  proof (cases "x div base = 0")
    case True
    then have "x < base" using assms by (simp add: div_eq_0_iff)
    moreover have "base \<le> base ^ Suc n" using assms by simp
    ultimately have "x < base ^ Suc n" by (rule less_le_trans)
    then show ?thesis using True by (simp add: digits.simps [of base x])
  next
    case False
    have "x div base < base ^ n \<longleftrightarrow> x < base ^ Suc n"
      using assms by (simp add: div_less_iff_less_mult mult.commute)
    moreover have "0 < n" if "x < base ^ Suc n" using that False assms by (cases n) auto
    ultimately show ?thesis using Suc.IH [of "x div base"] False assms by (auto simp: digits.simps [of base x])
  qed
qed

lemma hd_rev_digits: "2 \<le> base \<Longrightarrow> base \<le> 16 \<Longrightarrow> 0 < x \<Longrightarrow> last (digits base x) \<noteq> 48"
proof (induction x rule: less_induct)
  case (less x)
  show ?case
  proof (cases "x div base = 0")
    case True
    then have "x < 16" "x mod base = x" using less.prems by (auto simp: div_eq_0_iff)
    then have "digit_val (digit_char x) = x" "0 < x" using less.prems by (simp_all add: digit_val_char)
    then have "digit_char x \<noteq> 48" by (auto simp: digit_val_def)
    then show ?thesis using True \<open>x mod base = x\<close> by (simp add: digits.simps [of base x])
  next
    case False
    then have "x div base < x" using less.prems by (intro div_less_dividend) auto
    then show ?thesis using less.IH [of "x div base"] False less.prems
      by (simp add: digits.simps [of base x] digits.simps [of base "x div base"])
  qed
qed

lemma unat_neg_u64: "sint (x :: u64) < 0 \<Longrightarrow> int (unat (- x)) = - sint x"
proof -
  assume n: "sint x < 0"
  have low: "- (2 ^ 63) \<le> sint x" using sint_greater_eq [of x] by simp
  have "- x = word_of_int (- sint x)" by simp
  then have "uint (- x) = - sint x mod 2 ^ 64" by (simp only: uint_word_of_int) simp
  also have "\<dots> = - sint x" using n low by (intro mod_pos_pos_trivial) simp_all
  finally show ?thesis by simp
qed

lemma unat_nonneg_u64: "\<not> sint (x :: u64) < 0 \<Longrightarrow> int (unat x) = sint x"
proof -
  assume n: "\<not> sint x < 0"
  have high: "sint x < 2 ^ 63" using sint_less [of x] by simp
  have "uint (word_of_int (sint x) :: u64) = sint x mod 2 ^ 64" by (simp only: uint_word_of_int) simp
  then have "uint x = sint x mod 2 ^ 64" by simp
  also have "\<dots> = sint x" using n high by (intro mod_pos_pos_trivial) simp_all
  finally show ?thesis by simp
qed

section \<open>Buffering\<close>

text \<open>The reference: what the format means, as one text, and the text cut into pieces.\<close>

definition number_text :: "u64 \<Rightarrow> nat \<Rightarrow> bool \<Rightarrow> int \<Rightarrow> bool \<Rightarrow> bytes" where
  "number_text v base sign width left_justify =
     (let n = rev (int_chars v base sign); p = (if width > 0 then padding width (length n) 32 else [])
      in if left_justify then n @ p else p @ n)"

definition conv_text :: "u8 \<Rightarrow> bool \<Rightarrow> int \<Rightarrow> bool \<Rightarrow> arg list \<Rightarrow> (bytes \<times> arg list) option" where
  "conv_text c is_long width left_justify as =
     (if c \<in> {100, 105} then map_option (map_prod (\<lambda>v. number_text (if is_long then v else low_int v) 10 True width left_justify) id) (arg_int as)
      else if c = 117 then map_option (map_prod (\<lambda>v. number_text (if is_long then v else low_uint v) 10 False width left_justify) id) (arg_int as)
      else if c \<in> {120, 112} then map_option (map_prod (\<lambda>v. number_text (if is_long then v else low_uint v) 16 False width left_justify) id) (arg_int as)
      else if c = 115 then map_option (map_prod (\<lambda>s. if left_justify then s @ padding width (length s) 32 else padding width (length s) 32 @ s) id) (arg_str as)
      else if c = 99 then map_option (map_prod (\<lambda>v. [ucast v]) id) (arg_int as)
      else if c = 37 then Some ([37], as)
      else Some ([37] @ (if left_justify then [45] else []) @ [c], as))"

function format_text :: "bytes \<Rightarrow> arg list \<Rightarrow> bytes option" where
  "format_text fmt as = (case fmt of [] \<Rightarrow> Some []
     | c # fmt \<Rightarrow>
       if c \<noteq> 37 then map_option (\<lambda>r. c # r) (format_text fmt as)
       else (case read_spec fmt as of None \<Rightarrow> None
         | Some (None, fmt, as) \<Rightarrow> Some []
         | Some (Some (c, is_long, width, left_justify), fmt, as) \<Rightarrow>
             (case conv_text c is_long width left_justify as of None \<Rightarrow> None
              | Some (text, as) \<Rightarrow> map_option (\<lambda>r. text @ r) (format_text fmt as))))"
  by pat_completeness auto
termination
  by (relation "measure (length \<circ> fst)") (auto simp: less_Suc_eq_le dest!: read_spec_shorter)

declare format_text.simps [simp del]

function pieces :: "bytes \<Rightarrow> bytes list" where
  "pieces xs = (if xs = [] then [] else take PRINTF_BUF_SIZE xs # pieces (drop PRINTF_BUF_SIZE xs))"
  by pat_completeness auto
termination by (relation "measure length") auto

declare pieces.simps [simp del]

lemma pieces_concat:
  "(\<forall>w \<in> set ws. length w = PRINTF_BUF_SIZE) \<Longrightarrow> length r < PRINTF_BUF_SIZE \<Longrightarrow>
     pieces (concat ws @ r) = ws @ (if r = [] then [] else [r])"
proof (induction ws)
  case Nil
  then show ?case by (simp add: pieces.simps)
next
  case (Cons w ws)
  then have "w \<noteq> []" by auto
  then show ?case using Cons by (simp add: pieces.simps [of "w @ concat ws @ r"])
qed

text \<open>The buffer after printing \<open>tx\<close>.\<close>

definition pb_holds :: "bytes \<Rightarrow> print_buf \<Rightarrow> bool" where
  "pb_holds tx pb \<longleftrightarrow> length (pb_buf pb) = PRINTF_BUF_SIZE \<and> pb_pos pb < PRINTF_BUF_SIZE \<and> pb_cnt pb = length tx \<and>
     (\<forall>w \<in> set (pb_writes pb). length w = PRINTF_BUF_SIZE) \<and> tx = concat (pb_writes pb) @ take (pb_pos pb) (pb_buf pb)"

lemma printchar_holds:
  assumes "pb_holds tx pb"
  shows "pb_holds (tx @ [c]) (printchar c pb)"
proof -
  have "take (Suc (pb_pos pb)) ((pb_buf pb)[pb_pos pb := c]) = take (pb_pos pb) (pb_buf pb) @ [c]"
    using assms by (simp add: pb_holds_def take_Suc_conv_app_nth)
  then show ?thesis using assms by (auto simp: pb_holds_def printchar_def pbuf_flush_def Let_def)
qed

lemma printchars_holds: "pb_holds tx pb \<Longrightarrow> pb_holds (tx @ cs) (printchars cs pb)"
proof (induction cs arbitrary: tx pb)
  case (Cons c cs)
  then show ?case using Cons.IH [OF printchar_holds [OF Cons.prems, of c]] by (simp add: printchars_def)
qed (simp add: printchars_def)

lemma length_int_chars: "length (int_chars v base sign) \<le> 32" if "base = 10 \<or> base = 16"
proof -
  let ?x = "unat (if is_neg sign v then - v else v)"
  have "?x < 10 ^ 31" using unat_lt(4) [of v] unat_lt(4) [of "- v"] by simp
  then have "?x < base ^ 31" using that by (auto intro: less_le_trans)
  then have "length (digits base ?x) \<le> 31" using that by (auto simp: length_digits)
  then show ?thesis by (cases "is_neg sign v") (simp_all add: int_chars_def)
qed

lemma print_number_text:
  "base = 10 \<or> base = 16 \<Longrightarrow>
     print_number v base sign width l pb = Some (printchars (number_text v base sign width l) pb)"
  using length_int_chars [of base v sign]
  by (auto simp: print_number_def printint_def printint_width_def number_text_def Let_def)

lemma conversion_text:
  "conversion c il width l as pb = map_option (map_prod (\<lambda>t. printchars t pb) id) (conv_text c il width l as)"
  by (auto simp: conversion_def conv_text_def print_number_text printchars_def printstr_width_def padding_def
      split: option.splits bind_splits)

lemmas format_Cons = format_text.simps [of "c # fmt" for c fmt] and printf_Cons = do_printf.simps [of "c # fmt" for c fmt]

lemma do_printf_text:
  "pb_holds tx pb \<Longrightarrow>
     (case format_text fmt args of None \<Rightarrow> do_printf fmt args pb = None
      | Some r \<Rightarrow> \<exists>pb'. do_printf fmt args pb = Some pb' \<and> pb_holds (tx @ r) pb')"
proof (induction fmt args pb arbitrary: tx rule: do_printf.induct)
  case (1 fmt args pb)
  show ?case
  proof (cases fmt)
    case Nil
    then show ?thesis using 1(3) by (simp add: format_text.simps do_printf.simps)
  next
    case (Cons c fmt1)
    show ?thesis
    proof (cases "c = 37")
      case False
      then show ?thesis
        using 1(1) [OF Cons False printchar_holds [OF 1(3)]] Cons
        by (auto simp: format_Cons printf_Cons split: option.splits)
    next
      case True
      note spec = 1(2) [OF Cons]
      show ?thesis
      proof (cases "read_spec fmt1 args")
        case None
        then show ?thesis using Cons True by (simp add: format_Cons printf_Cons)
      next
        case (Some p)
        obtain sp fmt2 as2 where p: "p = (sp, fmt2, as2)" by (cases p) auto
        show ?thesis
        proof (cases sp)
          case None
          then show ?thesis using Cons True Some p 1(3) by (simp add: format_Cons printf_Cons)
        next
          case (Some q)
          obtain d il w l where q: "q = (d, il, w, l)" by (cases q) auto
          note * = Cons True \<open>read_spec fmt1 args = Some p\<close> p Some q
          show ?thesis
          proof (cases "conv_text d il w l as2")
            case None
            then show ?thesis using * by (simp add: format_Cons printf_Cons conversion_text)
          next
            case (Some r)
            obtain t as3 where r: "r = (t, as3)" by (cases r) auto
            have c: "conversion d il w l as2 pb = Some (printchars t pb, as3)" using Some r by (simp add: conversion_text)
            have "case format_text fmt2 as3 of None \<Rightarrow> do_printf fmt2 as3 (printchars t pb) = None
              | Some r \<Rightarrow> \<exists>pb'. do_printf fmt2 as3 (printchars t pb) = Some pb' \<and> pb_holds ((tx @ t) @ r) pb'"
              by (rule spec) (use * c printchars_holds [OF 1(3), of t] in auto)
            then show ?thesis using * Some r c
              by (auto simp: format_Cons printf_Cons split: option.splits)
          qed
        qed
      qed
    qed
  qed
qed

lemma printf_pieces:
  "printf fmt args = map_option (\<lambda>r. (length r, pieces r)) (format_text fmt args)"
proof -
  let ?pb = "\<lparr>pb_buf = replicate PRINTF_BUF_SIZE 0, pb_pos = 0, pb_cnt = 0, pb_writes = []\<rparr> :: print_buf"
  have "pb_holds [] ?pb" by (simp add: pb_holds_def)
  note run = do_printf_text [OF this, of fmt args]
  show ?thesis
  proof (cases "format_text fmt args")
    case None
    then show ?thesis using run by (simp add: printf_def)
  next
    case (Some r)
    then obtain pb where pb: "do_printf fmt args ?pb = Some pb" "pb_holds r pb" using run by auto
    let ?rest = "take (pb_pos pb) (pb_buf pb)"
    have "pieces r = pb_writes pb @ (if ?rest = [] then [] else [?rest])"
      using pieces_concat [of "pb_writes pb" ?rest] pb(2) by (auto simp: pb_holds_def)
    moreover have "?rest = [] \<longleftrightarrow> pb_pos pb = 0" using pb(2) by (auto simp: pb_holds_def)
    ultimately show ?thesis using Some pb by (auto simp: printf_def pbuf_flush_def pb_holds_def)
  qed
qed

section \<open>Properties\<close>


text \<open>A printed number reads back: for every 64-bit value \<^verbatim>\<open>printf("%ld", v)\<close> writes, in one
  call, a minus sign if the value is negative and then its decimal numeral, without
  leading zeros.\<close>

theorem printf_number_reads_back:
  "\<exists>ds. printf [37, 108, 100] [ArgInt v] =
      Some (length ds + (if sint v < 0 then 1 else 0), [(if sint v < 0 then [45] else []) @ ds]) \<and>
    int (read_digits 10 ds) = \<bar>sint v\<bar> \<and> ds \<noteq> [] \<and> (hd ds = 48 \<longleftrightarrow> v = 0)"
proof -
  let ?x = "unat (if is_neg True v then - v else v)"
  let ?ds = "rev (digits 10 ?x)"
  have ne: "?ds \<noteq> []" by (simp add: digits.simps)
  have len: "length (int_chars v 10 True) \<le> 32" using length_int_chars [of 10 v True] by simp
  have f: "format_text [37, 108, 100] [ArgInt v] = Some ((if sint v < 0 then [45] else []) @ ?ds)"
    by (simp add: format_text.simps read_spec_def spec_width_def spec_length_def is_digit_def conv_text_def number_text_def
        int_chars_def is_neg_def Let_def)
  have "pieces ((if sint v < 0 then [45] else []) @ ?ds) = [(if sint v < 0 then [45] else []) @ ?ds]"
    using pieces_concat [of "[]" "(if sint v < 0 then [45] else []) @ ?ds"] ne len by (auto simp: int_chars_def is_neg_def)
  moreover have "int (read_digits 10 ?ds) = \<bar>sint v\<bar>"
  proof (cases "sint v < 0")
    case True
    then show ?thesis using digits_value [of 10 ?x] unat_neg_u64 [OF True] by (simp add: is_neg_def)
  next
    case False
    then have "int (unat v) = sint v" by (rule unat_nonneg_u64)
    then show ?thesis using digits_value [of 10 ?x] False by (simp add: is_neg_def)
  qed
  moreover have "v = 0" if "hd ?ds = 48"
  proof (rule ccontr)
    assume "v \<noteq> 0"
    then have "0 < ?x" by (simp add: unat_gt_0)
    then show False using hd_rev_digits [of 10 ?x] that ne by (simp add: hd_rev)
  qed
  moreover have "hd (rev (digits 10 0)) = 48" by (simp add: digits.simps digit_char_def)
  then have "hd ?ds = 48" if "v = 0" using that by (simp add: is_neg_def)
  ultimately show ?thesis using f ne by (intro exI [of _ ?ds]) (auto simp: printf_pieces)
qed

text \<open>C33. The kernel's \<^verbatim>\<open>printint\<close> overflows its buffer of 16 characters exactly on decimal
  numbers of more than 16 characters: from \<open>10 ^ 16\<close> on, and on negative numbers from
  \<open>- 10 ^ 15\<close> down; hexadecimal numbers always fit.\<close>

theorem kprintint_overflow:
  "(kprintint xx 10 True = None \<longleftrightarrow> 10 ^ 16 \<le> sint xx \<or> sint xx \<le> - (10 ^ 15)) \<and>
   (kprintint xx 10 False = None \<longleftrightarrow> 10 ^ 16 \<le> unat xx) \<and> kprintint xx 16 False \<noteq> None"
proof -
  have d: "length (digits 10 x) \<le> n \<longleftrightarrow> 0 < n \<and> x < 10 ^ n" for x n by (rule length_digits) simp
  have "kprintint xx 10 True = None \<longleftrightarrow> 10 ^ 16 \<le> sint xx \<or> sint xx \<le> - (10 ^ 15)"
  proof (cases "sint xx < 0")
    case True
    have "kprintint xx 10 True = None \<longleftrightarrow> \<not> length (digits 10 (unat (- xx))) \<le> 15"
      using True by (simp add: kprintint_def int_chars_def is_neg_def Let_def not_le less_Suc_eq_le Suc_le_eq)
    also have "\<dots> \<longleftrightarrow> 10 ^ 15 \<le> unat (- xx)" unfolding d by auto
    also have "\<dots> \<longleftrightarrow> sint xx \<le> - (10 ^ 15)" using unat_neg_u64 [OF True] of_nat_le_iff [of "10 ^ 15" "unat (- xx)", where 'a = int] by auto
    finally show ?thesis using True by auto
  next
    case False
    then have "kprintint xx 10 True = None \<longleftrightarrow> \<not> length (digits 10 (unat xx)) \<le> 16"
      by (simp add: kprintint_def int_chars_def is_neg_def Let_def)
    also have "\<dots> \<longleftrightarrow> 10 ^ 16 \<le> unat xx" unfolding d by auto
    also have "\<dots> \<longleftrightarrow> 10 ^ 16 \<le> sint xx" using unat_nonneg_u64 [OF False] of_nat_le_iff [of "10 ^ 16" "unat xx", where 'a = int] by auto
    finally show ?thesis using False by auto
  qed
  moreover have "kprintint xx 10 False = None \<longleftrightarrow> 10 ^ 16 \<le> unat xx"
    using d [of "unat xx" 16] by (auto simp: kprintint_def int_chars_def is_neg_def Let_def)
  moreover have "length (digits 16 (unat xx)) \<le> 16" using unat_lt(4) [of xx] by (simp add: length_digits)
  then have "kprintint xx 16 False \<noteq> None" by (simp add: kprintint_def int_chars_def is_neg_def Let_def)
  ultimately show ?thesis by blast
qed

end
