(* ===== verification/Vm.thy ===== *)
theory Vm
  imports Kalloc
begin

text \<open>
  \<^verbatim>\<open>kern/vm.c\<close>: four-level page tables, the kernel map, and the memory of a process.
  Pages come from the allocator of \<^verbatim>\<open>kern/kalloc.c\<close> and are named by their address in
  the direct map.  A page in use is either a table (its 512 entries) or user memory (its
  4096 bytes); the state keeps the two views apart.  Loading the segment registers, the
  task state and \<^verbatim>\<open>cr3\<close> (\<^verbatim>\<open>seginit\<close>, \<^verbatim>\<open>switchkvm\<close>, \<^verbatim>\<open>switchuvm\<close>) has no counterpart.
\<close>

section \<open>State\<close>

record vm_state =
  vm_k :: kstate
  vm_pte :: "u64 \<Rightarrow> nat \<Rightarrow> u64"
  vm_data :: "u64 \<Rightarrow> bytes"
  have_1g :: bool
  kpgdir :: u64
  iomap_next :: u64

abbreviation PTE_P :: u64 where "PTE_P \<equiv> 1"
abbreviation PTE_W :: u64 where "PTE_W \<equiv> 2"
abbreviation PTE_U :: u64 where "PTE_U \<equiv> 4"
abbreviation PTE_PWT :: u64 where "PTE_PWT \<equiv> 8"
abbreviation PTE_PCD :: u64 where "PTE_PCD \<equiv> 16"
abbreviation PTE_PS :: u64 where "PTE_PS \<equiv> 128"
abbreviation SIZE_1G :: u64 where "SIZE_1G \<equiv> 0x40000000"
abbreviation EXTMEM :: u64 where "EXTMEM \<equiv> 0x100000"
abbreviation IOMAP_BASE :: u64 where "IOMAP_BASE \<equiv> 0xffffc00000000000"
abbreviation IOMAP_SIZE :: u64 where "IOMAP_SIZE \<equiv> 0x4000000000"

definition pte_addr :: "u64 \<Rightarrow> u64" where
  "pte_addr e = push_bit 12 (drop_bit 12 e AND 0xffffffffffff)"

definition pte_flags :: "u64 \<Rightarrow> u64" where
  "pte_flags e = e AND 0xfff"

definition present :: "u64 \<Rightarrow> bool" where
  "present e \<longleftrightarrow> e AND PTE_P \<noteq> 0"

definition large :: "u64 \<Rightarrow> bool" where
  "large e \<longleftrightarrow> e AND PTE_PS \<noteq> 0"

text \<open>The index of a virtual address in the table of a level, 4 being the root.\<close>

definition ptx :: "u64 \<Rightarrow> nat \<Rightarrow> nat" where
  "ptx va level = unat (drop_bit (3 + 9 * level) va AND 511)"

definition set_pte :: "u64 \<times> nat \<Rightarrow> u64 \<Rightarrow> 'a vm_state_scheme \<Rightarrow> 'a vm_state_scheme" where
  "set_pte r e s = s\<lparr>vm_pte := (vm_pte s)(fst r := (vm_pte s (fst r))(snd r := e))\<rparr>"

definition zero_table :: "u64 \<Rightarrow> 'a vm_state_scheme \<Rightarrow> 'a vm_state_scheme" where
  "zero_table t s = s\<lparr>vm_pte := (vm_pte s)(t := (\<lambda>i. 0))\<rparr>"

definition set_page :: "u64 \<Rightarrow> bytes \<Rightarrow> 'a vm_state_scheme \<Rightarrow> 'a vm_state_scheme" where
  "set_page p d s = s\<lparr>vm_data := (vm_data s)(p := d)\<rparr>"

definition zero_page :: bytes where
  "zero_page = replicate 4096 0"

definition vm_kalloc :: "'a vm_state_scheme \<Rightarrow> (u64 \<times> 'a vm_state_scheme) option" where
  "vm_kalloc s = do { (p, k) \<leftarrow> kalloc (vm_k s); Some (p, s\<lparr>vm_k := k\<rparr>) }"

definition vm_kfree :: "u64 \<Rightarrow> 'a vm_state_scheme \<Rightarrow> 'a vm_state_scheme option" where
  "vm_kfree p s = do { k \<leftarrow> kfree p (vm_k s); Some (s\<lparr>vm_k := k\<rparr>) }"

section \<open>Walking and mapping\<close>

fun do_walk :: "nat \<Rightarrow> nat \<Rightarrow> bool \<Rightarrow> u64 \<Rightarrow> u64 \<Rightarrow> 'a vm_state_scheme \<Rightarrow> ((u64 \<times> nat) option \<times> 'a vm_state_scheme) option" where
  "do_walk 0 stop alloc table va s = None"
| "do_walk (Suc l) stop alloc table va s =
     (let i = ptx va (Suc l); e = vm_pte s table i in
      if Suc l = stop then Some (Some (table, i), s)
      else if present e then (if large e then Some (None, s) else do_walk l stop alloc (P2V (pte_addr e)) va s)
      else if \<not> alloc then Some (None, s)
      else do {
        (n, s) \<leftarrow> vm_kalloc s;
        if n = 0 then Some (None, s)
        else do_walk l stop alloc n va (set_pte (table, i) (V2P n OR PTE_P OR PTE_W OR PTE_U) (zero_table n s)) })"

definition walkpgdir :: "u64 \<Rightarrow> u64 \<Rightarrow> bool \<Rightarrow> 'a vm_state_scheme \<Rightarrow> ((u64 \<times> nat) option \<times> 'a vm_state_scheme) option" where
  "walkpgdir pgdir va alloc s = do_walk 4 1 alloc pgdir va s"

text \<open>The entry a reference names.\<close>

definition pte_at :: "'a vm_state_scheme \<Rightarrow> u64 \<times> nat \<Rightarrow> u64" where
  "pte_at s r = vm_pte s (fst r) (snd r)"

partial_function (option) map_loop :: "u64 \<Rightarrow> u64 \<Rightarrow> u64 \<Rightarrow> u64 \<Rightarrow> u64 \<Rightarrow> 'a vm_state_scheme \<Rightarrow> (bool \<times> 'a vm_state_scheme) option" where
  "map_loop pgdir a la pa perm s = do {
     (r, s) \<leftarrow> walkpgdir pgdir a True s;
     (case r of None \<Rightarrow> Some (False, s)
      | Some r \<Rightarrow>
        if present (pte_at s r) then None
        else do {
          let s = set_pte r (pa OR perm OR PTE_P) s;
          if a = la then Some (True, s) else map_loop pgdir (a + PGSIZE) la (pa + PGSIZE) perm s }) }"

text \<open>\<^verbatim>\<open>mappages\<close>: the flag is whether it returned 0; mapping a page twice panics.\<close>

definition mappages :: "u64 \<Rightarrow> u64 \<Rightarrow> u32 \<Rightarrow> u64 \<Rightarrow> u64 \<Rightarrow> 'a vm_state_scheme \<Rightarrow> (bool \<times> 'a vm_state_scheme) option" where
  "mappages pgdir va sz pa perm s =
     map_loop pgdir (pgrounddown va) (pgrounddown (va + ucast sz - 1)) pa perm s"

partial_function (option) map_range_loop :: "u64 \<Rightarrow> u64 \<Rightarrow> u64 \<Rightarrow> u64 \<Rightarrow> u64 \<Rightarrow> 'a vm_state_scheme \<Rightarrow> (bool \<times> 'a vm_state_scheme) option" where
  "map_range_loop pgdir va pa sz perm s =
     (if sz = 0 then Some (True, s)
      else if have_1g s \<and> (va OR pa) AND (SIZE_1G - 1) = 0 \<and> sz \<ge> SIZE_1G then do {
        (r, s) \<leftarrow> do_walk 4 3 True pgdir va s;
        (case r of None \<Rightarrow> Some (False, s)
         | Some r \<Rightarrow> map_range_loop pgdir (va + SIZE_1G) (pa + SIZE_1G) (sz - SIZE_1G) perm
             (set_pte r (pa OR perm OR PTE_P OR PTE_PS) s)) }
      else if (va OR pa) AND (SIZE_2M - 1) = 0 \<and> sz \<ge> SIZE_2M then do {
        (r, s) \<leftarrow> do_walk 4 2 True pgdir va s;
        (case r of None \<Rightarrow> Some (False, s)
         | Some r \<Rightarrow> map_range_loop pgdir (va + SIZE_2M) (pa + SIZE_2M) (sz - SIZE_2M) perm
             (set_pte r (pa OR perm OR PTE_P OR PTE_PS) s)) }
      else do {
        (r, s) \<leftarrow> do_walk 4 1 True pgdir va s;
        (case r of None \<Rightarrow> Some (False, s)
         | Some r \<Rightarrow> map_range_loop pgdir (va + PGSIZE) (pa + PGSIZE) (sz - PGSIZE) perm
             (set_pte r (pa OR perm OR PTE_P) s)) })"

definition map_range :: "u64 \<Rightarrow> u64 \<Rightarrow> u64 \<Rightarrow> u64 \<Rightarrow> u64 \<Rightarrow> 'a vm_state_scheme \<Rightarrow> (bool \<times> 'a vm_state_scheme) option" where
  "map_range pgdir va pa sz perm s = map_range_loop pgdir va pa (pgroundup sz) perm s"

definition setupkvm :: "'a vm_state_scheme \<Rightarrow> (u64 \<times> 'a vm_state_scheme) option" where
  "setupkvm s = do {
     (p, s) \<leftarrow> vm_kalloc s;
     if p = 0 then Some (0, s)
     else Some (p, s\<lparr>vm_pte := (vm_pte s)(p := (\<lambda>i. if 256 \<le> i \<and> i < 512 then vm_pte s (kpgdir s) i else 0))\<rparr>) }"

section \<open>The kernel map\<close>

text \<open>The spans of the sorted memory map: from a range on, all ranges that start inside or at
  the end of what was merged so far; the span starts at its first range of RAM.\<close>

fun span :: "memrange list \<Rightarrow> u64 \<Rightarrow> u64 option \<Rightarrow> u64 \<times> u64 option \<times> memrange list" where
  "span [] hi lo = (hi, lo, [])"
| "span (r # rs) hi lo =
     (if mr_base r > hi then (hi, lo, r # rs)
      else span rs (if mr_hi r > hi then mr_hi r else hi)
        (if lo = None \<and> is_ram r then Some (mr_base r) else lo))"

definition first_span :: "memrange \<Rightarrow> memrange list \<Rightarrow> u64 \<times> u64 option \<times> memrange list" where
  "first_span r rs = span rs (mr_hi r) (if is_ram r then Some (mr_base r) else None)"

lemma span_shorter: "length (snd (snd (span rs hi lo))) \<le> length rs"
  by (induction rs hi lo rule: span.induct) auto

function map_spans :: "memrange list \<Rightarrow> u64 \<Rightarrow> bool \<Rightarrow> 'a vm_state_scheme \<Rightarrow> (bool \<times> 'a vm_state_scheme) option" where
  "map_spans [] done mapped s = Some (mapped, s)"
| "map_spans (r # rs) done mapped s =
     (let (hi, lo, rest) = first_span r rs in
      case lo of None \<Rightarrow> map_spans rest done mapped s
      | Some lo \<Rightarrow>
        (let lo = lo AND NOT (SIZE_2M - 1);
             hi = (hi + SIZE_2M - 1) AND NOT (SIZE_2M - 1);
             hi = (if hi > phys_map_top (vm_k s) then phys_map_top (vm_k s) else hi);
             lo = (if lo < done then done else lo)
         in if lo \<ge> hi then map_spans rest done mapped s
            else (case map_range (kpgdir s) (DMAP_BASE + lo) lo (hi - lo) PTE_W s of
                None \<Rightarrow> None
              | Some (False, s) \<Rightarrow> None
              | Some (True, s) \<Rightarrow> map_spans rest hi True s)))"
  by pat_completeness auto
termination
proof (relation "measure (\<lambda>(rs, d, m, s). length rs)", goal_cases)
  case (2 r rs d m s x hi y lo rest)
  then show ?case using span_shorter [of rs "mr_hi r" "if is_ram r then Some (mr_base r) else None"]
    by (simp add: first_span_def split_pairs)
qed (auto simp: first_span_def less_Suc_eq_le split_pairs intro: span_shorter)

text \<open>\<open>ldata\<close> and \<open>k_end\<close> are the linker's symbols for the start of the data and the end of the
  kernel.\<close>

definition kvmalloc :: "memrange list \<Rightarrow> bool \<Rightarrow> u64 \<Rightarrow> 'a vm_state_scheme \<Rightarrow> 'a vm_state_scheme option" where
  "kvmalloc bi cpu_has_1g ldata s = do {
     let kend = pgroundup (V2P (k_end (vm_k s)));
     (p, s) \<leftarrow> vm_kalloc (s\<lparr>have_1g := cpu_has_1g\<rparr>);
     if p = 0 then None
     else do {
       (mapped, s) \<leftarrow> map_spans bi 0 False (zero_table p (s\<lparr>kpgdir := p\<rparr>));
       if \<not> mapped then None
       else do {
         (ok, s) \<leftarrow> map_range p KERNBASE 0 EXTMEM PTE_W s;
         (ok, s) \<leftarrow> (if ok then map_range p (KERNBASE + EXTMEM) EXTMEM (V2P ldata - EXTMEM) 0 s else Some (False, s));
         (ok, s) \<leftarrow> (if ok then map_range p ldata (V2P ldata) (kend - V2P ldata) PTE_W s else Some (False, s));
         if \<not> ok then None
         else do {
           (r, s) \<leftarrow> do_walk 4 3 True p IOMAP_BASE s;
           if r = None then None else Some s } } } }"

definition iomap :: "u64 \<Rightarrow> u64 \<Rightarrow> u64 \<Rightarrow> 'a vm_state_scheme \<Rightarrow> (u64 \<times> 'a vm_state_scheme) option" where
  "iomap pa sz perm s =
     (let off = pa AND (PGSIZE - 1); len = pgroundup (sz + off) in
      if sz = 0 \<or> len > IOMAP_SIZE then Some (0, s)
      else do {
        let va = iomap_next s;
        let s = s\<lparr>iomap_next := va + len\<rparr>;
        if va - IOMAP_BASE > IOMAP_SIZE - len then None
        else do {
          (ok, s) \<leftarrow> map_range (kpgdir s) va (pa - off) len perm s;
          Some (if ok then va + off else 0, s) } })"

definition ioremap :: "u64 \<Rightarrow> u64 \<Rightarrow> 'a vm_state_scheme \<Rightarrow> (u64 \<times> 'a vm_state_scheme) option" where
  "ioremap pa sz s = iomap pa sz (PTE_W OR PTE_PCD) s"

definition ioremap_wc :: "u64 \<Rightarrow> u64 \<Rightarrow> 'a vm_state_scheme \<Rightarrow> (u64 \<times> 'a vm_state_scheme) option" where
  "ioremap_wc pa sz s = iomap pa sz (PTE_W OR PTE_PWT) s"

section \<open>The memory of a process\<close>

definition inituvm :: "u64 \<Rightarrow> bytes \<Rightarrow> 'a vm_state_scheme \<Rightarrow> 'a vm_state_scheme option" where
  "inituvm pgdir init s =
     (if length init \<ge> 4096 then None
      else do {
        (mem, s) \<leftarrow> vm_kalloc s;
        if mem = 0 then None
        else do {
          (ok, s) \<leftarrow> mappages pgdir 0 4096 (V2P mem) (PTE_W OR PTE_U) (set_page mem zero_page s);
          Some (set_page mem (put_bytes (vm_data s mem) 0 init) s) } })"

definition page_off :: "u64 \<Rightarrow> nat" where
  "page_off va = unat (va - pgrounddown va)"

text \<open>How much of \<open>len\<close> bytes fits the page from the offset \<open>off\<close> on.\<close>

definition chunk_len :: "nat \<Rightarrow> nat \<Rightarrow> nat" where
  "chunk_len off len = min (4096 - off) len"

lemma page_off_less [simp]: "page_off va < 4096"
proof -
  have "pgrounddown va \<le> va" by (simp add: pgrounddown_def word_and_le2)
  then have "page_off va = unat va - unat (pgrounddown va)" by (simp add: page_off_def unat_sub)
  also have "\<dots> = unat va mod 4096" unfolding pgrounddown_def unat_page_mask by (rule minus_div_mult_eq_mod)
  finally show ?thesis by simp
qed

lemma chunk_len_pos [simp]: "off < 4096 \<Longrightarrow> 0 < len \<Longrightarrow> 0 < chunk_len off len"
  by (simp add: chunk_len_def)

text \<open>\<^verbatim>\<open>loaduvm\<close> reads through \<open>rd\<close>, the \<^verbatim>\<open>readi\<close> of the program's inode, whose state is
  separate.\<close>

function loaduvm :: "(u32 \<Rightarrow> u32 \<Rightarrow> 'f \<Rightarrow> (int \<times> bytes \<times> 'f) option) \<Rightarrow> u64 \<Rightarrow> u64 \<Rightarrow> u32 \<Rightarrow> nat \<Rightarrow> nat \<Rightarrow>
    'a vm_state_scheme \<times> 'f \<Rightarrow> (bool \<times> 'a vm_state_scheme \<times> 'f) option" where
  "loaduvm rd pgdir addr offset i sz st =
     (if i < sz then (case st of (s, f) \<Rightarrow> do {
        let va = addr + of_nat i;
        let off = unat va mod 4096;
        let n = chunk_len off (sz - i);
        (r, s) \<leftarrow> walkpgdir pgdir (va - of_nat off) False s;
        (case r of None \<Rightarrow> None
         | Some r \<Rightarrow> do {
             let page = P2V (pte_addr (pte_at s r));
             (k, bs, f) \<leftarrow> rd (offset + of_nat i) (of_nat n) f;
             let s = set_page page (put_bytes (vm_data s page) off bs) s;
             if k \<noteq> int n then Some (False, s, f) else loaduvm rd pgdir addr offset (i + n) sz (s, f) }) })
      else Some (True, st))"
  by pat_completeness auto
termination
proof (relation "measure (\<lambda>(rd, pgdir, addr, offset, i, sz, st). sz - i)", goal_cases)
  case (2 rd pgdir addr offset i sz st)
  have "0 < chunk_len (unat x mod 4096) (sz - i)" for x :: u64 using 2(1) by (intro chunk_len_pos) simp_all
  then show ?case using 2(1,4,5) by (simp add: diff_less_mono2)
qed simp

declare loaduvm.simps [simp del]

partial_function (option) dealloc_loop :: "u64 \<Rightarrow> u64 \<Rightarrow> u64 \<Rightarrow> 'a vm_state_scheme \<Rightarrow> 'a vm_state_scheme option" where
  "dealloc_loop pgdir a oldsz s =
     (if a < oldsz then do {
        (r, s) \<leftarrow> walkpgdir pgdir a False s;
        (case r of None \<Rightarrow> dealloc_loop pgdir (a + PGSIZE) oldsz s
         | Some r \<Rightarrow>
           if present (pte_at s r) then
             (if pte_addr (pte_at s r) = 0 then None
              else do {
                s \<leftarrow> vm_kfree (P2V (pte_addr (pte_at s r))) s;
                dealloc_loop pgdir (a + PGSIZE) oldsz (set_pte r 0 s) })
           else dealloc_loop pgdir (a + PGSIZE) oldsz s) }
      else Some s)"

text \<open>The sizes are returned as \<^verbatim>\<open>int\<close>: only their low 32 bits reach the caller.\<close>

definition deallocuvm :: "u64 \<Rightarrow> u64 \<Rightarrow> u64 \<Rightarrow> 'a vm_state_scheme \<Rightarrow> (u32 \<times> 'a vm_state_scheme) option" where
  "deallocuvm pgdir oldsz newsz s =
     (if newsz \<ge> oldsz then Some (ucast oldsz, s)
      else do { s \<leftarrow> dealloc_loop pgdir (pgroundup newsz) oldsz s; Some (ucast newsz, s) })"

partial_function (option) alloc_loop :: "u64 \<Rightarrow> u64 \<Rightarrow> u64 \<Rightarrow> u64 \<Rightarrow> 'a vm_state_scheme \<Rightarrow> (u32 \<times> 'a vm_state_scheme) option" where
  "alloc_loop pgdir a oldsz newsz s =
     (if a < newsz then do {
        (mem, s) \<leftarrow> vm_kalloc s;
        if mem = 0 then do {
          (_, s) \<leftarrow> deallocuvm pgdir newsz oldsz s;
          Some (0, s) }
        else do {
          (ok, s) \<leftarrow> mappages pgdir a 4096 (V2P mem) (PTE_W OR PTE_U) (set_page mem zero_page s);
          if \<not> ok then do {
            (_, s) \<leftarrow> deallocuvm pgdir newsz oldsz s;
            s \<leftarrow> vm_kfree mem s;
            Some (0, s) }
          else alloc_loop pgdir (a + PGSIZE) oldsz newsz s } }
      else Some (ucast newsz, s))"

definition allocuvm :: "u64 \<Rightarrow> u64 \<Rightarrow> u64 \<Rightarrow> 'a vm_state_scheme \<Rightarrow> (u32 \<times> 'a vm_state_scheme) option" where
  "allocuvm pgdir oldsz newsz s =
     (if newsz \<ge> KERNBASE then Some (0, s)
      else if newsz < oldsz then Some (ucast oldsz, s)
      else alloc_loop pgdir (pgroundup oldsz) oldsz newsz s)"

text \<open>\<^verbatim>\<open>do_freevm\<close> frees the tables below an entry, \<^verbatim>\<open>freevm\<close> those of the user half.\<close>

fun each_entry :: "(nat \<Rightarrow> 's \<Rightarrow> 's option) \<Rightarrow> nat list \<Rightarrow> 's \<Rightarrow> 's option" where
  "each_entry f [] s = Some s"
| "each_entry f (i # is) s = do { s \<leftarrow> f i s; each_entry f is s }"

primrec do_freevm :: "nat \<Rightarrow> u64 \<Rightarrow> 'a vm_state_scheme \<Rightarrow> 'a vm_state_scheme option" where
  "do_freevm 0 table s = vm_kfree table s"
| "do_freevm (Suc l) table s = do {
     s \<leftarrow> each_entry (\<lambda>i s.
         if present (vm_pte s table i) \<and> Suc l > 1 \<and> \<not> large (vm_pte s table i)
         then do_freevm l (P2V (pte_addr (vm_pte s table i))) s else Some s) [0..<512] s;
     vm_kfree table s }"

definition freevm :: "u64 \<Rightarrow> u64 \<Rightarrow> 'a vm_state_scheme \<Rightarrow> 'a vm_state_scheme option" where
  "freevm pgdir utop s =
     (if pgdir = 0 then None
      else do {
        (_, s) \<leftarrow> deallocuvm pgdir utop 0 s;
        s \<leftarrow> each_entry (\<lambda>i s.
            if present (vm_pte s pgdir i) then do_freevm 3 (P2V (pte_addr (vm_pte s pgdir i))) s else Some s) [0..<256] s;
        vm_kfree pgdir s })"

partial_function (option) copy_loop :: "u64 \<Rightarrow> u64 \<Rightarrow> u64 \<Rightarrow> u64 \<Rightarrow> 'a vm_state_scheme \<Rightarrow> (bool \<times> 'a vm_state_scheme) option" where
  "copy_loop d pgdir i sz s =
     (if i < sz then do {
        (r, s) \<leftarrow> walkpgdir pgdir i False s;
        (case r of None \<Rightarrow> None
         | Some r \<Rightarrow>
           if \<not> present (pte_at s r) then None
           else do {
             let e = pte_at s r;
             (mem, s) \<leftarrow> vm_kalloc s;
             if mem = 0 then Some (False, s)
             else do {
               let s = set_page mem (vm_data s (P2V (pte_addr e))) s;
               (ok, s) \<leftarrow> mappages d i 4096 (V2P mem) (pte_flags e) s;
               if ok then copy_loop d pgdir (i + PGSIZE) sz s
               else do { s \<leftarrow> vm_kfree mem s; Some (False, s) } } }) }
      else Some (True, s))"

definition copyuvm :: "u64 \<Rightarrow> u64 \<Rightarrow> 'a vm_state_scheme \<Rightarrow> (u64 \<times> 'a vm_state_scheme) option" where
  "copyuvm pgdir sz s = do {
     (d, s) \<leftarrow> setupkvm s;
     if d = 0 then Some (0, s)
     else do {
       (ok, s) \<leftarrow> copy_loop d pgdir 0 sz s;
       if ok then Some (d, s) else do { s \<leftarrow> freevm d sz s; Some (0, s) } } }"

definition clearpteu :: "u64 \<Rightarrow> u64 \<Rightarrow> 'a vm_state_scheme \<Rightarrow> 'a vm_state_scheme option" where
  "clearpteu pgdir uva s = do {
     (r, s) \<leftarrow> walkpgdir pgdir uva False s;
     (case r of None \<Rightarrow> None | Some r \<Rightarrow> Some (set_pte r (pte_at s r AND NOT PTE_U) s)) }"

definition uva2ka :: "u64 \<Rightarrow> u64 \<Rightarrow> 'a vm_state_scheme \<Rightarrow> (u64 \<times> 'a vm_state_scheme) option" where
  "uva2ka pgdir uva s = do {
     (r, s) \<leftarrow> walkpgdir pgdir uva False s;
     Some (case r of None \<Rightarrow> 0
       | Some r \<Rightarrow> if \<not> present (pte_at s r) \<or> pte_at s r AND PTE_U = 0 then 0 else P2V (pte_addr (pte_at s r)), s) }"

function copyout :: "u64 \<Rightarrow> u64 \<Rightarrow> bytes \<Rightarrow> 'a vm_state_scheme \<Rightarrow> (bool \<times> 'a vm_state_scheme) option" where
  "copyout pgdir va buf s =
     (if buf = [] then Some (True, s)
      else do {
        (pa0, s) \<leftarrow> uva2ka pgdir (pgrounddown va) s;
        if pa0 = 0 then Some (False, s)
        else do {
          let n = chunk_len (page_off va) (length buf);
          copyout pgdir (pgrounddown va + PGSIZE) (drop n buf)
            (set_page pa0 (put_bytes (vm_data s pa0) (page_off va) (take n buf)) s) } })"
  by pat_completeness auto
termination by (relation "measure (\<lambda>(pgdir, va, buf, s). length buf)") auto

declare copyout.simps [simp del]

text \<open>\<^verbatim>\<open>copyin\<close> gives what it has copied, also when it fails on the way.\<close>

function copyin :: "u64 \<Rightarrow> u64 \<Rightarrow> nat \<Rightarrow> 'a vm_state_scheme \<Rightarrow> (bool \<times> bytes \<times> 'a vm_state_scheme) option" where
  "copyin pgdir va len s =
     (if len = 0 then Some (True, [], s)
      else do {
        (pa0, s) \<leftarrow> uva2ka pgdir (pgrounddown va) s;
        if pa0 = 0 then Some (False, [], s)
        else do {
          let n = chunk_len (page_off va) len;
          (ok, bs, s') \<leftarrow> copyin pgdir (pgrounddown va + PGSIZE) (len - n) s;
          Some (ok, get_bytes (vm_data s pa0) (page_off va) n @ bs, s') } })"
  by pat_completeness auto
termination by (relation "measure (\<lambda>(pgdir, va, len, s). len)") auto

declare copyin.simps [simp del]

end
