(* ===== verification/Vm_Inv.thy ===== *)
theory Vm_Inv
  imports Vm
begin

text \<open>
  The invariant of \<^verbatim>\<open>kern/vm.c\<close>.  The user half of the address spaces is a forest: a ghost map
  \<open>use\<close> gives the level of each page in use (4 for a root, 0 for user memory), every entry of
  a table leads one level down, no page has two entries, and no page in use is free.  Over
  this invariant the walk and the mapping operations are a lookup and an update of a map
  from virtual pages to entries, one map per process.
\<close>

section \<open>Entries and indices\<close>

definition dm_page :: "u64 \<Rightarrow> bool" where
  "dm_page p \<longleftrightarrow> p mod PGSIZE = 0 \<and> DMAP_BASE < p \<and> p < KERNBASE"

lemma unat_drop: "unat (drop_bit n (x :: u64)) = unat x div 2 ^ n"
  by (subst unat_drop_bit_eq) (rule drop_bit_eq_div)

lemma unat_take: "unat (take_bit n (x :: u64)) = unat x mod 2 ^ n"
  by (subst unsigned_take_bit_eq) (rule take_bit_eq_mod)

lemma drop_small: "unat (x :: u64) < 2 ^ n \<Longrightarrow> drop_bit n x = 0"
  by (rule word_unat_eq_iff [THEN iffD2]) (simp add: unat_drop)

lemma take_small: "unat (x :: u64) < 2 ^ n \<Longrightarrow> take_bit n x = x"
  by (rule word_unat_eq_iff [THEN iffD2]) (simp add: unat_take)

lemma and_small: "unat m < 4096 \<Longrightarrow> (x :: u64) AND m = take_bit 12 x AND m"
proof -
  assume m: "unat m < 4096"
  have "x AND m \<le> m" by (rule word_and_le1)
  then have "take_bit 12 (x AND m) = x AND m" using m by (intro take_small) (simp add: word_le_nat_alt)
  moreover have "take_bit 12 m = m" using m by (intro take_small) simp
  ultimately show ?thesis by simp
qed

lemma dm_page_V2P:
  assumes "dm_page p"
  shows "take_bit 12 (V2P p) = 0" "V2P p < 2 ^ 47" "P2V (V2P p) = p" "V2P p \<noteq> 0"
proof -
  have v: "V2P p = p - DMAP_BASE" using assms by (simp add: dm_page_def V2P_def not_le [symmetric])
  have n: "unat (V2P p) = unat p - 0xffff800000000000"
    using assms unfolding v by (simp add: dm_page_def unat_sub word_less_nat_alt word_le_nat_alt)
  have m: "unat p mod 4096 = 0" using assms by (simp add: dm_page_def word_unat_eq_iff unat_mod)
  have lo: "unat p > 0xffff800000000000" and hi: "unat p < 0xffffffff80000000"
    using assms by (simp_all add: dm_page_def word_less_nat_alt)
  obtain q where "unat p = 4096 * q" using m by (metis mod_0_imp_dvd dvdE)
  then have "unat (V2P p) = 4096 * (q - 0xffff800000000)" unfolding n by (simp add: diff_mult_distrib2)
  then have "unat (V2P p) mod 4096 = 0" by simp
  then show "take_bit 12 (V2P p) = 0" by (intro word_unat_eq_iff [THEN iffD2]) (simp add: unat_take)
  show "V2P p < 2 ^ 47" using lo hi by (simp add: word_less_nat_alt n)
  show "P2V (V2P p) = p" by (simp add: P2V_def v)
  show "V2P p \<noteq> 0" using assms by (auto simp: v dm_page_def)
qed

lemma pte_make:
  assumes p: "dm_page p" and f: "unat f < 4096"
  shows "P2V (pte_addr (V2P p OR f)) = p" "pte_flags (V2P p OR f) = f"
    "unat m < 4096 \<Longrightarrow> (V2P p OR f) AND m = f AND m"
proof -
  let ?q = "V2P p"
  have q0: "take_bit 12 ?q = 0" by (rule dm_page_V2P(1) [OF p])
  have f0: "drop_bit 12 f = 0" using f by (intro drop_small) simp_all
  have ft: "take_bit 12 f = f" using f by (intro take_small) simp_all
  have "unat (drop_bit 12 ?q) < 2 ^ 48"
    using dm_page_V2P(2) [OF p] by (simp add: unat_drop word_less_nat_alt)
  then have "drop_bit 12 ?q AND 0xffffffffffff = drop_bit 12 ?q"
    using take_small [of "drop_bit 12 ?q" 48] by (simp add: take_bit_eq_mask mask_eq_exp_minus_1)
  then have "pte_addr (?q OR f) = push_bit 12 (drop_bit 12 ?q)" by (simp add: pte_addr_def f0)
  also have "\<dots> = ?q" using bits_ident [of 12 ?q] q0 by simp
  finally show "P2V (pte_addr (?q OR f)) = p" using dm_page_V2P(3) [OF p] by simp
  have t: "take_bit 12 (?q OR f) = f" using q0 ft by simp
  then show "pte_flags (?q OR f) = f" by (simp add: pte_flags_def take_bit_eq_mask mask_eq_exp_minus_1)
  show "(?q OR f) AND m = f AND m" if "unat m < 4096" for m
    using and_small [OF that, of "?q OR f"] t by simp
qed

lemma ptx_alt: "ptx va l = unat va div 2 ^ (3 + 9 * l) mod 512"
proof -
  have "drop_bit (3 + 9 * l) va AND 511 = take_bit 9 (drop_bit (3 + 9 * l) va)"
    by (simp add: take_bit_eq_mask mask_eq_exp_minus_1)
  then show ?thesis by (simp add: ptx_def unat_take unat_drop)
qed

lemma ptx_less [simp]: "ptx va l < 512"
proof -
  have "drop_bit (3 + 9 * l) va AND 511 \<le> 511" by (rule word_and_le1)
  then show ?thesis by (simp add: ptx_def word_le_nat_alt)
qed

text \<open>User addresses are those of the lower half.\<close>

definition uaddr :: "u64 \<Rightarrow> bool" where
  "uaddr va \<longleftrightarrow> unat va < 2 ^ 47"

definition vpn :: "u64 \<Rightarrow> nat" where
  "vpn va = unat va div 4096"

lemma uaddr_ptx4: "uaddr va \<Longrightarrow> ptx va 4 < 256"
proof -
  assume "uaddr va"
  then have "unat va div 2 ^ 39 < 256" by (simp add: uaddr_def less_mult_imp_div_less)
  moreover have "ptx va 4 \<le> unat va div 2 ^ 39" by (simp add: ptx_alt)
  ultimately show ?thesis by simp
qed

lemma vpn_eqI:
  assumes "uaddr va" "uaddr vb" "ptx va 4 = ptx vb 4" "ptx va 3 = ptx vb 3" "ptx va 2 = ptx vb 2" "ptx va 1 = ptx vb 1"
  shows "vpn va = vpn vb"
proof -
  have *: "unat x div 4096 = ((ptx x 4 * 512 + ptx x 3) * 512 + ptx x 2) * 512 + ptx x 1" if "uaddr x" for x
  proof -
    let ?n = "unat x div 4096"
    have n: "?n < 2 ^ 35" using that by (simp add: uaddr_def less_mult_imp_div_less)
    have d: "ptx x 1 = ?n mod 512" "ptx x 2 = ?n div 512 mod 512" "ptx x 3 = ?n div 512 div 512 mod 512"
      "ptx x 4 = ?n div 512 div 512 div 512 mod 512"
      by (simp_all add: ptx_alt div_mult2_eq [symmetric])
    have "?n div 512 div 512 div 512 < 512" using n by (simp add: div_mult2_eq [symmetric] less_mult_imp_div_less)
    then have "?n div 512 div 512 div 512 mod 512 = ?n div 512 div 512 div 512" by simp
    then show ?thesis unfolding d by (simp only: div_mult_mod_eq)
  qed
  show ?thesis using *[OF assms(1)] *[OF assms(2)] assms(3-) by (simp add: vpn_def)
qed

lemma vpn_ptx: "vpn va = vpn vb \<Longrightarrow> 1 \<le> l \<Longrightarrow> l \<le> 4 \<Longrightarrow> ptx va l = ptx vb l"
proof -
  assume "vpn va = vpn vb" "1 \<le> l" "l \<le> 4"
  have "ptx x l = unat x div 4096 div 2 ^ (9 * (l - 1)) mod 512" for x
  proof -
    have "(2 :: nat) ^ (3 + 9 * l) = 4096 * 2 ^ (9 * (l - 1))"
      using \<open>1 \<le> l\<close> by (cases l) (simp_all add: power_add power_mult)
    then show ?thesis using \<open>l \<le> 4\<close> by (simp add: ptx_alt div_mult2_eq)
  qed
  then show ?thesis using \<open>vpn va = vpn vb\<close> by (simp add: vpn_def)
qed

section \<open>The invariant\<close>

definition child :: "'a vm_state_scheme \<Rightarrow> u64 \<Rightarrow> nat \<Rightarrow> u64" where
  "child s t i = P2V (pte_addr (vm_pte s t i))"

text \<open>A present entry of the user half, leading to a page of level \<open>l\<close>.\<close>

definition slot :: "(u64 \<Rightarrow> nat option) \<Rightarrow> 'a vm_state_scheme \<Rightarrow> u64 \<Rightarrow> nat \<Rightarrow> nat \<Rightarrow> bool" where
  "slot use s t i l \<longleftrightarrow> use t = Some (Suc l) \<and> i < (if l = 3 then 256 else 512) \<and> present (vm_pte s t i)"

definition vm_ok :: "(u64 \<Rightarrow> nat option) \<Rightarrow> 'a vm_state_scheme \<Rightarrow> u64 list \<Rightarrow> bool" where
  "vm_ok use s xs \<longleftrightarrow> kmem_rep (vm_k s) xs \<and>
     (\<forall>x\<in>set xs. use x = None \<and> dm_page x) \<and>
     (\<forall>p l. use p = Some l \<longrightarrow> freelist_sane (vm_k s) p \<and> dm_page p \<and> (l = 0 \<longrightarrow> length (vm_data s p) = 4096)) \<and>
     (\<forall>t i l. slot use s t i l \<longrightarrow> \<not> large (vm_pte s t i) \<and> use (child s t i) = Some l) \<and>
     (\<forall>t i l t' i' l'. slot use s t i l \<longrightarrow> slot use s t' i' l' \<longrightarrow> child s t i = child s t' i' \<longrightarrow> t = t' \<and> i = i')"

lemma vm_okD:
  assumes "vm_ok use s xs"
  shows "kmem_rep (vm_k s) xs" "x \<in> set xs \<Longrightarrow> use x = None" "x \<in> set xs \<Longrightarrow> dm_page x"
    "use p = Some l \<Longrightarrow> freelist_sane (vm_k s) p" "use p = Some l \<Longrightarrow> dm_page p"
    "use p = Some 0 \<Longrightarrow> length (vm_data s p) = 4096"
    "slot use s t i l \<Longrightarrow> \<not> large (vm_pte s t i)" "slot use s t i l \<Longrightarrow> use (child s t i) = Some l"
    "slot use s t i l \<Longrightarrow> slot use s t' i' l' \<Longrightarrow> child s t i = child s t' i' \<Longrightarrow> t = t' \<and> i = i'"
  using assms unfolding vm_ok_def by blast+

text \<open>No page in use is lost: each is a root or has an entry.\<close>

definition tidy :: "(u64 \<Rightarrow> nat option) \<Rightarrow> 'a vm_state_scheme \<Rightarrow> bool" where
  "tidy use s \<longleftrightarrow> (\<forall>p l. use p = Some l \<longrightarrow> l \<le> 4 \<and> (l = 4 \<or> (\<exists>t i. slot use s t i l \<and> child s t i = p)))"

lemma tidyD: "tidy use s \<Longrightarrow> use p = Some l \<Longrightarrow> l \<le> 4 \<and> (l = 4 \<or> (\<exists>t i. slot use s t i l \<and> child s t i = p))"
  by (simp add: tidy_def)

lemma tidy_cong: "(\<And>p. use p \<noteq> None \<Longrightarrow> vm_pte s' p = vm_pte s p) \<Longrightarrow> tidy use s' \<longleftrightarrow> tidy use s"
  by (simp add: tidy_def slot_def child_def cong: conj_cong)

text \<open>The entry for a virtual address, below a table of level \<open>l\<close>.\<close>

fun leaf_of :: "'a vm_state_scheme \<Rightarrow> nat \<Rightarrow> u64 \<Rightarrow> u64 \<Rightarrow> (u64 \<times> nat) option" where
  "leaf_of s 0 t va = None"
| "leaf_of s (Suc l) t va =
     (if l = 0 then Some (t, ptx va 1)
      else if present (vm_pte s t (ptx va (Suc l))) then leaf_of s l (child s t (ptx va (Suc l))) va
      else None)"

definition entry_of :: "'a vm_state_scheme \<Rightarrow> (u64 \<times> nat) option \<Rightarrow> u64 option" where
  "entry_of s r = (case r of None \<Rightarrow> None | Some r \<Rightarrow> if present (pte_at s r) then Some (pte_at s r) else None)"

definition xlat :: "'a vm_state_scheme \<Rightarrow> u64 \<Rightarrow> u64 \<Rightarrow> u64 option" where
  "xlat s r va = entry_of s (leaf_of s 4 r va)"

lemma uaddr_slot:
  "use t = Some (Suc l) \<Longrightarrow> l \<le> 3 \<Longrightarrow> uaddr va \<Longrightarrow> present (vm_pte s t (ptx va (Suc l))) \<Longrightarrow> slot use s t (ptx va (Suc l)) l"
  using uaddr_ptx4 [of va] by (cases "l = 3") (simp_all add: slot_def)

lemma do_walk_lookup:
  assumes "vm_ok use s xs" "use t = Some l" "0 < l" "l \<le> 4" "uaddr va"
  shows "do_walk l 1 False t va s = Some (leaf_of s l t va, s)"
  using assms(2-4)
proof (induction l arbitrary: t)
  case (Suc l)
  show ?case
  proof (cases "l = 0 \<or> \<not> present (vm_pte s t (ptx va (Suc l)))")
    case False
    then have sl: "slot use s t (ptx va (Suc l)) l" using Suc.prems assms(5) by (intro uaddr_slot) auto
    have "do_walk l 1 False (child s t (ptx va (Suc l))) va s = Some (leaf_of s l (child s t (ptx va (Suc l))) va, s)"
      using False Suc.prems vm_okD(8) [OF assms(1) sl] by (intro Suc.IH) auto
    then show ?thesis using False vm_okD(7) [OF assms(1) sl] by (simp add: Let_def child_def)
  qed (auto simp: Let_def)
qed simp

lemma walkpgdir_lookup:
  "vm_ok use s xs \<Longrightarrow> use r = Some 4 \<Longrightarrow> uaddr va \<Longrightarrow> walkpgdir r va False s = Some (leaf_of s 4 r va, s)"
  using do_walk_lookup [of use s xs r 4 va] by (simp add: walkpgdir_def)

lemma leaf_of_level:
  assumes "vm_ok use s xs" "use t = Some l" "l \<le> 4" "uaddr va" "leaf_of s l t va = Some x"
  shows "use (fst x) = Some 1 \<and> snd x = ptx va 1"
  using assms(2,3,5)
proof (induction l arbitrary: t)
  case (Suc l)
  show ?case
  proof (cases "l = 0")
    case False
    then have sl: "slot use s t (ptx va (Suc l)) l"
      using Suc.prems assms(4) by (intro uaddr_slot) (auto split: if_splits)
    then show ?thesis using False Suc.prems vm_okD(8) [OF assms(1) sl] by (intro Suc.IH) (auto split: if_splits)
  qed (use Suc.prems in auto)
qed simp

lemma leaf_of_inj:
  assumes "vm_ok use s xs" "use t = Some l" "use t' = Some l" "l \<le> 4" "uaddr va" "uaddr vb"
    "leaf_of s l t va = Some x" "leaf_of s l t' vb = Some x"
  shows "t = t' \<and> (\<forall>k. 1 \<le> k \<longrightarrow> k \<le> l \<longrightarrow> ptx va k = ptx vb k)"
  using assms(2-4,7,8)
proof (induction l arbitrary: t t')
  case (Suc l)
  show ?case
  proof (cases "l = 0")
    case True
    then show ?thesis using Suc.prems by (auto simp: le_Suc_eq)
  next
    case False
    let ?i = "ptx va (Suc l)" and ?j = "ptx vb (Suc l)"
    have a: "present (vm_pte s t ?i)" "leaf_of s l (child s t ?i) va = Some x"
      and b: "present (vm_pte s t' ?j)" "leaf_of s l (child s t' ?j) vb = Some x"
      using Suc.prems False by (auto split: if_splits)
    have sa: "slot use s t ?i l" and sb: "slot use s t' ?j l"
      using Suc.prems assms(5,6) a b by (auto intro: uaddr_slot)
    have "child s t ?i = child s t' ?j \<and> (\<forall>k. 1 \<le> k \<longrightarrow> k \<le> l \<longrightarrow> ptx va k = ptx vb k)"
      using Suc.prems a b vm_okD(8) [OF assms(1) sa] vm_okD(8) [OF assms(1) sb] by (intro Suc.IH) auto
    then show ?thesis using vm_okD(9) [OF assms(1) sa sb] by (auto simp: le_Suc_eq)
  qed
qed simp

lemma root_leaf_inj:
  assumes "vm_ok use s xs" "use r = Some 4" "use r' = Some 4" "uaddr va" "uaddr vb"
    "leaf_of s 4 r va = Some x" "leaf_of s 4 r' vb = Some x"
  shows "r = r' \<and> vpn va = vpn vb"
proof -
  have "r = r' \<and> (\<forall>k. 1 \<le> k \<longrightarrow> k \<le> 4 \<longrightarrow> ptx va k = ptx vb k)" using assms by (intro leaf_of_inj [of use s xs r 4]) auto
  then show ?thesis using vpn_eqI [OF assms(4,5)] by auto
qed

lemma leaf_of_vpn: "vpn va = vpn vb \<Longrightarrow> l \<le> 4 \<Longrightarrow> leaf_of s l t va = leaf_of s l t vb"
proof (induction l arbitrary: t)
  case (Suc l)
  then show ?case using vpn_ptx [of va vb "Suc l"] vpn_ptx [of va vb 1] by simp
qed simp

lemma xlat_vpn: "vpn va = vpn vb \<Longrightarrow> xlat s r va = xlat s r vb"
  by (simp only: xlat_def leaf_of_vpn [of va vb 4])

section \<open>Growing the tables\<close>

text \<open>What a walk that may allocate can do: it takes pages off the free list and makes them
  empty tables; no address space changes.\<close>

definition grows :: "(u64 \<Rightarrow> nat option) \<Rightarrow> 'a vm_state_scheme \<Rightarrow> u64 list \<Rightarrow>
    (u64 \<Rightarrow> nat option) \<Rightarrow> 'a vm_state_scheme \<Rightarrow> u64 list \<Rightarrow> bool" where
  "grows use s xs use' s' xs' \<longleftrightarrow> vm_ok use' s' xs' \<and> (\<exists>k. xs' = drop k xs) \<and> dom use' \<union> set xs' = dom use \<union> set xs \<and>
     (tidy use s \<longrightarrow> tidy use' s') \<and> vm_data s' = vm_data s \<and> freelist_sane (vm_k s') = freelist_sane (vm_k s) \<and>
     (\<forall>p. use' p = use p \<or> use p = None \<and> p \<in> set xs \<and> p \<notin> set xs' \<and> use' p \<in> {Some 1, Some 2, Some 3}) \<and>
     (\<forall>t i l. slot use s t i l \<longrightarrow> vm_pte s' t i = vm_pte s t i) \<and>
     (\<forall>t l va. use t = Some l \<longrightarrow> l \<le> 4 \<longrightarrow> uaddr va \<longrightarrow>
        entry_of s' (leaf_of s' l t va) = entry_of s (leaf_of s l t va))"

lemma grows_refl: "vm_ok use s xs \<Longrightarrow> grows use s xs use s xs"
  unfolding grows_def by (auto intro: exI [of _ 0])

lemma grows_slot: "grows use s xs use' s' xs' \<Longrightarrow> slot use s t i l \<Longrightarrow> slot use' s' t i l"
  unfolding grows_def slot_def by (metis option.distinct(1))

lemma grows_use: "grows use s xs use' s' xs' \<Longrightarrow> use p = Some l \<Longrightarrow> use' p = Some l"
  unfolding grows_def by (metis option.distinct(1))

lemma grows_trans:
  assumes a: "grows use s xs use1 s1 xs1" and b: "grows use1 s1 xs1 use' s' xs'"
  shows "grows use s xs use' s' xs'"
proof -
  obtain j k where jk: "xs1 = drop j xs" "xs' = drop k xs1" using a b unfolding grows_def by blast
  then have sub: "set xs' \<subseteq> set xs1" "set xs1 \<subseteq> set xs" using set_drop_subset by metis+
  have "use' p = use p \<or> use p = None \<and> p \<in> set xs \<and> p \<notin> set xs' \<and> use' p \<in> {Some 1, Some 2, Some 3}" for p
  proof -
    have "use1 p = use p \<or> use p = None \<and> p \<in> set xs \<and> p \<notin> set xs1 \<and> use1 p \<in> {Some 1, Some 2, Some 3}"
      "use' p = use1 p \<or> use1 p = None \<and> p \<in> set xs1 \<and> p \<notin> set xs' \<and> use' p \<in> {Some 1, Some 2, Some 3}"
      using a b unfolding grows_def by blast+
    then show ?thesis using sub by auto
  qed
  moreover have "xs' = drop (k + j) xs" using jk by simp
  moreover have "vm_pte s' t i = vm_pte s t i" if "slot use s t i l" for t i l
    using a b that grows_slot [OF a that] unfolding grows_def by metis
  moreover have "entry_of s' (leaf_of s' l t va) = entry_of s (leaf_of s l t va)"
    if "use t = Some l" "l \<le> 4" "uaddr va" for t l va
    using a b that grows_use [OF a that(1)] unfolding grows_def by metis
  moreover have "vm_ok use' s' xs'" "vm_data s' = vm_data s" "freelist_sane (vm_k s') = freelist_sane (vm_k s)"
    "dom use' \<union> set xs' = dom use \<union> set xs" "tidy use s \<longrightarrow> tidy use' s'"
    using a b unfolding grows_def by simp_all
  ultimately show ?thesis unfolding grows_def by blast
qed

lemma entry_of_zero [simp]: "entry_of s None = None" "pte_at s r = 0 \<Longrightarrow> entry_of s (Some r) = None"
  by (simp_all add: entry_of_def present_def)

lemma present_odd: "present e \<longleftrightarrow> odd e"
  by (simp add: present_def and_one_eq odd_iff_mod_2_eq_one)

lemma table_entry:
  assumes "dm_page n"
  shows "present (V2P n OR 7)" "\<not> large (V2P n OR 7)" "P2V (pte_addr (V2P n OR 7)) = n"
  using pte_make(1) [OF assms, of 7] pte_make(3) [OF assms, of 7 128]
  by (simp_all add: present_odd large_def even_or_iff)

lemma empty_table: "vm_pte s n = (\<lambda>i. 0) \<Longrightarrow> entry_of s (leaf_of s l n va) = None"
  by (cases l) (simp_all add: pte_at_def present_def)

text \<open>A fresh empty table below a table \<open>t\<close> of level \<open>m + 1\<close>.\<close>

lemma add_table_entries:
  assumes ok: "vm_ok use s xs" and t: "use t = Some (Suc m)" "0 < m" "\<not> present (vm_pte s t i)"
    and n: "use n = None"
    and s1: "vm_pte s1 = (vm_pte s)(n := (\<lambda>i. 0), t := (vm_pte s t)(i := e))" "present e" "P2V (pte_addr e) = n"
    and u: "use u = Some l" "l \<le> 4" "uaddr va"
  shows "entry_of s1 (leaf_of s1 l u va) = entry_of s (leaf_of s l u va)"
  using u(1,2)
proof (induction l arbitrary: u)
  case (Suc l)
  have tn: "t \<noteq> n" "u \<noteq> n" using t n Suc.prems by auto
  show ?case
  proof (cases "l = 0")
    case True
    then have "u \<noteq> t" using Suc.prems t by auto
    then show ?thesis using True tn by (simp add: entry_of_def pte_at_def s1)
  next
    case l: False
    let ?j = "ptx va (Suc l)"
    show ?thesis
    proof (cases "u = t \<and> ?j = i")
      case True
      have "entry_of s1 (leaf_of s1 l n va) = None" using tn by (intro empty_table) (simp add: s1)
      then show ?thesis using True tn l t(3) s1(2,3) by (simp add: s1(1) child_def)
    next
      case False
      then have same: "vm_pte s1 u ?j = vm_pte s u ?j" using tn by (auto simp: s1)
      show ?thesis
      proof (cases "present (vm_pte s u ?j)")
        case True
        then have "use (child s u ?j) = Some l"
          using Suc.prems u(3) by (intro vm_okD(8) [OF ok] uaddr_slot) auto
        then show ?thesis using True l same Suc.prems Suc.IH [of "child s u ?j"] by (simp add: child_def)
      qed (use same l in simp)
    qed
  qed
qed simp

lemma vm_ok_kmem:
  assumes "vm_ok use s xs" "kmem_rep k ys" "freelist_sane k = freelist_sane (vm_k s)" "\<And>x. x \<in> set ys \<Longrightarrow> use x = None \<and> dm_page x"
  shows "vm_ok use (s\<lparr>vm_k := k\<rparr>) ys"
proof -
  have "slot use (s\<lparr>vm_k := k\<rparr>) = slot use s" "child (s\<lparr>vm_k := k\<rparr>) = child s" by (simp_all add: slot_def child_def fun_eq_iff)
  then show ?thesis using assms vm_okD(4-9) [OF assms(1)]
    unfolding vm_ok_def by (intro conjI) (simp, blast, simp, metis vm_state.select_convs(2) vm_state.update_convs(1) vm_state.surjective, metis)
qed

lemma vm_ok_kalloc:
  assumes ok: "vm_ok use s xs"
  shows "xs = [] \<Longrightarrow> vm_kalloc s = Some (0, s)"
    "xs = n # ys \<Longrightarrow> \<exists>k. vm_kalloc s = Some (n, s\<lparr>vm_k := k\<rparr>) \<and> vm_ok use (s\<lparr>vm_k := k\<rparr>) ys \<and>
       freelist_sane k = freelist_sane (vm_k s) \<and> use n = None \<and> n \<notin> set ys \<and> dm_page n \<and> freelist_sane k n \<and> n \<noteq> 0"
proof -
  show "vm_kalloc s = Some (0, s)" if "xs = []"
    using kmem.alloc_nil [of "vm_k s"] vm_okD(1) [OF ok] that by (simp add: vm_kalloc_def)
  assume xs: "xs = n # ys"
  have rep: "kmem_rep (vm_k s) (n # ys)" using vm_okD(1) [OF ok] xs by simp
  obtain k where k: "kalloc (vm_k s) = Some (n, k)" "kmem_rep k ys" "freelist_sane k = freelist_sane (vm_k s)"
    using kmem.alloc_cons [OF rep] by blast
  have "n \<notin> set ys" "freelist_sane (vm_k s) n" "n \<noteq> 0" using kmem.rep_ok [OF rep] by auto
  moreover have "vm_ok use (s\<lparr>vm_k := k\<rparr>) ys"
    using ok k(2,3) by (rule vm_ok_kmem) (use vm_okD(2,3) [OF ok] xs in auto)
  moreover have "use n = None" "dm_page n" using vm_okD(2,3) [OF ok, of n] xs by auto
  ultimately show "\<exists>k. vm_kalloc s = Some (n, s\<lparr>vm_k := k\<rparr>) \<and> vm_ok use (s\<lparr>vm_k := k\<rparr>) ys \<and>
       freelist_sane k = freelist_sane (vm_k s) \<and> use n = None \<and> n \<notin> set ys \<and> dm_page n \<and> freelist_sane k n \<and> n \<noteq> 0"
    using k by (auto simp: vm_kalloc_def)
qed

text \<open>Pages not in use may hold anything.\<close>

lemma vm_ok_unused:
  assumes "vm_ok use s xs" "vm_k s1 = vm_k s"
    and "\<And>p. use p \<noteq> None \<Longrightarrow> vm_pte s1 p = vm_pte s p" "\<And>p. use p = Some 0 \<Longrightarrow> length (vm_data s1 p) = 4096"
  shows "vm_ok use s1 xs"
proof -
  have sl: "slot use s1 t i l \<longleftrightarrow> slot use s t i l" for t i l using assms(3) [of t] by (auto simp: slot_def)
  have ch: "vm_pte s1 t i = vm_pte s t i" "child s1 t i = child s t i" if "slot use s t i l" for t i l
    using assms(3) [of t] that by (auto simp: slot_def child_def)
  show ?thesis unfolding vm_ok_def sl
    using assms(2,4) ch vm_okD [OF assms(1)] by (intro conjI) (simp, blast, simp, metis, metis)
qed

text \<open>An entry for the page \<open>n\<close>, which becomes a table or user memory.\<close>

lemma link_page:
  assumes ok: "vm_ok use s xs" and t: "use t = Some (Suc m)" "i < (if m = 3 then 256 else 512)" "\<not> present (vm_pte s t i)"
    and n: "use n = None" "n \<notin> set xs" "dm_page n" "freelist_sane (vm_k s) n"
      "if m = 0 then length (vm_data s n) = 4096 else vm_pte s n = (\<lambda>i. 0)"
    and s1: "vm_k s1 = vm_k s" "vm_data s1 = vm_data s" "vm_pte s1 = (vm_pte s)(t := (vm_pte s t)(i := e))"
    and e: "present e" "\<not> large e" "P2V (pte_addr e) = n"
  shows "vm_ok (use(n := Some m)) s1 xs"
proof -
  let ?use = "use(n := Some m)"
  have tn: "t \<noteq> n" using t n by auto
  have pten: "m \<noteq> 0 \<Longrightarrow> \<not> present (vm_pte s1 n j)" for j using n(5) tn by (simp add: s1 present_def)
  have sl: "slot ?use s1 t' i' l' \<longleftrightarrow> slot use s t' i' l' \<or> t' = t \<and> i' = i \<and> l' = m" for t' i' l'
    using t n(1) tn e(1) pten unfolding slot_def by (auto simp: s1(3))
  have same: "vm_pte s1 t' i' = vm_pte s t' i'" if "slot use s t' i' l'" for t' i' l'
    using that n t(3) unfolding slot_def s1(3) by auto
  have ch: "child s1 t' i' = child s t' i'" if "slot use s t' i' l'" for t' i' l'
    using same [OF that] by (simp add: child_def)
  have chn: "child s1 t i = n" using e(3) by (simp add: child_def s1)
  have old: "child s t' i' \<noteq> n" if "slot use s t' i' l'" for t' i' l' using vm_okD(8) [OF ok that] n(1) by auto
  show ?thesis
    unfolding vm_ok_def
  proof (intro conjI allI impI ballI)
    show "kmem_rep (vm_k s1) xs" using vm_okD(1) [OF ok] s1 by simp
    fix x assume "x \<in> set xs"
    then show "?use x = None" "dm_page x" using n(2) vm_okD(2,3) [OF ok, of x] by auto
  next
    fix p l assume p: "?use p = Some l"
    show "freelist_sane (vm_k s1) p" using p vm_okD(4) [OF ok, of p] n s1 by (auto split: if_splits)
    show "dm_page p" using p vm_okD(5) [OF ok, of p] n by (auto split: if_splits)
    assume "l = 0"
    then show "length (vm_data s1 p) = 4096" using p vm_okD(6) [OF ok, of p] n s1 by (auto split: if_splits)
  next
    fix t' i' l' assume a: "slot ?use s1 t' i' l'"
    then consider (old) "slot use s t' i' l'" | (new) "t' = t" "i' = i" "l' = m" by (auto simp: sl)
    note a_cases = this
    from a_cases show "\<not> large (vm_pte s1 t' i')"
      by cases (use vm_okD(7) [OF ok] same e(2) in \<open>auto simp: s1\<close>)
    from a_cases show "?use (child s1 t' i') = Some l'"
    proof cases
      case old
      then show ?thesis using vm_okD(8) [OF ok old] ch [OF old] n(1) by auto
    qed (use chn in auto)
    fix t'' i'' l'' assume b: "slot ?use s1 t'' i'' l''" and c: "child s1 t' i' = child s1 t'' i''"
    have "t' = t'' \<and> i' = i''"
    proof (cases "slot use s t' i' l' \<and> slot use s t'' i'' l''")
      case True
      then show ?thesis using c ch vm_okD(9) [OF ok] by metis
    next
      case False
      then show ?thesis using a b c chn ch old unfolding sl by metis
    qed
    then show "t' = t''" "i' = i''" by simp_all
  qed
qed

lemma link_tidy:
  assumes "tidy use s" and t: "use t = Some (Suc m)" "m \<le> 3" "i < (if m = 3 then 256 else 512)" "\<not> present (vm_pte s t i)"
    and n: "use n = None" and s1: "vm_pte s1 = (vm_pte s)(t := (vm_pte s t)(i := e))" and e: "present e" "P2V (pte_addr e) = n"
  shows "tidy (use(n := Some m)) s1"
  unfolding tidy_def
proof (intro allI impI)
  fix p l assume p: "(use(n := Some m)) p = Some l"
  have tn: "t \<noteq> n" using t n by auto
  show "l \<le> 4 \<and> (l = 4 \<or> (\<exists>t i. slot (use(n := Some m)) s1 t i l \<and> child s1 t i = p))"
  proof (cases "p = n")
    case True
    then have "slot (use(n := Some m)) s1 t i l \<and> child s1 t i = p" using p t e tn by (simp add: slot_def child_def s1)
    then show ?thesis using p True t(2) by auto
  next
    case False
    then have u: "use p = Some l" using p by simp
    have "slot (use(n := Some m)) s1 t' i' l \<and> child s1 t' i' = p" if "slot use s t' i' l" "child s t' i' = p" for t' i'
      using that t(4) n by (auto simp: slot_def child_def s1)
    then show ?thesis using tidyD [OF assms(1) u] by blast
  qed
qed

lemma add_table:
  assumes ok: "vm_ok use s (n # ys)" and t: "use t = Some (Suc m)" "0 < m" "m \<le> 3" "i < (if m = 3 then 256 else 512)" "\<not> present (vm_pte s t i)"
  obtains k where "vm_kalloc s = Some (n, s\<lparr>vm_k := k\<rparr>)" "n \<noteq> 0"
    "grows use s (n # ys) (use(n := Some m)) (set_pte (t, i) (V2P n OR 7) (zero_table n (s\<lparr>vm_k := k\<rparr>))) ys"
proof -
  obtain k where k: "vm_kalloc s = Some (n, s\<lparr>vm_k := k\<rparr>)" "vm_ok use (s\<lparr>vm_k := k\<rparr>) ys"
      "freelist_sane k = freelist_sane (vm_k s)"
    and n: "use n = None" "n \<notin> set ys" "dm_page n" "freelist_sane k n" "n \<noteq> 0"
    using vm_ok_kalloc(2) [OF ok refl] by blast
  let ?s0 = "zero_table n (s\<lparr>vm_k := k\<rparr>)" and ?s1 = "set_pte (t, i) (V2P n OR 7) (zero_table n (s\<lparr>vm_k := k\<rparr>))"
  have tn: "t \<noteq> n" using t n by auto
  have s0: "vm_pte ?s0 = (vm_pte s)(n := (\<lambda>i. 0))" "vm_k ?s0 = k" "vm_data ?s0 = vm_data s" by (simp_all add: zero_table_def)
  have s1: "vm_k ?s1 = vm_k ?s0" "vm_data ?s1 = vm_data ?s0"
    "vm_pte ?s1 = (vm_pte ?s0)(t := (vm_pte ?s0 t)(i := V2P n OR 7))" by (simp_all add: set_pte_def)
  have ok0: "vm_ok use ?s0 ys" using k(2)
    by (rule vm_ok_unused) (use n(1) vm_okD(6) [OF k(2)] in \<open>auto simp: zero_table_def\<close>)
  have np: "\<not> present (vm_pte ?s0 t i)" using t(5) tn by (simp add: s0)
  have "vm_ok (use(n := Some m)) ?s1 ys"
    by (rule link_page [OF ok0 t(1,4) np n(1,2,3) _ _ s1 table_entry [OF n(3)]]) (use n(4) t(2) s0 in auto)
  moreover have "entry_of ?s1 (leaf_of ?s1 l u va) = entry_of s (leaf_of s l u va)"
    if "use u = Some l" "l \<le> 4" "uaddr va" for l u va
    using s1(3) tn unfolding s0
    by (intro add_table_entries [OF ok t(1,2,5) n(1) _ table_entry(1,3) [OF n(3)] that]) simp
  moreover have "vm_pte ?s1 t' i' = vm_pte s t' i'" if "slot use s t' i' l'" for t' i' l'
    using that n t(5) tn unfolding slot_def s1(3) s0 by auto
  moreover have "\<exists>j. ys = drop j (n # ys)" by (rule exI [of _ 1]) simp
  moreover have "tidy use ?s0 \<longleftrightarrow> tidy use s" using n(1) by (intro tidy_cong) (auto simp: s0)
  then have "tidy (use(n := Some m)) ?s1" if "tidy use s"
    using that by (intro link_tidy [OF _ t(1,3,4) np n(1) s1(3) table_entry(1,3) [OF n(3)]]) simp
  ultimately have "grows use s (n # ys) (use(n := Some m)) ?s1 ys"
    using k(3) n(1,2) t(2,3) unfolding grows_def by (auto simp: s1(1,2) s0)
  then show ?thesis using k(1) n(5) that by blast
qed

lemma do_walk_grow:
  assumes "vm_ok use s xs" "use t = Some l" "0 < l" "l \<le> 4" "uaddr va"
  shows "\<exists>res s' use' xs'. do_walk l 1 True t va s = Some (res, s') \<and> grows use s xs use' s' xs' \<and>
    (case res of None \<Rightarrow> xs' = [] \<and> length xs < l - 1 | Some r \<Rightarrow> leaf_of s' l t va = Some r \<and> length xs < length xs' + l)"
  using assms(1-4)
proof (induction l arbitrary: t use s xs)
  case (Suc l)
  let ?i = "ptx va (Suc l)"
  show ?case
  proof (cases "l = 0")
    case True
    then show ?thesis using grows_refl [OF Suc.prems(1)] by (auto simp: Let_def)
  next
    case l: False
    have step: "\<exists>res s' use' xs'. do_walk l 1 True c va s1 = Some (res, s') \<and> grows use s xs use' s' xs' \<and>
        (case res of None \<Rightarrow> xs' = [] \<and> length xs < Suc l - 1 | Some r \<Rightarrow> leaf_of s' (Suc l) t va = Some r \<and> length xs < length xs' + Suc l)"
      if g: "grows use s xs use1 s1 xs1" "length xs \<le> Suc (length xs1)" and sl: "slot use1 s1 t ?i l" and c: "c = child s1 t ?i" for c use1 s1 xs1
    proof -
      have ok1: "vm_ok use1 s1 xs1" using g(1) by (simp add: grows_def)
      have uc: "use1 c = Some l" using vm_okD(8) [OF ok1 sl] c by simp
      from Suc.IH [OF ok1 uc] l Suc.prems(4) obtain res s' use' xs' where
        w: "do_walk l 1 True c va s1 = Some (res, s')" "grows use1 s1 xs1 use' s' xs'"
        "case res of None \<Rightarrow> xs' = [] \<and> length xs1 < l - 1 | Some r \<Rightarrow> leaf_of s' l c va = Some r \<and> length xs1 < length xs' + l" by auto
      have "vm_pte s' t ?i = vm_pte s1 t ?i" using w(2) sl unfolding grows_def by blast
      then have "present (vm_pte s' t ?i)" "child s' t ?i = c" using sl c by (auto simp: slot_def child_def)
      then show ?thesis using w l g(2) grows_trans [OF g(1) w(2)]
        by (intro exI [of _ res] exI [of _ s'] exI [of _ use'] exI [of _ xs']) (auto split: option.splits)
    qed
    show ?thesis
    proof (cases "present (vm_pte s t ?i)")
      case True
      then have sl: "slot use s t ?i l" using Suc.prems assms(5) by (intro uaddr_slot) auto
      show ?thesis using step [OF grows_refl [OF Suc.prems(1)] _ sl refl] True l vm_okD(7) [OF Suc.prems(1) sl]
        by (simp add: Let_def child_def)
    next
      case np: False
      show ?thesis
      proof (cases xs)
        case Nil
        then show ?thesis using np l vm_ok_kalloc(1) [OF Suc.prems(1)] grows_refl [OF Suc.prems(1)] by (auto simp: Let_def)
      next
        case (Cons n ys)
        have i: "?i < (if l = 3 then 256 else 512)" using uaddr_ptx4 [OF assms(5)] by simp
        obtain k where k: "vm_kalloc s = Some (n, s\<lparr>vm_k := k\<rparr>)" "n \<noteq> 0"
          "grows use s (n # ys) (use(n := Some l)) (set_pte (t, ?i) (V2P n OR 7) (zero_table n (s\<lparr>vm_k := k\<rparr>))) ys"
          using add_table [of use s n ys t l ?i] Suc.prems Cons l np i by auto
        let ?s1 = "set_pte (t, ?i) (V2P n OR 7) (zero_table n (s\<lparr>vm_k := k\<rparr>))"
        have dm: "dm_page n" "use n = None" using vm_okD(2,3) [OF Suc.prems(1)] Cons by auto
        have "slot (use(n := Some l)) ?s1 t ?i l" "n = child ?s1 t ?i"
          using Suc.prems(2) dm(2) i table_entry [OF dm(1)] by (auto simp: slot_def set_pte_def child_def)
        then show ?thesis using step [of _ ?s1 ys n] k np l Cons by (auto simp: Let_def)
      qed
    qed
  qed
qed simp

section \<open>Address spaces\<close>

text \<open>The abstract view: for each root, a map from page numbers to flags and content.\<close>

definition space :: "'a vm_state_scheme \<Rightarrow> u64 \<Rightarrow> nat \<Rightarrow> (u64 \<times> bytes) option" where
  "space s r n = (if n < 2 ^ 35
     then map_option (\<lambda>e. (pte_flags e, vm_data s (P2V (pte_addr e)))) (xlat s r (of_nat n * PGSIZE)) else None)"

lemma vpn_page: "n < 2 ^ 35 \<Longrightarrow> vpn (of_nat n * PGSIZE) = n" "n < 2 ^ 35 \<Longrightarrow> uaddr (of_nat n * PGSIZE)"
proof -
  assume n: "n < 2 ^ 35"
  have "unat (of_nat n * PGSIZE) = n * 4096" using n by (simp add: unat_word_ariths unat_of_nat)
  then show "vpn (of_nat n * PGSIZE) = n" "uaddr (of_nat n * PGSIZE)" using n by (simp_all add: vpn_def uaddr_def)
qed

lemma vpn_less: "uaddr va \<Longrightarrow> vpn va < 2 ^ 35"
  by (simp add: vpn_def uaddr_def less_mult_imp_div_less)

lemma space_vpn:
  "uaddr va \<Longrightarrow> space s r (vpn va) = map_option (\<lambda>e. (pte_flags e, vm_data s (P2V (pte_addr e)))) (xlat s r va)"
  using vpn_less [of va] vpn_page [of "vpn va"] by (simp add: space_def xlat_vpn [of "of_nat (vpn va) * PGSIZE" va])

lemma space_cong:
  assumes "\<And>va. uaddr va \<Longrightarrow> xlat s' r' va = xlat s r va"
    "\<And>va e. uaddr va \<Longrightarrow> xlat s r va = Some e \<Longrightarrow> vm_data s' (P2V (pte_addr e)) = vm_data s (P2V (pte_addr e))"
  shows "space s' r' = space s r"
proof
  fix n show "space s' r' n = space s r n"
  proof (cases "n < 2 ^ 35")
    case True
    then show ?thesis using assms [OF vpn_page(2) [OF True]]
      by (cases "xlat s r (of_nat n * PGSIZE)") (simp_all add: space_def)
  qed (simp add: space_def)
qed

lemma grows_space:
  assumes "grows use s xs use' s' xs'" "use r = Some 4"
  shows "space s' r = space s r"
  using assms unfolding grows_def by (intro space_cong) (auto simp: xlat_def)

text \<open>The entry of a mapped address is a slot of level 0.\<close>

lemma xlat_slot:
  assumes ok: "vm_ok use s xs" "use r = Some 4" "uaddr va" "xlat s r va = Some e"
  obtains t i where "leaf_of s 4 r va = Some (t, i)" "slot use s t i 0" "e = vm_pte s t i" "P2V (pte_addr e) = child s t i"
    "use (P2V (pte_addr e)) = Some 0" "present e"
proof -
  obtain t i where x: "leaf_of s 4 r va = Some (t, i)" "present (vm_pte s t i)" "e = vm_pte s t i"
    using assms(4) by (auto simp: xlat_def entry_of_def pte_at_def split: option.splits if_splits)
  have "use t = Some 1" "i = ptx va 1" using leaf_of_level [OF ok(1,2) _ ok(3) x(1)] by auto
  then have "slot use s t i 0" using x by (simp add: slot_def)
  then show ?thesis using that x vm_okD(8) [OF ok(1)] by (auto simp: child_def)
qed

lemma page_unique:
  assumes ok: "vm_ok use s xs" and a: "use r = Some 4" "uaddr va" "xlat s r va = Some e"
    and b: "use r' = Some 4" "uaddr vb" "xlat s r' vb = Some e'" and eq: "P2V (pte_addr e) = P2V (pte_addr e')"
  shows "r = r' \<and> vpn va = vpn vb"
proof -
  obtain t i where x: "leaf_of s 4 r va = Some (t, i)" "slot use s t i 0" "P2V (pte_addr e) = child s t i"
    using xlat_slot [OF ok a] by metis
  obtain t' i' where y: "leaf_of s 4 r' vb = Some (t', i')" "slot use s t' i' 0" "P2V (pte_addr e') = child s t' i'"
    using xlat_slot [OF ok b] by metis
  have "t = t' \<and> i = i'" using vm_okD(9) [OF ok x(2) y(2)] x(3) y(3) eq by simp
  then show ?thesis using root_leaf_inj [OF ok a(1) b(1) a(2) b(2) x(1)] y(1) by simp
qed

lemma leaf_of_set_leaf:
  assumes "vm_ok use s xs" "use t = Some l" "l \<le> 4" "uaddr va" "use (fst ref) = Some 1"
  shows "leaf_of (set_pte ref e s) l t va = leaf_of s l t va"
  using assms(2,3)
proof (induction l arbitrary: t)
  case (Suc l)
  show ?case
  proof (cases "l = 0")
    case False
    then have "t \<noteq> fst ref" using Suc.prems assms(5) by auto
    then have same: "vm_pte (set_pte ref e s) t = vm_pte s t" by (simp add: set_pte_def)
    show ?thesis
    proof (cases "present (vm_pte s t (ptx va (Suc l)))")
      case True
      then have "use (child s t (ptx va (Suc l))) = Some l"
        using Suc.prems assms(4) by (intro vm_okD(8) [OF assms(1)] uaddr_slot) auto
      then show ?thesis using True same Suc.IH [of "child s t (ptx va (Suc l))"] Suc.prems by (simp add: child_def)
    qed (use same in simp)
  qed simp
qed simp

lemma pte_at_set [simp]: "pte_at (set_pte r e s) r' = (if r' = r then e else pte_at s r')"
  by (auto simp: pte_at_def set_pte_def prod_eq_iff)

lemma xlat_set_leaf:
  assumes ok: "vm_ok use s xs" and a: "use r = Some 4" "uaddr va" "leaf_of s 4 r va = Some ref"
    and b: "use r' = Some 4" "uaddr vb"
  shows "xlat (set_pte ref e s) r' vb = (if r' = r \<and> vpn vb = vpn va then if present e then Some e else None else xlat s r' vb)"
proof -
  have "use (fst ref) = Some 1" using leaf_of_level [OF ok a(1) _ a(2,3)] by simp
  then have l: "leaf_of (set_pte ref e s) 4 r' vb = leaf_of s 4 r' vb" by (intro leaf_of_set_leaf [OF ok b(1) _ b(2)]) simp_all
  show ?thesis
  proof (cases "r' = r \<and> vpn vb = vpn va")
    case True
    then have "leaf_of s 4 r' vb = Some ref" using leaf_of_vpn [of vb va 4 s r] a(3) by simp
    then show ?thesis using True unfolding xlat_def l by (simp add: entry_of_def)
  next
    case False
    then have "leaf_of s 4 r' vb \<noteq> Some ref" using root_leaf_inj [OF ok a(1) b(1) a(2) b(2) a(3)] by auto
    then show ?thesis using False unfolding xlat_def l
      by (auto simp: entry_of_def split: option.splits)
  qed
qed

lemma set_pte_simps [simp]:
  "vm_k (set_pte r e s) = vm_k s" "vm_data (set_pte r e s) = vm_data s"
  "vm_k (set_page p d s) = vm_k s" "vm_pte (set_page p d s) = vm_pte s" "vm_data (set_page p d s) = (vm_data s)(p := d)"
  by (simp_all add: set_pte_def set_page_def)

lemma leaf_of_data: "vm_pte s' = vm_pte s \<Longrightarrow> leaf_of s' l t va = leaf_of s l t va"
  by (induction l arbitrary: t) (simp_all add: child_def)

lemma xlat_data: "vm_pte s' = vm_pte s \<Longrightarrow> xlat s' r va = xlat s r va"
  using leaf_of_data [of s' s 4 r va] by (auto simp: xlat_def entry_of_def pte_at_def split: option.splits)

text \<open>Mapping, unmapping and writing a page.\<close>

lemma map_leaf:
  assumes ok: "vm_ok use s xs" and a: "use r = Some 4" "uaddr va" "leaf_of s 4 r va = Some ref" "\<not> present (pte_at s ref)"
    and n: "use n = None" "n \<notin> set xs" "dm_page n" "freelist_sane (vm_k s) n" "length (vm_data s n) = 4096"
    and e: "present e" "\<not> large e" "P2V (pte_addr e) = n"
  shows "vm_ok (use(n := Some 0)) (set_pte ref e s) xs"
    "use r' = Some 4 \<Longrightarrow> space (set_pte ref e s) r' = (if r' = r then (space s r)(vpn va \<mapsto> (pte_flags e, vm_data s n)) else space s r')"
    "tidy use s \<Longrightarrow> tidy (use(n := Some 0)) (set_pte ref e s)"
proof -
  obtain t i where ref: "ref = (t, i)" by (cases ref)
  have lv: "use t = Some 1" "i = ptx va 1" using leaf_of_level [OF ok a(1) _ a(2,3)] ref by simp_all
  show "vm_ok (use(n := Some 0)) (set_pte ref e s) xs"
    by (rule link_page [OF ok, of t 0 i n _ e]) (use a lv n e ref in \<open>auto simp: pte_at_def set_pte_def\<close>)
  show "tidy (use(n := Some 0)) (set_pte ref e s)" if "tidy use s"
    by (rule link_tidy [OF that, of t 0 i n _ e]) (use a lv n e ref in \<open>auto simp: pte_at_def set_pte_def\<close>)
  assume r': "use r' = Some 4"
  note x = xlat_set_leaf [OF ok a(1-3) r', of _ e]
  show "space (set_pte ref e s) r' = (if r' = r then (space s r)(vpn va \<mapsto> (pte_flags e, vm_data s n)) else space s r')"
  proof (cases "r' = r")
    case True
    show ?thesis
    proof
      fix m show "space (set_pte ref e s) r' m = (if r' = r then (space s r)(vpn va \<mapsto> (pte_flags e, vm_data s n)) else space s r') m"
        using True x [OF vpn_page(2)] vpn_page(1) [of m] vpn_less [OF a(2)] e by (auto simp: space_def)
    qed
  qed (use x in \<open>auto intro: space_cong\<close>)
qed

lemma unlink_page:
  assumes ok: "vm_ok use s xs" and a: "use r = Some 4" "uaddr va" "leaf_of s 4 r va = Some ref" "present (pte_at s ref)"
  obtains k p where "p = P2V (pte_addr (pte_at s ref))" "vm_kfree p s = Some (s\<lparr>vm_k := k\<rparr>)" "use p = Some 0"
    "vm_ok (use(p := None)) (set_pte ref 0 (s\<lparr>vm_k := k\<rparr>)) (p # xs)" "freelist_sane k = freelist_sane (vm_k s)"
    "tidy use s \<Longrightarrow> tidy (use(p := None)) (set_pte ref 0 (s\<lparr>vm_k := k\<rparr>))"
    "\<And>r'. use r' = Some 4 \<Longrightarrow> space (set_pte ref 0 (s\<lparr>vm_k := k\<rparr>)) r' = (if r' = r then (space s r)(vpn va := None) else space s r')"
proof -
  obtain t i where ref: "ref = (t, i)" by (cases ref)
  have lv: "use t = Some 1" "i = ptx va 1" using leaf_of_level [OF ok a(1) _ a(2,3)] ref by simp_all
  have sl: "slot use s t i 0" using lv a(4) ref by (simp add: slot_def pte_at_def)
  let ?p = "child s t i"
  have p: "use ?p = Some 0" by (rule vm_okD(8) [OF ok sl])
  have pn: "?p \<notin> set xs" "freelist_sane (vm_k s) ?p" "dm_page ?p" using p vm_okD(2,4,5) [OF ok, of ?p] by auto
  obtain k where k: "kfree ?p (vm_k s) = Some k" "kmem_rep k (?p # xs)" "freelist_sane k = freelist_sane (vm_k s)"
    using kmem.free_push [OF vm_okD(1) [OF ok] pn(2,1)] by blast
  let ?s = "set_pte (t, i) 0 (s\<lparr>vm_k := k\<rparr>)" and ?use = "use(?p := None)"
  have pte: "vm_pte ?s = (vm_pte s)(t := (vm_pte s t)(i := 0))" by (simp add: set_pte_def)
  have sl': "slot ?use ?s t' i' l \<longleftrightarrow> slot use s t' i' l \<and> (t', i') \<noteq> (t, i)" for t' i' l
    using p unfolding slot_def pte by (auto simp: present_def)
  have ch: "vm_pte ?s t' i' = vm_pte s t' i'" "child ?s t' i' = child s t' i'" if "slot ?use ?s t' i' l" for t' i' l
    using that unfolding sl' by (auto simp: pte child_def)
  have "vm_ok ?use ?s (?p # xs)"
    unfolding vm_ok_def
  proof (intro conjI allI impI ballI)
    show "kmem_rep (vm_k ?s) (?p # xs)" using k by simp
    fix x assume "x \<in> set (?p # xs)"
    then show "?use x = None" "dm_page x" using pn vm_okD(2,3) [OF ok, of x] by auto
  next
    fix q l assume q: "?use q = Some l"
    then show "freelist_sane (vm_k ?s) q" "dm_page q" "l = 0 \<Longrightarrow> length (vm_data ?s q) = 4096"
      using vm_okD(4-6) [OF ok, of q] k(3) by (auto split: if_splits)
  next
    fix t' i' l' assume b: "slot ?use ?s t' i' l'"
    show "\<not> large (vm_pte ?s t' i')" using b ch(1) [OF b] vm_okD(7) [OF ok, of t' i' l'] by (simp add: sl')
    show "?use (child ?s t' i') = Some l'"
      using b ch(2) [OF b] vm_okD(8) [OF ok, of t' i' l'] vm_okD(9) [OF ok sl, of t' i' l'] by (auto simp: sl')
    fix t'' i'' l'' assume c: "slot ?use ?s t'' i'' l''" and "child ?s t' i' = child ?s t'' i''"
    then show "t' = t''" "i' = i''" using b ch(2) [OF b] ch(2) [OF c] vm_okD(9) [OF ok, of t' i' l' t'' i'' l''] by (auto simp: sl')
  qed
  moreover have "tidy ?use ?s" if td: "tidy use s"
    unfolding tidy_def
  proof (intro allI impI)
    fix q l assume q: "?use q = Some l"
    then have "use q = Some l" "q \<noteq> ?p" by (auto split: if_splits)
    moreover have "slot ?use ?s t' i' l \<and> child ?s t' i' = q" if "slot use s t' i' l" "child s t' i' = q" "q \<noteq> ?p" for t' i'
      using that ch [of t' i' l] unfolding sl' by auto
    ultimately show "l \<le> 4 \<and> (l = 4 \<or> (\<exists>t i. slot ?use ?s t i l \<and> child ?s t i = q))"
      using tidyD [OF td, of q l] by blast
  qed
  moreover have "vm_kfree ?p s = Some (s\<lparr>vm_k := k\<rparr>)" using k(1) by (simp add: vm_kfree_def)
  moreover have "space ?s r' = (if r' = r then (space s r)(vpn va := None) else space s r')" if r': "use r' = Some 4" for r'
  proof -
    have "xlat ?s r' vb = xlat (set_pte (t, i) 0 s) r' vb" for vb by (rule xlat_data) (simp add: set_pte_def)
    then have x: "uaddr vb \<Longrightarrow> xlat ?s r' vb = (if r' = r \<and> vpn vb = vpn va then None else xlat s r' vb)" for vb
      using xlat_set_leaf [OF ok a(1-3) r', of vb 0] ref by (simp add: present_def)
    show ?thesis
    proof (cases "r' = r")
      case True
      then show ?thesis using x [OF vpn_page(2)] vpn_page(1) vpn_less [OF a(2)] by (auto simp: space_def fun_eq_iff)
    qed (use x in \<open>auto intro: space_cong\<close>)
  qed
  ultimately show ?thesis using k(3) p that [of ?p k] ref by (auto simp: child_def pte_at_def)
qed

lemma write_page:
  assumes ok: "vm_ok use s xs" and a: "use r = Some 4" "uaddr va" "xlat s r va = Some e" and d: "length d = 4096"
  shows "vm_ok use (set_page (P2V (pte_addr e)) d s) xs"
    "use r' = Some 4 \<Longrightarrow> space (set_page (P2V (pte_addr e)) d s) r' =
       (if r' = r then (space s r)(vpn va \<mapsto> (pte_flags e, d)) else space s r')"
proof -
  let ?p = "P2V (pte_addr e)"
  show "vm_ok use (set_page ?p d s) xs" using ok by (rule vm_ok_unused) (use d vm_okD(6) [OF ok] in auto)
  assume r': "use r' = Some 4"
  have x: "xlat (set_page ?p d s) r' vb = xlat s r' vb" for vb by (rule xlat_data) simp
  have other: "P2V (pte_addr e') \<noteq> ?p" if "xlat s r' vb = Some e'" "uaddr vb" "\<not> (r' = r \<and> vpn vb = vpn va)" for vb e'
    using page_unique [OF ok a r' that(2,1)] that(3) by auto
  show "space (set_page ?p d s) r' = (if r' = r then (space s r)(vpn va \<mapsto> (pte_flags e, d)) else space s r')"
  proof (cases "r' = r")
    case True
    show ?thesis
    proof
      fix m
      show "space (set_page ?p d s) r' m = (if r' = r then (space s r)(vpn va \<mapsto> (pte_flags e, d)) else space s r') m"
      proof (cases "m < 2 ^ 35")
        case m: True
        show ?thesis
        proof (cases "m = vpn va")
          case eq: True
          then show ?thesis using True space_vpn [OF a(2), of "set_page ?p d s" r] a(3) x by simp
        next
          case False
          then show ?thesis using True m x other [OF _ vpn_page(2) [OF m]] vpn_page(1) [OF m]
            by (cases "xlat s r (of_nat m * PGSIZE)") (auto simp: space_def)
        qed
      qed (use True vpn_less [OF a(2)] in \<open>auto simp: space_def\<close>)
    qed
  next
    case False
    then show ?thesis using x other by (auto intro!: space_cong)
  qed
qed

lemma unused_page:
  assumes "vm_ok use s xs" "use n = None"
  shows "vm_ok use (set_page n d s) xs" "use r = Some 4 \<Longrightarrow> space (set_page n d s) r = space s r"
proof -
  show "vm_ok use (set_page n d s) xs"
    using assms(1) by (rule vm_ok_unused) (use assms vm_okD(6) [OF assms(1)] in auto)
  assume r: "use r = Some 4"
  show "space (set_page n d s) r = space s r"
  proof (rule space_cong)
    show "xlat (set_page n d s) r va = xlat s r va" for va by (rule xlat_data) simp
    show "vm_data (set_page n d s) (P2V (pte_addr e)) = vm_data s (P2V (pte_addr e))"
      if "uaddr va" "xlat s r va = Some e" for va e
      using xlat_slot [OF assms(1) r that] assms(2) by (metis fun_upd_other option.distinct(1) set_pte_simps(5))
  qed
qed

section \<open>Mapping one page\<close>

definition pages :: "u64 \<Rightarrow> nat" where
  "pages x = (unat x + 4095) div 4096"

lemma unat_pgrounddown: "unat (pgrounddown a) = vpn a * 4096"
  unfolding pgrounddown_def vpn_def unat_page_mask ..

lemma unat_pgroundup: "unat x \<le> 2 ^ 47 \<Longrightarrow> unat (pgroundup x) = pages x * 4096"
proof -
  assume x: "unat x \<le> 2 ^ 47"
  have "unat (x + PGSIZE - 1) = unat x + 4095"
    using x unat_word_ariths(1) [of x 4095] by (simp add: add_diff_eq [symmetric])
  then show ?thesis unfolding pgroundup_def unat_page_mask pages_def by simp
qed

lemma vpn_pgrounddown [simp]: "vpn (pgrounddown a) = vpn a"
  using unat_pgrounddown [of a] by (simp add: vpn_def [of "pgrounddown a"])

lemma pgrounddown_aligned:
  assumes "unat a mod 4096 = 0" "uaddr a"
  shows "pgrounddown a = a" "pgrounddown (a + ucast (4096 :: u32) - 1) = a"
proof -
  obtain q where q: "unat a = 4096 * q" using assms(1) by (metis mod_0_imp_dvd dvdE)
  have d: "vpn a * 4096 = unat a" by (simp add: vpn_def q)
  then show "pgrounddown a = a" by (intro word_unat_eq_iff [THEN iffD2]) (simp only: unat_pgrounddown)
  have "unat (a + 4095) = unat a + 4095" using assms(2) unat_word_ariths(1) [of a 4095] by (simp add: uaddr_def)
  then have "vpn (a + 4095) = vpn a" unfolding vpn_def q by simp
  then show "pgrounddown (a + ucast (4096 :: u32) - 1) = a"
    using d by (intro word_unat_eq_iff [THEN iffD2]) (simp add: unat_pgrounddown add_diff_eq [symmetric])
qed

text \<open>Pages move between the free list and the tables, and none is lost.\<close>

definition vm_evo :: "(u64 \<Rightarrow> nat option) \<Rightarrow> 'a vm_state_scheme \<Rightarrow> u64 list \<Rightarrow>
    (u64 \<Rightarrow> nat option) \<Rightarrow> 'a vm_state_scheme \<Rightarrow> u64 list \<Rightarrow> bool" where
  "vm_evo use s xs use' s' xs' \<longleftrightarrow> vm_ok use' s' xs' \<and> freelist_sane (vm_k s') = freelist_sane (vm_k s) \<and>
     dom use' \<union> set xs' = dom use \<union> set xs \<and> (\<forall>p. use' p = Some 4 \<longleftrightarrow> use p = Some 4) \<and> (tidy use s \<longrightarrow> tidy use' s')"

lemma vm_evo_refl: "vm_ok use s xs \<Longrightarrow> vm_evo use s xs use s xs"
  by (simp add: vm_evo_def)

lemma vm_evo_trans: "vm_evo use s xs use1 s1 xs1 \<Longrightarrow> vm_evo use1 s1 xs1 use' s' xs' \<Longrightarrow> vm_evo use s xs use' s' xs'"
  by (simp add: vm_evo_def)

lemma vm_evoD:
  assumes "vm_evo use s xs use' s' xs'"
  shows "vm_ok use' s' xs'" "use' p = Some 4 \<longleftrightarrow> use p = Some 4" "tidy use s \<Longrightarrow> tidy use' s'"
    "dom use' \<union> set xs' = dom use \<union> set xs"
  using assms by (simp_all add: vm_evo_def)

lemma mappages_page:
  assumes ok: "vm_ok use s xs" and a: "use r = Some 4" "uaddr va" "unat va mod 4096 = 0" "space s r (vpn va) = None"
    and n: "use n = None" "n \<notin> set xs" "dm_page n" "freelist_sane (vm_k s) n" "length (vm_data s n) = 4096"
    and f: "unat (perm OR PTE_P) < 4096" "perm AND PTE_PS = 0"
  obtains b s' use' xs' where "mappages r va 4096 (V2P n) perm s = Some (b, s')" "vm_ok use' s' xs'"
    "freelist_sane (vm_k s') = freelist_sane (vm_k s)" "vm_data s' = vm_data s"
    "n \<notin> set xs'" "use' n = (if b then Some 0 else None)" "dom use' \<union> set xs' \<union> {n} = dom use \<union> set xs \<union> {n}"
    "\<forall>p. use' p = Some 4 \<longleftrightarrow> use p = Some 4"
    "tidy use s \<longrightarrow> tidy use' s'" "length xs \<le> length xs' + 3" "\<not> b \<longrightarrow> xs' = [] \<and> length xs < 3"
    "\<forall>r'. use r' = Some 4 \<longrightarrow> space s' r' =
       (if b \<and> r' = r then (space s r)(vpn va \<mapsto> (perm OR PTE_P, vm_data s n)) else space s r')"
proof -
  obtain res s1 use1 xs1 where w: "do_walk 4 1 True r va s = Some (res, s1)" "grows use s xs use1 s1 xs1"
    "case res of None \<Rightarrow> xs1 = [] \<and> length xs < 4 - 1 | Some x \<Rightarrow> leaf_of s1 4 r va = Some x \<and> length xs < length xs1 + 4"
    using do_walk_grow [OF ok a(1) _ _ a(2)] by auto
  have ok1: "vm_ok use1 s1 xs1" and g: "vm_data s1 = vm_data s" "freelist_sane (vm_k s1) = freelist_sane (vm_k s)"
    "dom use1 \<union> set xs1 = dom use \<union> set xs" "set xs1 \<subseteq> set xs"
    using w(2) by (simp_all add: grows_def) (metis grows_def set_drop_subset w(2))
  have u: "use1 p = use p \<or> use p = None \<and> p \<in> set xs \<and> use1 p \<in> {Some 1, Some 2, Some 3}" for p
    using w(2) unfolding grows_def by blast
  have n1: "use1 n = None" "n \<notin> set xs1" using u [of n] n g(4) by auto
  have td: "tidy use s \<longrightarrow> tidy use1 s1" using w(2) by (simp add: grows_def)
  have root: "use1 p = Some 4 \<longleftrightarrow> use p = Some 4" for p using u [of p] by auto
  have sp: "space s1 r' = space s r'" if "use r' = Some 4" for r' by (rule grows_space [OF w(2) that])
  have m: "mappages r va 4096 (V2P n) perm s = map_loop r va va (V2P n) perm s"
    unfolding mappages_def pgrounddown_aligned [OF a(3,2)] ..
  show ?thesis
  proof (cases res)
    case None
    have "mappages r va 4096 (V2P n) perm s = Some (False, s1)"
      unfolding m by (subst map_loop.simps) (simp add: walkpgdir_def w(1) [simplified] None)
    from that [OF this ok1] show ?thesis using None w(3) g n1 root sp td by auto
  next
    case (Some ref)
    then have leaf: "leaf_of s1 4 r va = Some ref" and len: "length xs < length xs1 + 4" using w(3) by simp_all
    have np: "\<not> present (pte_at s1 ref)"
      using a(4) space_vpn [OF a(2), of s1 r] sp [OF a(1)] leaf by (auto simp: xlat_def entry_of_def split: if_splits)
    let ?e = "V2P n OR (perm OR PTE_P)"
    have e: "P2V (pte_addr ?e) = n" "pte_flags ?e = perm OR PTE_P" by (rule pte_make [OF n(3) f(1)])+
    have "?e AND 128 = (perm OR PTE_P) AND 128" by (rule pte_make(3) [OF n(3) f(1)]) simp
    then have e': "present ?e" "\<not> large ?e"
      using f(2) by (simp_all add: large_def present_odd even_or_iff bit.conj_disj_distrib2)
    have r1: "use1 r = Some 4" using root a(1) by simp
    have "freelist_sane (vm_k s1) n" "length (vm_data s1 n) = 4096" using n g by simp_all
    note ml = map_leaf [OF ok1 r1 a(2) leaf np n1 n(3) this e' e(1)]
    have run: "mappages r va 4096 (V2P n) perm s = Some (True, set_pte ref ?e s1)"
      unfolding m using np by (subst map_loop.simps) (simp add: walkpgdir_def w(1) [simplified] Some Let_def)
    show ?thesis
    proof (rule that [OF run ml(1)])
      show "\<forall>r'. use r' = Some 4 \<longrightarrow> space (set_pte ref ?e s1) r' =
          (if True \<and> r' = r then (space s r)(vpn va \<mapsto> (perm OR PTE_P, vm_data s n)) else space s r')"
        using ml(2) root sp a(1) e(2) g(1) by simp
    qed (use g n1 root len td ml(3) in auto)
  qed
qed

end
