(* ===== verification/Vm_Spaces.thy ===== *)
theory Vm_Spaces
  imports Vm_Inv
begin

text \<open>
  What the operations of \<^verbatim>\<open>kern/vm.c\<close> on whole address spaces do to the abstract view
  \<^const>\<open>space\<close>: growing, shrinking, freeing and copying.  Every specification also says that
  pages only move between the free list and the tables, and that no page in use loses its
  entry.
\<close>

section \<open>Growing and shrinking a process\<close>

lemma next_page:
  assumes "unat a mod 4096 = 0" "uaddr a"
  shows "unat (a + PGSIZE) = unat a + 4096" "vpn (a + PGSIZE) = Suc (vpn a)" "unat (a + PGSIZE) mod 4096 = 0"
proof -
  show *: "unat (a + PGSIZE) = unat a + 4096" using assms(2) unat_word_ariths(1) [of a PGSIZE] by (simp add: uaddr_def)
  show "vpn (a + PGSIZE) = Suc (vpn a)" "unat (a + PGSIZE) mod 4096 = 0" using assms(1) unfolding vpn_def * by simp_all
qed

lemma below_pages:
  assumes "unat a mod 4096 = 0" "unat sz \<le> 2 ^ 47"
  shows "a < sz \<longleftrightarrow> vpn a < pages sz" "a < sz \<Longrightarrow> uaddr a"
proof -
  obtain q where q: "unat a = 4096 * q" using assms(1) by (metis mod_0_imp_dvd dvdE)
  have "q < (unat sz + 4095) div 4096 \<longleftrightarrow> Suc q * 4096 \<le> unat sz + 4095"
    using less_eq_div_iff_mult_less_eq [of 4096 "Suc q" "unat sz + 4095"] by (simp add: Suc_le_eq)
  then have "unat a < unat sz \<longleftrightarrow> unat a div 4096 < (unat sz + 4095) div 4096" unfolding q by auto
  then show "a < sz \<longleftrightarrow> vpn a < pages sz" by (simp add: word_less_nat_alt vpn_def pages_def)
  show "a < sz \<Longrightarrow> uaddr a" using assms(2) by (simp add: word_less_nat_alt uaddr_def)
qed

lemma dealloc_loop_spec:
  assumes "vm_ok use s xs" "use r = Some 4" "unat a mod 4096 = 0" "unat sz \<le> 2 ^ 47"
  shows "\<exists>s' use' xs'. dealloc_loop r a sz s = Some s' \<and> vm_evo use s xs use' s' xs' \<and>
    (\<forall>p. use' p = use p \<or> use p = Some 0 \<and> use' p = None) \<and>
    (\<forall>r'. use r' = Some 4 \<longrightarrow> space s' r' =
       (if r' = r then (\<lambda>m. if vpn a \<le> m \<and> m < pages sz then None else space s r m) else space s r'))"
  using assms(1-3)
proof (induction "pages sz - vpn a" arbitrary: a use s xs rule: less_induct)
  case less
  note below = below_pages [OF less.prems(3) assms(4)]
  show ?case
  proof (cases "a < sz")
    case False
    then have "dealloc_loop r a sz s = Some s" by (subst dealloc_loop.simps) simp
    then show ?thesis using False below(1) less.prems
      by (intro exI [of _ s] exI [of _ use] exI [of _ xs]) (auto simp: vm_evo_refl fun_eq_iff)
  next
    case a: True
    have ua: "uaddr a" by (rule below(2) [OF a])
    note nx = next_page [OF less.prems(3) ua]
    have lk: "walkpgdir r a False s = Some (leaf_of s 4 r a, s)" by (rule walkpgdir_lookup [OF less.prems(1,2) ua])
    have step: "\<exists>s' use' xs'. dealloc_loop r (a + PGSIZE) sz s1 = Some s' \<and> vm_evo use s xs use' s' xs' \<and>
      (\<forall>p. use' p = use p \<or> use p = Some 0 \<and> use' p = None) \<and>
      (\<forall>r'. use r' = Some 4 \<longrightarrow> space s' r' =
       (if r' = r then (\<lambda>m. if vpn a \<le> m \<and> m < pages sz then None else space s r m) else space s r'))"
      if e: "vm_evo use s xs use1 s1 xs1" and u: "\<forall>p. use1 p = use p \<or> use p = Some 0 \<and> use1 p = None"
        and sp: "\<And>r'. use r' = Some 4 \<Longrightarrow> space s1 r' = (if r' = r then (space s r)(vpn a := None) else space s r')" for use1 s1 xs1
    proof -
      have "pages sz - vpn (a + PGSIZE) < pages sz - vpn a" using a below(1) nx(2) by simp
      note lt = this
      have r1: "use1 r' = Some 4 \<longleftrightarrow> use r' = Some 4" for r' by (rule vm_evoD(2) [OF e])
      then have "use1 r = Some 4" using less.prems(2) by simp
      from less.hyps [OF lt vm_evoD(1) [OF e] this nx(3)] obtain s' use' xs' where i: "dealloc_loop r (a + PGSIZE) sz s1 = Some s'" "vm_evo use1 s1 xs1 use' s' xs'"
        "\<forall>p. use' p = use1 p \<or> use1 p = Some 0 \<and> use' p = None"
        "\<forall>r'. use1 r' = Some 4 \<longrightarrow> space s' r' =
          (if r' = r then (\<lambda>m. if vpn (a + PGSIZE) \<le> m \<and> m < pages sz then None else space s1 r m) else space s1 r')"
        by blast
      have "space s' r' = (if r' = r then (\<lambda>m. if vpn a \<le> m \<and> m < pages sz then None else space s r m) else space s r')"
        if "use r' = Some 4" for r'
        using i(4) sp [of r'] sp [of r] that less.prems(2) a below(1) unfolding r1 nx(2)
        by (auto simp: fun_eq_iff Suc_le_eq le_eq_less_or_eq)
      moreover have "\<forall>p. use' p = use p \<or> use p = Some 0 \<and> use' p = None" using u i(3) by metis
      ultimately show ?thesis using i(1) vm_evo_trans [OF e i(2)] by blast
    qed
    show ?thesis
    proof (cases "xlat s r a")
      case None
      have "space s r (vpn a) = None" using space_vpn [OF ua, of s r] None by simp
      then have "\<And>r'. use r' = Some 4 \<Longrightarrow> space s r' = (if r' = r then (space s r)(vpn a := None) else space s r')" by auto
      note st = step [OF vm_evo_refl [OF less.prems(1)] _ this]
      have "dealloc_loop r a sz s = dealloc_loop r (a + PGSIZE) sz s"
        using a None lk by (subst dealloc_loop.simps) (auto simp: xlat_def entry_of_def split: option.splits if_splits)
      then show ?thesis using st by simp
    next
      case (Some e)
      then obtain t i where ti: "leaf_of s 4 r a = Some (t, i)" "present e" "e = pte_at s (t, i)"
        using xlat_slot [OF less.prems(1,2) ua Some] by (metis fst_conv pte_at_def snd_conv)
      obtain k p where p: "p = P2V (pte_addr (pte_at s (t, i)))" "vm_kfree p s = Some (s\<lparr>vm_k := k\<rparr>)" "use p = Some 0"
        "vm_ok (use(p := None)) (set_pte (t, i) 0 (s\<lparr>vm_k := k\<rparr>)) (p # xs)" "freelist_sane k = freelist_sane (vm_k s)"
        "tidy use s \<Longrightarrow> tidy (use(p := None)) (set_pte (t, i) 0 (s\<lparr>vm_k := k\<rparr>))"
        and psp: "\<And>r'. use r' = Some 4 \<Longrightarrow> space (set_pte (t, i) 0 (s\<lparr>vm_k := k\<rparr>)) r' = (if r' = r then (space s r)(vpn a := None) else space s r')"
        using unlink_page [OF less.prems(1,2) ua ti(1)] ti(2,3) by metis
      have "pte_addr e \<noteq> 0" using vm_okD(5) [OF less.prems(1) p(3)] p(1) ti(3) by (auto simp: dm_page_def P2V_def)
      then have "dealloc_loop r a sz s = dealloc_loop r (a + PGSIZE) sz (set_pte (t, i) 0 (s\<lparr>vm_k := k\<rparr>))"
        using a lk ti p(1,2) by (subst dealloc_loop.simps) simp
      moreover have "vm_evo use s xs (use(p := None)) (set_pte (t, i) 0 (s\<lparr>vm_k := k\<rparr>)) (p # xs)"
        using p(3-6) unfolding vm_evo_def by auto
      ultimately show ?thesis using step [OF _ _ psp] p(3) by auto
    qed
  qed
qed

lemma deallocuvm_spec:
  assumes "vm_ok use s xs" "use r = Some 4" "unat oldsz \<le> 2 ^ 47"
  obtains s' use' xs' where "deallocuvm r oldsz newsz s = Some (if newsz \<ge> oldsz then ucast oldsz else ucast newsz, s')"
    "vm_evo use s xs use' s' xs'" "\<forall>p. use' p = use p \<or> use p = Some 0 \<and> use' p = None"
    "\<forall>r'. use r' = Some 4 \<longrightarrow> space s' r' =
       (if r' = r then (\<lambda>m. if pages newsz \<le> m \<and> m < pages oldsz then None else space s r m) else space s r')"
proof (cases "newsz \<ge> oldsz")
  case True
  then have "pages oldsz \<le> pages newsz" by (simp add: pages_def word_le_nat_alt div_le_mono)
  then show ?thesis using True assms by (intro that [of s use xs]) (auto simp: deallocuvm_def vm_evo_refl fun_eq_iff)
next
  case False
  then have "unat newsz \<le> 2 ^ 47" using assms(3) by (simp add: word_le_nat_alt)
  then have u: "unat (pgroundup newsz) = pages newsz * 4096" by (rule unat_pgroundup)
  then have "vpn (pgroundup newsz) = pages newsz" "unat (pgroundup newsz) mod 4096 = 0" by (simp_all add: vpn_def)
  then show ?thesis using dealloc_loop_spec [OF assms(1,2) _ assms(3), of "pgroundup newsz"] False that
    by (auto simp: deallocuvm_def)
qed

text \<open>\<^verbatim>\<open>alloc_loop\<close> gives fresh zeroed pages to the rest of the range, or takes back what it
  has given so far.\<close>

definition alloc_post :: "(u64 \<Rightarrow> nat option) \<Rightarrow> 'a vm_state_scheme \<Rightarrow> u64 list \<Rightarrow> u64 \<Rightarrow> nat \<Rightarrow> nat \<Rightarrow> u64 \<Rightarrow> u32 \<times> 'a vm_state_scheme \<Rightarrow> bool" where
  "alloc_post use s xs r lo from newsz res \<longleftrightarrow> (\<exists>use' xs'. vm_evo use s xs use' (snd res) xs' \<and>
     ((fst res = ucast newsz \<and> (\<forall>r'. use r' = Some 4 \<longrightarrow> space (snd res) r' =
         (if r' = r then (\<lambda>m. if from \<le> m \<and> m < pages newsz then Some (7, zero_page) else space s r m) else space s r'))) \<or>
      (fst res = 0 \<and> length xs < 4 * (pages newsz - from) \<and> (\<forall>r'. use r' = Some 4 \<longrightarrow> space (snd res) r' =
         (if r' = r then (\<lambda>m. if lo \<le> m \<and> m < pages newsz then None else space s r m) else space s r')))))"

lemma vm_kfree_push:
  assumes "vm_ok use s xs" "use n = None" "n \<notin> set xs" "dm_page n" "freelist_sane (vm_k s) n"
  obtains k where "vm_kfree n s = Some (s\<lparr>vm_k := k\<rparr>)" "vm_ok use (s\<lparr>vm_k := k\<rparr>) (n # xs)" "freelist_sane k = freelist_sane (vm_k s)"
    "\<And>r. space (s\<lparr>vm_k := k\<rparr>) r = space s r"
proof -
  obtain k where k: "kfree n (vm_k s) = Some k" "kmem_rep k (n # xs)" "freelist_sane k = freelist_sane (vm_k s)"
    using kmem.free_push [OF vm_okD(1) [OF assms(1)] assms(5,3)] by blast
  have "vm_ok use (s\<lparr>vm_k := k\<rparr>) (n # xs)"
    using assms(1) k(2,3) by (rule vm_ok_kmem) (use assms vm_okD(2,3) [OF assms(1)] in auto)
  moreover have "space (s\<lparr>vm_k := k\<rparr>) r = space s r" for r
    by (rule space_cong) (simp_all add: xlat_data [of "s\<lparr>vm_k := k\<rparr>" s])
  ultimately show ?thesis using k by (intro that [of k]) (simp_all add: vm_kfree_def)
qed

lemma space_kmem [simp]: "space (s\<lparr>vm_k := k\<rparr>) r = space s r"
  by (rule space_cong) (simp_all add: xlat_data [of "s\<lparr>vm_k := k\<rparr>" s])

lemma undo_alloc:
  assumes "vm_ok use s xs" "use r = Some 4" "unat newsz \<le> 2 ^ 47" "pages oldsz < pages newsz"
  obtains s' use' xs' where "deallocuvm r newsz oldsz s = Some (ucast oldsz, s')" "vm_evo use s xs use' s' xs'"
    "\<forall>r'. use r' = Some 4 \<longrightarrow> space s' r' =
       (if r' = r then (\<lambda>m. if pages oldsz \<le> m \<and> m < pages newsz then None else space s r m) else space s r')"
proof -
  have nle: "\<not> oldsz \<ge> newsz"
    using assms(4) div_le_mono [of "unat newsz + 4095" "unat oldsz + 4095" 4096] by (auto simp: pages_def word_le_nat_alt)
  obtain s' use' xs' where d: "deallocuvm r newsz oldsz s = Some (if oldsz \<ge> newsz then ucast newsz else ucast oldsz, s')"
    "vm_evo use s xs use' s' xs'" "\<forall>p. use' p = use p \<or> use p = Some 0 \<and> use' p = None"
    "\<forall>r'. use r' = Some 4 \<longrightarrow> space s' r' =
       (if r' = r then (\<lambda>m. if pages oldsz \<le> m \<and> m < pages newsz then None else space s r m) else space s r')"
    by (rule deallocuvm_spec [OF assms(1-3), of oldsz])
  show ?thesis by (rule that [of s' use' xs']) (use d nle in auto)
qed

lemma alloc_post_step:
  assumes e: "vm_evo use s xs use2 s2 xs2"
    and sp: "\<forall>r'. use r' = Some 4 \<longrightarrow> space s2 r' = (if r' = r then (space s r)(v \<mapsto> (7, zero_page)) else space s r')"
    and post: "alloc_post use2 s2 xs2 r lo (Suc v) newsz res" and v: "v < pages newsz" "lo \<le> v"
    and len: "length xs \<le> length xs2 + 4" and r: "use r = Some 4"
  shows "alloc_post use s xs r lo v newsz res"
proof -
  have roots: "use2 p = Some 4 \<longleftrightarrow> use p = Some 4" for p by (rule vm_evoD(2) [OF e])
  from post obtain use' xs' where p: "vm_evo use2 s2 xs2 use' (snd res) xs'" and
    c: "fst res = ucast newsz \<and> (\<forall>r'. use r' = Some 4 \<longrightarrow> space (snd res) r' =
         (if r' = r then (\<lambda>m. if Suc v \<le> m \<and> m < pages newsz then Some (7, zero_page) else space s2 r m) else space s2 r')) \<or>
       fst res = 0 \<and> length xs2 < 4 * (pages newsz - Suc v) \<and> (\<forall>r'. use r' = Some 4 \<longrightarrow> space (snd res) r' =
         (if r' = r then (\<lambda>m. if lo \<le> m \<and> m < pages newsz then None else space s2 r m) else space s2 r'))"
    unfolding alloc_post_def roots by blast
  have n: "pages newsz - v = Suc (pages newsz - Suc v)" using v(1) by simp
  have s2: "space s2 r = (space s r)(v \<mapsto> (7, zero_page))" "\<forall>r'. use r' = Some 4 \<longrightarrow> r' \<noteq> r \<longrightarrow> space s2 r' = space s r'"
    using sp r by auto
  have "fst res = ucast newsz \<and> (\<forall>r'. use r' = Some 4 \<longrightarrow> space (snd res) r' =
         (if r' = r then (\<lambda>m. if v \<le> m \<and> m < pages newsz then Some (7, zero_page) else space s r m) else space s r')) \<or>
       fst res = 0 \<and> length xs < 4 * (pages newsz - v) \<and> (\<forall>r'. use r' = Some 4 \<longrightarrow> space (snd res) r' =
         (if r' = r then (\<lambda>m. if lo \<le> m \<and> m < pages newsz then None else space s r m) else space s r'))"
    using c
  proof
    assume c1: "fst res = ucast newsz \<and> (\<forall>r'. use r' = Some 4 \<longrightarrow> space (snd res) r' =
         (if r' = r then (\<lambda>m. if Suc v \<le> m \<and> m < pages newsz then Some (7, zero_page) else space s2 r m) else space s2 r'))"
    have "(\<lambda>m. if Suc v \<le> m \<and> m < pages newsz then Some (7, zero_page) else space s2 r m) =
        (\<lambda>m. if v \<le> m \<and> m < pages newsz then Some (7, zero_page) else space s r m)"
      using v(1) by (auto simp: fun_eq_iff s2(1) Suc_le_eq)
    then show ?thesis using c1 s2(2) by simp
  next
    assume c2: "fst res = 0 \<and> length xs2 < 4 * (pages newsz - Suc v) \<and> (\<forall>r'. use r' = Some 4 \<longrightarrow> space (snd res) r' =
         (if r' = r then (\<lambda>m. if lo \<le> m \<and> m < pages newsz then None else space s2 r m) else space s2 r'))"
    have "(\<lambda>m. if lo \<le> m \<and> m < pages newsz then None else space s2 r m) =
        (\<lambda>m. if lo \<le> m \<and> m < pages newsz then None else space s r m)"
      using v by (auto simp: fun_eq_iff s2(1))
    then show ?thesis using c2 s2(2) len n by simp
  qed
  then show ?thesis unfolding alloc_post_def using vm_evo_trans [OF e p] by blast
qed

lemma alloc_loop_spec:
  assumes "vm_ok use s xs" "use r = Some 4" "unat a mod 4096 = 0" "unat newsz \<le> 2 ^ 47" "pages oldsz \<le> vpn a"
    "\<forall>m. vpn a \<le> m \<longrightarrow> m < pages newsz \<longrightarrow> space s r m = None"
  shows "\<exists>res. alloc_loop r a oldsz newsz s = Some res \<and> alloc_post use s xs r (pages oldsz) (vpn a) newsz res"
  using assms(1-3,5,6)
proof (induction "pages newsz - vpn a" arbitrary: a use s xs rule: less_induct)
  case less
  note below = below_pages [OF less.prems(3) assms(4)]
  show ?case
  proof (cases "a < newsz")
    case False
    then have "alloc_loop r a oldsz newsz s = Some (ucast newsz, s)" by (subst alloc_loop.simps) simp
    then show ?thesis using False below(1) vm_evo_refl [OF less.prems(1)]
      by (intro exI [of _ "(ucast newsz, s)"]) (auto simp: alloc_post_def fun_eq_iff)
  next
    case a: True
    have ua: "uaddr a" by (rule below(2) [OF a])
    note nx = next_page [OF less.prems(3) ua]
    have fr: "vpn a < pages newsz" using a below(1) by simp
    have lt: "pages oldsz < pages newsz" using fr less.prems(4) by simp
    show ?thesis
    proof (cases xs)
      case Nil
      obtain s' use' xs' where d: "deallocuvm r newsz oldsz s = Some (ucast oldsz, s')" "vm_evo use s xs use' s' xs'"
        "\<forall>r'. use r' = Some 4 \<longrightarrow> space s' r' =
         (if r' = r then (\<lambda>m. if pages oldsz \<le> m \<and> m < pages newsz then None else space s r m) else space s r')"
        by (rule undo_alloc [OF less.prems(1,2) assms(4) lt])
      have "alloc_loop r a oldsz newsz s = Some (0, s')"
        using a vm_ok_kalloc(1) [OF less.prems(1) Nil] d(1) by (subst alloc_loop.simps) simp
      then show ?thesis using d(2,3) Nil fr by (intro exI [of _ "(0, s')"]) (auto simp: alloc_post_def)
    next
      case (Cons n ys)
      obtain k where k: "vm_kalloc s = Some (n, s\<lparr>vm_k := k\<rparr>)" "vm_ok use (s\<lparr>vm_k := k\<rparr>) ys"
          "freelist_sane k = freelist_sane (vm_k s)"
        and n: "use n = None" "n \<notin> set ys" "dm_page n" "freelist_sane k n" "n \<noteq> 0"
        using vm_ok_kalloc(2) [OF less.prems(1) Cons] by blast
      let ?s1 = "set_page n zero_page (s\<lparr>vm_k := k\<rparr>)"
      have ok1: "vm_ok use ?s1 ys" by (rule unused_page(1) [OF k(2) n(1)])
      have sp1: "space ?s1 r' = space s r'" if "use r' = Some 4" for r'
        using unused_page(2) [OF k(2) n(1) that] by simp
      have td1: "tidy use ?s1 \<longleftrightarrow> tidy use s" by (rule tidy_cong) simp
      have free: "space ?s1 r (vpn a) = None" using less.prems(5) fr sp1 [OF less.prems(2)] by simp
      have f6: "unat (6 OR PTE_P) < 4096" "6 AND PTE_PS = 0" by simp_all
      have n1: "freelist_sane (vm_k ?s1) n" "length (vm_data ?s1 n) = 4096" using n(4) by (simp_all add: zero_page_def)
      obtain b s2 use2 xs2 where m: "mappages r a 4096 (V2P n) 6 ?s1 = Some (b, s2)" "vm_ok use2 s2 xs2"
        "freelist_sane (vm_k s2) = freelist_sane (vm_k ?s1)" "vm_data s2 = vm_data ?s1"
        "n \<notin> set xs2" "use2 n = (if b then Some 0 else None)" "dom use2 \<union> set xs2 \<union> {n} = dom use \<union> set ys \<union> {n}"
        "\<forall>p. use2 p = Some 4 \<longleftrightarrow> use p = Some 4"
        "tidy use ?s1 \<longrightarrow> tidy use2 s2" "length ys \<le> length xs2 + 3" "\<not> b \<longrightarrow> xs2 = [] \<and> length ys < 3"
        and msp: "\<forall>r'. use r' = Some 4 \<longrightarrow> space s2 r' =
          (if b \<and> r' = r then (space ?s1 r)(vpn a \<mapsto> (6 OR PTE_P, vm_data ?s1 n)) else space ?s1 r')"
        by (rule mappages_page [OF ok1 less.prems(2) ua less.prems(3) free n(1-3) n1 f6])
      have r2: "use2 r = Some 4" using m(8) less.prems(2) by simp
      show ?thesis
      proof (cases b)
        case True
        have "n \<in> dom use2" using m(6) True by auto
        then have e: "vm_evo use s xs use2 s2 xs2" using m(2,3,7-9) k(3) Cons td1 unfolding vm_evo_def by (auto simp: insert_absorb)
        have sp2: "space s2 r' = (if r' = r then (space s r)(vpn a \<mapsto> (7, zero_page)) else space s r')" if "use r' = Some 4" for r'
          using msp sp1 that less.prems(2) True by simp
        have "\<forall>m. vpn (a + PGSIZE) \<le> m \<longrightarrow> m < pages newsz \<longrightarrow> space s2 r m = None"
          using less.prems(2,5) sp2 [of r] nx(2) by simp
        moreover have "pages newsz - vpn (a + PGSIZE) < pages newsz - vpn a" using fr nx(2) by simp
        moreover have "pages oldsz \<le> vpn (a + PGSIZE)" using less.prems(4) nx(2) by simp
        ultimately obtain res where res: "alloc_loop r (a + PGSIZE) oldsz newsz s2 = Some res"
          "alloc_post use2 s2 xs2 r (pages oldsz) (vpn (a + PGSIZE)) newsz res"
          using less.hyps [OF _ m(2) r2 nx(3)] by blast
        have "alloc_loop r a oldsz newsz s = Some res"
          using a k(1) n(5) m(1) True res(1) by (subst alloc_loop.simps) simp
        moreover have "alloc_post use s xs r (pages oldsz) (vpn a) newsz res"
          by (rule alloc_post_step [OF e _ res(2) [unfolded nx(2)] fr]) (use sp2 m(10) Cons less.prems(2,4) in auto)
        ultimately show ?thesis by blast
      next
        case False
        obtain s3 use3 xs3 where d: "deallocuvm r newsz oldsz s2 = Some (ucast oldsz, s3)" "vm_evo use2 s2 xs2 use3 s3 xs3"
          "\<forall>r'. use2 r' = Some 4 \<longrightarrow> space s3 r' =
           (if r' = r then (\<lambda>m. if pages oldsz \<le> m \<and> m < pages newsz then None else space s2 r m) else space s2 r')"
          by (rule undo_alloc [OF m(2) r2 assms(4) lt])
        have "n \<notin> dom use3 \<union> set xs3" using d(2) m(5,6) False by (auto simp: vm_evo_def)
        then have n3: "use3 n = None" "n \<notin> set xs3" by auto
        have "freelist_sane (vm_k s3) n" using d(2) m(3) n(4) by (simp add: vm_evo_def)
        then obtain k4 where k4: "vm_kfree n s3 = Some (s3\<lparr>vm_k := k4\<rparr>)" "vm_ok use3 (s3\<lparr>vm_k := k4\<rparr>) (n # xs3)"
          "freelist_sane k4 = freelist_sane (vm_k s3)" using vm_kfree_push [OF vm_evoD(1) [OF d(2)] n3 n(3)] by metis
        have "vm_evo use s xs use3 (s3\<lparr>vm_k := k4\<rparr>) (n # xs3)"
          using k4(2,3) d(2) m(3,7-9) k(3) Cons td1 tidy_cong [of use3 "s3\<lparr>vm_k := k4\<rparr>" s3] unfolding vm_evo_def by auto
        moreover have "alloc_loop r a oldsz newsz s = Some (0, s3\<lparr>vm_k := k4\<rparr>)"
          using a k(1) n(5) m(1) False d(1) k4(1) by (subst alloc_loop.simps) simp
        moreover have "length xs < 4 * (pages newsz - vpn a)" using m(11) False Cons fr by auto
        ultimately show ?thesis using d(3) msp sp1 m(8) False less.prems(2)
          by (intro exI [of _ "(0, s3\<lparr>vm_k := k4\<rparr>)"]) (auto simp: alloc_post_def fun_eq_iff)
      qed
    qed
  qed
qed

lemma allocuvm_core:
  assumes "vm_ok use s xs" "use r = Some 4" "unat newsz \<le> 2 ^ 47" "oldsz \<le> newsz"
    "\<forall>m. pages oldsz \<le> m \<and> m < pages newsz \<longrightarrow> space s r m = None"
  shows "\<exists>res. allocuvm r oldsz newsz s = Some res \<and> alloc_post use s xs r (pages oldsz) (pages oldsz) newsz res"
proof -
  have "unat oldsz \<le> 2 ^ 47" using assms(3,4) by (simp add: word_le_nat_alt)
  then have u: "unat (pgroundup oldsz) = pages oldsz * 4096" by (rule unat_pgroundup)
  have "vpn (pgroundup oldsz) = pages oldsz" "unat (pgroundup oldsz) mod 4096 = 0" using u by (simp_all add: vpn_def)
  moreover have "\<not> newsz \<ge> KERNBASE" "\<not> newsz < oldsz" using assms(3,4) by (auto simp: word_le_nat_alt not_less)
  ultimately show ?thesis using alloc_loop_spec [OF assms(1,2) _ assms(3), of "pgroundup oldsz" oldsz] assms(5)
    by (simp add: allocuvm_def)
qed

section \<open>Freeing an address space\<close>

definition orphan :: "(u64 \<Rightarrow> nat option) \<Rightarrow> 'a vm_state_scheme \<Rightarrow> u64 \<Rightarrow> bool" where
  "orphan use s c \<longleftrightarrow> (\<forall>t i l. slot use s t i l \<longrightarrow> child s t i \<noteq> c)"

lemma slot_mono: "\<forall>p. use' p = use p \<or> use' p = None \<Longrightarrow> slot use' s t i l \<Longrightarrow> slot use s t i l"
  unfolding slot_def by (metis option.distinct(1))

lemma orphan_mono: "orphan use s c \<Longrightarrow> \<forall>p. use' p = use p \<or> use' p = None \<Longrightarrow> orphan use' s c"
  unfolding orphan_def using slot_mono by metis

lemma detach:
  assumes ok: "vm_ok use s xs" and c: "orphan use s c"
  shows "vm_ok (use(c := None)) s xs"
    "slot use s c i l \<Longrightarrow> orphan (use(c := None)) s (child s c i)"
proof -
  let ?use = "use(c := None)"
  have sl: "slot ?use s t i l \<longleftrightarrow> slot use s t i l \<and> t \<noteq> c" for t i l by (auto simp: slot_def)
  show "vm_ok ?use s xs"
    unfolding vm_ok_def sl
  proof (intro conjI allI impI ballI)
    fix p l assume p: "?use p = Some l"
    then show "freelist_sane (vm_k s) p" "dm_page p" "l = 0 \<Longrightarrow> length (vm_data s p) = 4096"
      using vm_okD(4-6) [OF ok, of p] by (auto split: if_splits)
  next
    fix t i l assume "slot use s t i l \<and> t \<noteq> c"
    then show "\<not> large (vm_pte s t i)" "?use (child s t i) = Some l"
      using vm_okD(7,8) [OF ok, of t i l] c by (auto simp: orphan_def)
  qed (use vm_okD [OF ok] in \<open>auto simp: fun_upd_def\<close>)
  show "orphan ?use s (child s c i)" if "slot use s c i l"
    unfolding orphan_def sl using vm_okD(9) [OF ok that] by metis
qed

text \<open>A set of pages was given back, each of them \<open>cs\<close> or below one.\<close>

definition gave_back :: "u64 set \<Rightarrow> (u64 \<Rightarrow> nat option) \<Rightarrow> 'a vm_state_scheme \<Rightarrow> u64 list \<Rightarrow> (u64 \<Rightarrow> nat option) \<Rightarrow> kstate \<Rightarrow> u64 list \<Rightarrow> bool" where
  "gave_back cs use s xs use' k xs' \<longleftrightarrow> vm_ok use' (s\<lparr>vm_k := k\<rparr>) xs' \<and> freelist_sane k = freelist_sane (vm_k s) \<and>
     dom use' \<union> set xs' = dom use \<union> set xs \<and>
     (\<forall>p. use' p = use p \<or> use' p = None \<and> (p \<in> cs \<or> \<not> orphan use s p) \<and> use p \<in> {Some 1, Some 2, Some 3}) \<and>
     (\<forall>c\<in>cs. use' c = None)"

lemma kmem_simps [simp]:
  "child (s\<lparr>vm_k := k\<rparr>) = child s" "slot use (s\<lparr>vm_k := k\<rparr>) = slot use s" "orphan use (s\<lparr>vm_k := k\<rparr>) = orphan use s"
  by (auto simp: child_def slot_def orphan_def fun_eq_iff)

text \<open>Pages that lost their entry are expected in \<open>O'\<close>.\<close>

definition tidy_but :: "u64 set \<Rightarrow> (u64 \<Rightarrow> nat option) \<Rightarrow> 'a vm_state_scheme \<Rightarrow> bool" where
  "tidy_but O' use s \<longleftrightarrow> (\<forall>p l. use p = Some l \<longrightarrow> l \<le> 4 \<and> (l = 4 \<or> p \<in> O' \<or> (\<exists>t i. slot use s t i l \<and> child s t i = p)))"

lemma tidy_but_empty: "tidy_but {} use s \<longleftrightarrow> tidy use s"
  by (simp add: tidy_but_def tidy_def)

lemma tidy_but_kmem [simp]: "tidy_but O' use (s\<lparr>vm_k := k\<rparr>) = tidy_but O' use s"
  by (simp add: tidy_but_def)

text \<open>No user page is left below a table of level \<open>l\<close>.\<close>

fun bare :: "'a vm_state_scheme \<Rightarrow> nat \<Rightarrow> u64 \<Rightarrow> bool" where
  "bare s 0 t = True"
| "bare s (Suc l) t = (\<forall>i<512. present (vm_pte s t i) \<longrightarrow> l \<noteq> 0 \<and> bare s l (child s t i))"

lemma bare_kmem [simp]: "bare (s\<lparr>vm_k := k\<rparr>) l t = bare s l t"
  by (induction l arbitrary: t) simp_all

definition kids :: "'a vm_state_scheme \<Rightarrow> u64 \<Rightarrow> nat list \<Rightarrow> u64 set" where
  "kids s c is = {child s c i |i. i \<in> set is \<and> present (vm_pte s c i)}"

lemma gave_backD:
  assumes "gave_back cs use s xs use' k xs'"
  shows "vm_ok use' (s\<lparr>vm_k := k\<rparr>) xs'" "freelist_sane k = freelist_sane (vm_k s)" "dom use' \<union> set xs' = dom use \<union> set xs"
    "\<forall>p. use' p = use p \<or> use' p = None" "c \<in> cs \<Longrightarrow> use' c = None"
    "p \<notin> cs \<Longrightarrow> orphan use s p \<Longrightarrow> use' p = use p" "use p \<notin> {Some 1, Some 2, Some 3} \<Longrightarrow> use' p = use p"
proof -
  have *: "\<forall>p. use' p = use p \<or> use' p = None \<and> (p \<in> cs \<or> \<not> orphan use s p) \<and> use p \<in> {Some 1, Some 2, Some 3}"
    using assms by (simp add: gave_back_def)
  then show "\<forall>p. use' p = use p \<or> use' p = None" by metis
  show "p \<notin> cs \<Longrightarrow> orphan use s p \<Longrightarrow> use' p = use p" "use p \<notin> {Some 1, Some 2, Some 3} \<Longrightarrow> use' p = use p"
    using * [rule_format, of p] by auto
qed (use assms in \<open>simp_all add: gave_back_def\<close>)

lemma gave_back_trans:
  assumes a: "gave_back A use s xs use1 k1 xs1" and b: "gave_back B use1 (s\<lparr>vm_k := k1\<rparr>) xs1 use2 k2 xs2"
  shows "gave_back (A \<union> B) use s xs use2 k2 xs2"
proof -
  note m = gave_backD(4) [OF a]
  have "use2 p = use p \<or> use2 p = None \<and> (p \<in> A \<union> B \<or> \<not> orphan use s p) \<and> use p \<in> {Some 1, Some 2, Some 3}" for p
  proof -
    have "use1 p = use p \<or> use1 p = None \<and> (p \<in> A \<or> \<not> orphan use s p) \<and> use p \<in> {Some 1, Some 2, Some 3}"
      "use2 p = use1 p \<or> use2 p = None \<and> (p \<in> B \<or> \<not> orphan use1 s p) \<and> use1 p \<in> {Some 1, Some 2, Some 3}"
      using a b unfolding gave_back_def by simp_all
    then show ?thesis using orphan_mono [OF _ m, of s p] by auto
  qed
  moreover have "\<forall>c\<in>A \<union> B. use2 c = None"
  proof
    fix c assume "c \<in> A \<union> B"
    then show "use2 c = None" using gave_backD(5) [OF a, of c] gave_backD(4) [OF b, rule_format, of c] gave_backD(5) [OF b, of c] by auto
  qed
  ultimately show ?thesis using a b unfolding gave_back_def by simp
qed

lemma free_kids:
  fixes s :: "'a vm_state_scheme"
  assumes f: "\<And>use (s :: 'a vm_state_scheme) xs d. vm_ok use s xs \<Longrightarrow> use d = Some l \<Longrightarrow> orphan use s d \<Longrightarrow> bare s l d \<Longrightarrow>
      \<exists>k use' xs'. do_freevm l d s = Some (s\<lparr>vm_k := k\<rparr>) \<and> gave_back {d} use s xs use' k xs' \<and>
        (\<forall>O'. tidy_but (insert d O') use s \<longrightarrow> tidy_but O' use' s)"
    and g: "\<And>i s. vm_pte s = T \<Longrightarrow> i \<in> I \<Longrightarrow> g i s = (if present (vm_pte s c i) then do_freevm l (child s c i) s else Some s)"
  shows "vm_ok use s xs \<Longrightarrow> vm_pte s = T \<Longrightarrow> set is \<subseteq> I \<Longrightarrow> \<forall>i\<in>set is. present (vm_pte s c i) \<longrightarrow> use (child s c i) = Some l \<and> orphan use s (child s c i) \<and> bare s l (child s c i) \<Longrightarrow>
    inj_on (child s c) {i \<in> set is. present (vm_pte s c i)} \<Longrightarrow> distinct is \<Longrightarrow>
    \<exists>k use' xs'. each_entry g is s = Some (s\<lparr>vm_k := k\<rparr>) \<and> gave_back (kids s c is) use s xs use' k xs' \<and>
      (\<forall>O'. tidy_but (kids s c is \<union> O') use s \<longrightarrow> tidy_but O' use' s)"
proof (induction "is" arbitrary: use s xs)
  case Nil
  then show ?case by (intro exI [of _ "vm_k s"] exI [of _ use] exI [of _ xs]) (simp add: gave_back_def kids_def)
next
  case (Cons i js)
  show ?case
  proof (cases "present (vm_pte s c i)")
    case False
    then have k: "kids s c (i # js) = kids s c js" by (auto simp: kids_def)
    have "g i s = Some s" using False g [of s i] Cons.prems(2,3) by simp
    moreover have "inj_on (child s c) {i \<in> set js. present (vm_pte s c i)}" using Cons.prems(5) by (rule inj_on_subset) auto
    ultimately show ?thesis using Cons.IH [OF Cons.prems(1)] Cons.prems(2-4,6) unfolding k by simp
  next
    case True
    let ?d = "child s c i"
    have d: "use ?d = Some l" "orphan use s ?d" "bare s l ?d" using Cons.prems(4) True by auto
    obtain k1 use1 xs1 where s1: "do_freevm l ?d s = Some (s\<lparr>vm_k := k1\<rparr>)" "gave_back {?d} use s xs use1 k1 xs1"
      "\<forall>O'. tidy_but (insert ?d O') use s \<longrightarrow> tidy_but O' use1 s" using f [of use s xs ?d] Cons.prems(1) d by blast
    have k: "kids s c (i # js) = insert ?d (kids s c js)" using True by (auto simp: kids_def)
    note m = gave_backD(4) [OF s1(2)] and ok1 = gave_backD(1) [OF s1(2)]
    have rest: "use1 (child s c j) = Some l \<and> orphan use1 s (child s c j) \<and> bare s l (child s c j)"
      if j: "j \<in> set js" "present (vm_pte s c j)" for j
    proof -
      have "use (child s c j) = Some l" and oj: "orphan use s (child s c j)" and "bare s l (child s c j)"
        using Cons.prems(4) j by auto
      moreover have "child s c j \<noteq> ?d" using inj_onD [OF Cons.prems(5), of j i] j True Cons.prems(6) by auto
      ultimately show ?thesis using gave_backD(6) [OF s1(2) _ oj] orphan_mono [OF oj m] by simp
    qed
    have "inj_on (child s c) {i \<in> set js. present (vm_pte s c i)}" using Cons.prems(5) by (rule inj_on_subset) auto
    then obtain k2 use2 xs2 where s2: "each_entry g js (s\<lparr>vm_k := k1\<rparr>) = Some (s\<lparr>vm_k := k2\<rparr>)"
      "gave_back (kids s c js) use1 (s\<lparr>vm_k := k1\<rparr>) xs1 use2 k2 xs2"
      "\<forall>O'. tidy_but (kids s c js \<union> O') use1 s \<longrightarrow> tidy_but O' use2 s"
      using Cons.IH [OF ok1] rest Cons.prems(2,3,6) by (auto simp: kids_def)
    have "each_entry g (i # js) s = Some (s\<lparr>vm_k := k2\<rparr>)" using s1(1) s2(1) g [of s i] True Cons.prems(2,3) by simp
    moreover have "gave_back (kids s c (i # js)) use s xs use2 k2 xs2" using gave_back_trans [OF s1(2) s2(2)] unfolding k by simp
    moreover have "\<forall>O'. tidy_but (kids s c (i # js) \<union> O') use s \<longrightarrow> tidy_but O' use2 s"
      using s1(3) s2(3) unfolding k by simp
    ultimately show ?thesis by blast
  qed
qed

lemma detach_tidy:
  assumes ok: "vm_ok use s xs" and td: "tidy_but (insert c O') use s" and c: "use c = Some (Suc l)" "l \<le> 3"
  shows "tidy_but (kids s c [0..<if l = 3 then 256 else 512] \<union> O') (use(c := None)) s"
  unfolding tidy_but_def
proof (intro allI impI)
  fix p m assume p: "(use(c := None)) p = Some m"
  then have u: "use p = Some m" "p \<noteq> c" by (auto split: if_splits)
  have "slot (use(c := None)) s t i m \<or> p \<in> kids s c [0..<if l = 3 then 256 else 512]"
    if "slot use s t i m" "child s t i = p" for t i
    using that c by (cases "t = c") (auto simp: slot_def kids_def)
  then show "m \<le> 4 \<and> (m = 4 \<or> p \<in> kids s c [0..<if l = 3 then 256 else 512] \<union> O' \<or>
      (\<exists>t i. slot (use(c := None)) s t i m \<and> child s t i = p))"
    using td u unfolding tidy_but_def by (metis Un_iff insert_iff)
qed

lemma kid_slots:
  assumes ok: "vm_ok use s xs" and c: "use c = Some (Suc l)" "orphan use s c" and i: "i < (if l = 3 then 256 else 512)" "present (vm_pte s c i)"
  shows "\<not> large (vm_pte s c i)" "(use(c := None)) (child s c i) = Some l" "orphan (use(c := None)) s (child s c i)"
proof -
  have sl: "slot use s c i l" using c i by (simp add: slot_def)
  show "\<not> large (vm_pte s c i)" by (rule vm_okD(7) [OF ok sl])
  show "(use(c := None)) (child s c i) = Some l" using vm_okD(8) [OF ok sl] c by auto
  show "orphan (use(c := None)) s (child s c i)" by (rule detach(2) [OF ok c(2) sl])
qed

lemma kids_inj:
  assumes ok: "vm_ok use s xs" and c: "use c = Some (Suc l)"
  shows "inj_on (child s c) {i \<in> set [0..<if l = 3 then 256 else 512]. present (vm_pte s c i)}"
proof (rule inj_onI)
  fix i j assume "i \<in> {i \<in> set [0..<if l = 3 then 256 else 512]. present (vm_pte s c i)}"
    "j \<in> {i \<in> set [0..<if l = 3 then 256 else 512]. present (vm_pte s c i)}" and eq: "child s c i = child s c j"
  then have "slot use s c i l" "slot use s c j l" using c by (auto simp: slot_def split: if_splits)
  then show "i = j" using vm_okD(9) [OF ok _ _ eq] by blast
qed

text \<open>Freeing a table once what is below it is freed.\<close>

lemma free_table:
  assumes ok: "vm_ok use s xs" and c: "use c = Some (Suc l)" "orphan use s c" "l \<le> 3"
    and K: "K = kids s c [0..<if l = 3 then 256 else 512]" and kids: "gave_back K (use(c := None)) s xs use2 k2 xs2"
    and td: "\<forall>O'. tidy_but (K \<union> O') (use(c := None)) s \<longrightarrow> tidy_but O' use2 s"
  obtains k where "vm_kfree c (s\<lparr>vm_k := k2\<rparr>) = Some (s\<lparr>vm_k := k\<rparr>)" "vm_ok use2 (s\<lparr>vm_k := k\<rparr>) (c # xs2)"
    "freelist_sane k = freelist_sane (vm_k s)" "dom use2 \<union> set (c # xs2) = dom use \<union> set xs" "use2 c = None"
    "\<forall>O'. tidy_but (insert c O') use s \<longrightarrow> tidy_but O' use2 s"
    "\<And>p. use2 p = use p \<or> use2 p = None \<and> (p = c \<or> \<not> orphan use s p \<and> use p \<in> {Some 1, Some 2, Some 3})"
proof -
  note gb = gave_backD [OF kids]
  have sub: "\<forall>p. (use(c := None)) p = use p \<or> (use(c := None)) p = None" by simp
  have "c \<notin> set xs" using vm_okD(2) [OF ok, of c] c(1) by auto
  have n2: "use2 c = None" using gb(4) by (metis fun_upd_same)
  then have c2: "c \<notin> set xs2" using gb(3) \<open>c \<notin> set xs\<close> by auto
  have "dm_page c" "freelist_sane (vm_k (s\<lparr>vm_k := k2\<rparr>)) c" using vm_okD(4,5) [OF ok c(1)] gb(2) by simp_all
  then obtain k where k: "vm_kfree c (s\<lparr>vm_k := k2\<rparr>) = Some (s\<lparr>vm_k := k\<rparr>)" "vm_ok use2 (s\<lparr>vm_k := k\<rparr>) (c # xs2)"
    "freelist_sane k = freelist_sane k2" using vm_kfree_push [OF gb(1) n2 c2] by (metis vm_state.select_convs(1) vm_state.surjective vm_state.update_convs(1))
  have "dom use2 \<union> set (c # xs2) = dom use \<union> set xs" using gb(3) c(1) by auto
  moreover have "\<forall>O'. tidy_but (insert c O') use s \<longrightarrow> tidy_but O' use2 s" using td detach_tidy [OF ok _ c(1,3)] unfolding K by blast
  moreover have "use2 p = use p \<or> use2 p = None \<and> (p = c \<or> \<not> orphan use s p \<and> use p \<in> {Some 1, Some 2, Some 3})" for p
  proof (cases "use2 p = use p \<or> p = c")
    case False
    then have "use2 p = None" "use p \<in> {Some 1, Some 2, Some 3}" using gb(4) gb(7) [of p] by (metis fun_upd_other)+
    moreover have "\<not> orphan use s p"
    proof (cases "p \<in> K")
      case True
      then obtain i where "i < (if l = 3 then 256 else 512)" "present (vm_pte s c i)" "p = child s c i" by (auto simp: kids_def K)
      then show ?thesis using c(1) unfolding orphan_def slot_def by blast
    next
      case nk: False
      then show ?thesis using gb(6) [OF nk] orphan_mono [of use s p "use(c := None)"] sub False by (metis fun_upd_other)
    qed
    ultimately show ?thesis by blast
  qed (use n2 in auto)
  ultimately show ?thesis using k gb(2) n2 by (intro that [of k]) auto
qed

lemma do_freevm_spec:
  fixes s :: "'a vm_state_scheme"
  shows "vm_ok use s xs \<Longrightarrow> use c = Some l \<Longrightarrow> 0 < l \<Longrightarrow> l \<le> 3 \<Longrightarrow> orphan use s c \<Longrightarrow> bare s l c \<Longrightarrow>
    \<exists>k use' xs'. do_freevm l c s = Some (s\<lparr>vm_k := k\<rparr>) \<and> gave_back {c} use s xs use' k xs' \<and>
      (\<forall>O'. tidy_but (insert c O') use s \<longrightarrow> tidy_but O' use' s)"
proof (induction l arbitrary: use s xs c)
  case (Suc l)
  let ?use = "use(c := None)" and ?K = "kids s c [0..<if l = 3 then 256 else 512]"
  define g where "g = (\<lambda>i (s :: 'a vm_state_scheme). if present (vm_pte s c i) \<and> Suc l > 1 \<and> \<not> large (vm_pte s c i)
         then do_freevm l (P2V (pte_addr (vm_pte s c i))) s else Some s)"
  have run: "do_freevm (Suc l) c s = do { s \<leftarrow> each_entry g [0..<512] s; vm_kfree c s }" by (simp add: g_def)
  have l3: "l \<noteq> 3" using Suc.prems(4) by simp
  have ok1: "vm_ok ?use s xs" by (rule detach(1) [OF Suc.prems(1,5)])
  have "\<exists>k2 use2 xs2. each_entry g [0..<512] s = Some (s\<lparr>vm_k := k2\<rparr>) \<and> gave_back ?K ?use s xs use2 k2 xs2 \<and>
      (\<forall>O'. tidy_but (?K \<union> O') ?use s \<longrightarrow> tidy_but O' use2 s)"
  proof (cases "l = 0")
    case True
    have "each_entry g is s = Some s" for "is" using True by (induction "is") (simp_all add: g_def)
    moreover have "?K = {}" using Suc.prems(6) True by (auto simp: kids_def)
    ultimately show ?thesis using ok1 by (intro exI [of _ "vm_k s"] exI [of _ ?use] exI [of _ xs]) (simp add: gave_back_def)
  next
    case l: False
    have u: "[0..<if l = 3 then 256 else 512] = [0..<512]" using l3 by simp
    have "g i s' = (if present (vm_pte s' c i) then do_freevm l (child s' c i) s' else Some s')"
      if "vm_pte s' = vm_pte s" "i \<in> {..<512}" for i s'
      using that l l3 kid_slots(1) [OF Suc.prems(1,2,5), of i] by (simp add: g_def child_def)
    note fk = free_kids [where I = "{..<512}" and g = g and T = "vm_pte s", OF _ this ok1 refl]
    show ?thesis unfolding u
    proof (rule fk)
      show "inj_on (child s c) {i \<in> set [0..<512]. present (vm_pte s c i)}"
        using kids_inj [OF Suc.prems(1,2)] unfolding u .
      show "\<forall>i\<in>set [0..<512]. present (vm_pte s c i) \<longrightarrow> ?use (child s c i) = Some l \<and>
          orphan ?use s (child s c i) \<and> bare s l (child s c i)"
        using kid_slots(2,3) [OF Suc.prems(1,2,5)] Suc.prems(6) l3 by simp
    qed (use Suc.IH l Suc.prems(4) in auto)
  qed
  then obtain k2 use2 xs2 where k2: "each_entry g [0..<512] s = Some (s\<lparr>vm_k := k2\<rparr>)" "gave_back ?K ?use s xs use2 k2 xs2"
      "\<forall>O'. tidy_but (?K \<union> O') ?use s \<longrightarrow> tidy_but O' use2 s" by blast
  have "l \<le> 3" using Suc.prems(4) by simp
  then obtain k where k: "vm_kfree c (s\<lparr>vm_k := k2\<rparr>) = Some (s\<lparr>vm_k := k\<rparr>)" "vm_ok use2 (s\<lparr>vm_k := k\<rparr>) (c # xs2)"
    "freelist_sane k = freelist_sane (vm_k s)" "dom use2 \<union> set (c # xs2) = dom use \<union> set xs" "use2 c = None"
    "\<forall>O'. tidy_but (insert c O') use s \<longrightarrow> tidy_but O' use2 s"
    "\<And>p. use2 p = use p \<or> use2 p = None \<and> (p = c \<or> \<not> orphan use s p \<and> use p \<in> {Some 1, Some 2, Some 3})"
    using free_table [OF Suc.prems(1,2,5) _ refl k2(2,3)] by metis
  have "gave_back {c} use s xs use2 k (c # xs2)"
    unfolding gave_back_def
  proof (intro conjI allI)
    fix p
    have "use c \<in> {Some 1, Some 2, Some 3}" using Suc.prems(2-4) by auto
    then show "use2 p = use p \<or> use2 p = None \<and> (p \<in> {c} \<or> \<not> orphan use s p) \<and> use p \<in> {Some 1, Some 2, Some 3}"
      using k(7) [of p] by auto
  qed (use k in simp_all)
  then show ?case using run k2(1) k(1,6) by auto
qed simp

lemma leaf_of_ptx:
  "(\<And>k. 1 \<le> k \<Longrightarrow> k \<le> l \<Longrightarrow> ptx va k = ptx vb k) \<Longrightarrow> leaf_of s l t va = leaf_of s l t vb"
proof (induction l arbitrary: t)
  case (Suc l)
  have "ptx va (Suc l) = ptx vb (Suc l)" "ptx va 1 = ptx vb 1" by (rule Suc.prems; simp)+
  then show ?case using Suc by simp
qed simp

lemma with_index:
  assumes l: "l \<le> 4" and i: "i < 512" "l = 4 \<longrightarrow> i < 256"
  obtains vb where "uaddr vb" "ptx vb l = i" "\<And>k. k < l \<Longrightarrow> ptx vb k = ptx va k"
proof -
  let ?a = "3 + 9 * l"
  let ?n = "unat va mod 2 ^ ?a + i * 2 ^ ?a"
  have "?n < (i + 1) * 2 ^ ?a" by simp
  also have "\<dots> \<le> 2 ^ 47"
  proof (cases "l = 4")
    case True
    then show ?thesis using i by simp
  next
    case False
    then have "?a \<le> 30" using l by simp
    then have "(2 :: nat) ^ ?a \<le> 2 ^ 30" by (rule power_increasing) simp
    then show ?thesis using i(1) mult_le_mono [of "i + 1" 512 "2 ^ ?a" "2 ^ 30"] by simp
  qed
  finally have n: "?n < 2 ^ 47" .
  then have u: "unat (of_nat ?n :: u64) = ?n" by (simp only: unat_of_nat) simp
  have "ptx (of_nat ?n) l = i" unfolding ptx_alt u using i(1) by simp
  moreover have "ptx (of_nat ?n) k = ptx va k" if "k < l" for k
  proof -
    have *: "x div 2 ^ (3 + 9 * k) mod 512 = drop_bit (3 + 9 * k) (take_bit (12 + 9 * k) x)" for x :: nat
      using drop_bit_take_bit [of "3 + 9 * k" "12 + 9 * k" x] by (simp add: take_bit_eq_mod drop_bit_eq_div)
    have "12 + 9 * k \<le> ?a" using that by simp
    then have "take_bit (12 + 9 * k) ?n = take_bit (12 + 9 * k) (take_bit ?a ?n)"
      "take_bit (12 + 9 * k) (unat va) = take_bit (12 + 9 * k) (take_bit ?a (unat va))" by (simp_all add: min_absorb1)
    moreover have "take_bit ?a ?n = take_bit ?a (unat va)" by (simp add: take_bit_eq_mod)
    ultimately show ?thesis unfolding ptx_alt u * by simp
  qed
  ultimately show ?thesis using n u by (intro that [of "of_nat ?n"]) (simp_all add: uaddr_def)
qed

lemma bare_empty:
  assumes ok: "vm_ok use s xs"
  shows "use t = Some l \<Longrightarrow> l \<le> 3 \<Longrightarrow> (\<And>va. uaddr va \<Longrightarrow> entry_of s (leaf_of s l t va) = None) \<Longrightarrow> bare s l t"
proof (induction l arbitrary: t)
  case (Suc l)
  have "l \<noteq> 0 \<and> bare s l (child s t i)" if i: "i < 512" "present (vm_pte s t i)" for i
  proof
    have sl: "slot use s t i l" using Suc.prems(1,2) i by (simp add: slot_def)
    have pick: "\<exists>vb. uaddr vb \<and> ptx vb (Suc l) = i \<and> leaf_of s l u vb = leaf_of s l u va" for va u
    proof -
      have "Suc l \<le> 4" "Suc l = 4 \<longrightarrow> i < 256" using Suc.prems(2) by simp_all
      then obtain vb where vb: "uaddr vb" "ptx vb (Suc l) = i" "\<And>k. k < Suc l \<Longrightarrow> ptx vb k = ptx va k"
        using with_index [of "Suc l" i va] i(1) by metis
      then show ?thesis using leaf_of_ptx [of l vb va] by auto
    qed
    show l: "l \<noteq> 0"
    proof
      assume l0: "l = 0"
      obtain vb where "uaddr vb" "ptx vb (Suc l) = i" using pick by blast
      then show False using Suc.prems(3) [of vb] i(2) l0 by (simp add: entry_of_def pte_at_def)
    qed
    have "entry_of s (leaf_of s l (child s t i) va) = None" if "uaddr va" for va
    proof -
      obtain vb where vb: "uaddr vb" "ptx vb (Suc l) = i" "leaf_of s l (child s t i) vb = leaf_of s l (child s t i) va"
        using pick by blast
      then show ?thesis using Suc.prems(3) [OF vb(1)] i(2) l by simp
    qed
    then show "bare s l (child s t i)" using vm_okD(8) [OF ok sl] Suc.prems(2) by (intro Suc.IH) simp_all
  qed
  then show ?case by simp
qed simp

lemma root_kid_bare:
  assumes ok: "vm_ok use s xs" and r: "use r = Some 4" "space s r = (\<lambda>m. None)" and i: "i < 256" "present (vm_pte s r i)"
  shows "bare s 3 (child s r i)"
proof (rule bare_empty [OF ok])
  have "slot use s r i 3" using r i by (simp add: slot_def)
  then show "use (child s r i) = Some 3" by (rule vm_okD(8) [OF ok])
  fix va assume "uaddr va"
  obtain vb where vb: "uaddr vb" "ptx vb 4 = i" "\<And>k. k < 4 \<Longrightarrow> ptx vb k = ptx va k"
    using with_index [of 4 i va] i(1) by auto
  have "leaf_of s 4 r vb = leaf_of s 3 (child s r i) vb" using vb(2) i(2) by (simp add: numeral_eq_Suc)
  also have "\<dots> = leaf_of s 3 (child s r i) va" using vb(3) by (intro leaf_of_ptx) simp
  finally have "xlat s r vb = entry_of s (leaf_of s 3 (child s r i) va)" by (simp add: xlat_def)
  moreover have "xlat s r vb = None" using space_vpn [OF vb(1), of s r] r(2) by simp
  ultimately show "entry_of s (leaf_of s 3 (child s r i) va) = None" by simp
qed simp

lemma freevm_spec:
  fixes s :: "'a vm_state_scheme"
  assumes ok: "vm_ok use s xs" "tidy use s" and r: "use r = Some 4" "unat utop \<le> 2 ^ 47" "\<forall>m. pages utop \<le> m \<longrightarrow> space s r m = None"
  obtains s' use' xs' where "freevm r utop s = Some s'" "vm_ok use' s' xs'" "tidy use' s'" "dom use' \<union> set xs' = dom use \<union> set xs"
    "freelist_sane (vm_k s') = freelist_sane (vm_k s)"
    "use' r = None" "\<forall>p. p \<noteq> r \<longrightarrow> (use' p = Some 4 \<longleftrightarrow> use p = Some 4)" "\<forall>r'. use r' = Some 4 \<and> r' \<noteq> r \<longrightarrow> space s' r' = space s r'"
proof -
  obtain s1 use1 xs1 where d: "deallocuvm r utop 0 s = Some (if 0 \<ge> utop then ucast utop else ucast (0 :: u64), s1)"
    "vm_evo use s xs use1 s1 xs1" "\<forall>p. use1 p = use p \<or> use p = Some 0 \<and> use1 p = None"
    "\<forall>r'. use r' = Some 4 \<longrightarrow> space s1 r' =
       (if r' = r then (\<lambda>m. if pages 0 \<le> m \<and> m < pages utop then None else space s r m) else space s r')"
    by (rule deallocuvm_spec [OF ok(1) r(1,2), of 0])
  note ev = vm_evoD [OF d(2)]
  have r1: "use1 r = Some 4" using ev(2) r(1) by simp
  have sp1: "space s1 r = (\<lambda>m. None)" using d(4) r(1,3) by (auto simp: pages_def not_le fun_eq_iff)
  have td1: "tidy use1 s1" by (rule ev(3) [OF ok(2)])
  have orph: "orphan use1 s1 r"
    unfolding orphan_def
  proof (intro allI impI notI)
    fix t i l assume sl: "slot use1 s1 t i l" and "child s1 t i = r"
    then have "use1 t = Some 5" using vm_okD(8) [OF ev(1) sl] r1 by (simp add: slot_def)
    then show False using tidyD [OF td1, of t 5] by simp
  qed
  let ?use = "use1(r := None)" and ?K = "kids s1 r [0..<if (3 :: nat) = 3 then 256 else 512]"
  define g where "g = (\<lambda>i (s :: 'a vm_state_scheme). if present (vm_pte s r i) then do_freevm 3 (P2V (pte_addr (vm_pte s r i))) s else Some s)"
  have u1: "use1 r = Some (Suc 3)" using r1 by simp
  have ok2: "vm_ok ?use s1 xs1" by (rule detach(1) [OF ev(1) orph])
  have "\<exists>k2 use2 xs2. each_entry g [0..<256] s1 = Some (s1\<lparr>vm_k := k2\<rparr>) \<and> gave_back ?K ?use s1 xs1 use2 k2 xs2 \<and>
      (\<forall>O'. tidy_but (?K \<union> O') ?use s1 \<longrightarrow> tidy_but O' use2 s1)"
  proof -
    have u: "[0..<if (3 :: nat) = 3 then 256 else 512] = [0..<256]" by simp
    have "g i s' = (if present (vm_pte s' r i) then do_freevm 3 (child s' r i) s' else Some s')"
      if "vm_pte s' = vm_pte s1" "i \<in> {..<256}" for i s' by (simp add: g_def child_def)
    note fk = free_kids [where I = "{..<256}" and g = g and T = "vm_pte s1", OF _ this ok2 refl]
    show ?thesis unfolding u
    proof (rule fk)
      show "inj_on (child s1 r) {i \<in> set [0..<256]. present (vm_pte s1 r i)}" using kids_inj [OF ev(1) u1] unfolding u .
      show "\<forall>i\<in>set [0..<256]. present (vm_pte s1 r i) \<longrightarrow> ?use (child s1 r i) = Some 3 \<and>
          orphan ?use s1 (child s1 r i) \<and> bare s1 3 (child s1 r i)"
        using kid_slots(2,3) [OF ev(1) u1 orph] root_kid_bare [OF ev(1) r1 sp1] by simp
      show "\<exists>k use' xs'. do_freevm 3 d s = Some (s\<lparr>vm_k := k\<rparr>) \<and> gave_back {d} use s xs use' k xs' \<and>
          (\<forall>O'. tidy_but (insert d O') use s \<longrightarrow> tidy_but O' use' s)"
        if "vm_ok use s xs" "use d = Some 3" "orphan use s d" "bare s 3 d" for use and s :: "'a vm_state_scheme" and xs d
        using do_freevm_spec [OF that(1,2) _ _ that(3,4)] by simp
    qed auto
  qed
  then obtain k2 use2 xs2 where k2: "each_entry g [0..<256] s1 = Some (s1\<lparr>vm_k := k2\<rparr>)" "gave_back ?K ?use s1 xs1 use2 k2 xs2"
      "\<forall>O'. tidy_but (?K \<union> O') ?use s1 \<longrightarrow> tidy_but O' use2 s1" by blast
  obtain k where k: "vm_kfree r (s1\<lparr>vm_k := k2\<rparr>) = Some (s1\<lparr>vm_k := k\<rparr>)" "vm_ok use2 (s1\<lparr>vm_k := k\<rparr>) (r # xs2)"
    "freelist_sane k = freelist_sane (vm_k s1)" "dom use2 \<union> set (r # xs2) = dom use1 \<union> set xs1" "use2 r = None"
    "\<forall>O'. tidy_but (insert r O') use1 s1 \<longrightarrow> tidy_but O' use2 s1"
    "\<And>p. use2 p = use1 p \<or> use2 p = None \<and> (p = r \<or> \<not> orphan use1 s1 p \<and> use1 p \<in> {Some 1, Some 2, Some 3})"
    using free_table [OF ev(1) u1 orph _ refl k2(2,3)] by (metis le_refl)
  have "r \<noteq> 0" using vm_okD(5) [OF ok(1) r(1)] by (auto simp: dm_page_def)
  then have "freevm r utop s = Some (s1\<lparr>vm_k := k\<rparr>)" using d(1) k2(1) k(1) by (simp add: freevm_def g_def)
  moreover have "tidy use2 (s1\<lparr>vm_k := k\<rparr>)"
  proof -
    have "tidy_but (insert r {}) use1 s1" using td1 unfolding tidy_def tidy_but_def by blast
    then show ?thesis using k(6) unfolding tidy_but_empty [symmetric] by simp
  qed
  moreover have "use2 p = Some 4 \<longleftrightarrow> use p = Some 4" if "p \<noteq> r" for p using k(7) [of p] that ev(2) [of p] by auto
  ultimately show ?thesis using k(2-5) ev(4) d(2,4) by (intro that [of "s1\<lparr>vm_k := k\<rparr>" use2 "r # xs2"]) (auto simp: vm_evo_def)
qed

section \<open>Copying an address space\<close>

lemma leaf_of_used:
  assumes ok: "vm_ok use s xs" and same: "\<And>p. use p \<noteq> None \<Longrightarrow> vm_pte s' p = vm_pte s p"
    and va: "uaddr va"
  shows "use t = Some l \<Longrightarrow> l \<le> 4 \<Longrightarrow> leaf_of s' l t va = leaf_of s l t va"
proof (induction l arbitrary: t)
  case (Suc l)
  have t: "vm_pte s' t = vm_pte s t" using Suc.prems same by simp
  show ?case
  proof (cases "l = 0 \<or> \<not> present (vm_pte s t (ptx va (Suc l)))")
    case False
    then have "use (child s t (ptx va (Suc l))) = Some l"
      using Suc.prems va by (intro vm_okD(8) [OF ok] uaddr_slot) auto
    then show ?thesis using False t Suc.IH [of "child s t (ptx va (Suc l))"] Suc.prems by (simp add: child_def)
  qed (auto simp: t)
qed simp

lemma space_used:
  assumes ok: "vm_ok use s xs" and same: "\<And>p. use p \<noteq> None \<Longrightarrow> vm_pte s' p = vm_pte s p" "\<And>p. use p = Some 0 \<Longrightarrow> vm_data s' p = vm_data s p"
    and r: "use r = Some 4"
  shows "space s' r = space s r"
proof (rule space_cong)
  fix va assume va: "uaddr va"
  have l: "leaf_of s' 4 r va = leaf_of s 4 r va" by (rule leaf_of_used [OF ok same(1) va r]) simp_all
  have "use (fst x) = Some 1" if "leaf_of s 4 r va = Some x" for x using leaf_of_level [OF ok r _ va that] by simp
  then show "xlat s' r va = xlat s r va"
    using same(1) unfolding xlat_def l by (auto simp: entry_of_def pte_at_def split: option.splits)
  show "vm_data s' (P2V (pte_addr e)) = vm_data s (P2V (pte_addr e))" if "xlat s r va = Some e" for e
    using xlat_slot [OF ok r va that] same(2) by metis
qed

lemma leaf_of_root:
  "leaf_of s 4 r va = (if present (vm_pte s r (ptx va 4)) then leaf_of s 3 (child s r (ptx va 4)) va else None)"
  by (simp add: numeral_eq_Suc)

lemma setupkvm_spec:
  assumes ok: "vm_ok use s xs"
  shows "xs = [] \<Longrightarrow> setupkvm s = Some (0, s)"
    "xs = n # ys \<Longrightarrow> \<exists>s'. setupkvm s = Some (n, s') \<and> n \<noteq> 0 \<and> use n = None \<and> vm_ok (use(n := Some 4)) s' ys \<and>
       freelist_sane (vm_k s') = freelist_sane (vm_k s) \<and> (tidy use s \<longrightarrow> tidy (use(n := Some 4)) s') \<and> space s' n = (\<lambda>m. None) \<and>
       (\<forall>r. use r = Some 4 \<longrightarrow> space s' r = space s r) \<and> (\<forall>i. 256 \<le> i \<and> i < 512 \<longrightarrow> vm_pte s' n i = vm_pte s (kpgdir s) i)"
proof -
  show "setupkvm s = Some (0, s)" if "xs = []" using vm_ok_kalloc(1) [OF ok that] by (simp add: setupkvm_def)
  assume xs: "xs = n # ys"
  obtain k where k: "vm_kalloc s = Some (n, s\<lparr>vm_k := k\<rparr>)" "vm_ok use (s\<lparr>vm_k := k\<rparr>) ys"
      "freelist_sane k = freelist_sane (vm_k s)"
    and n: "use n = None" "n \<notin> set ys" "dm_page n" "freelist_sane k n" "n \<noteq> 0"
    using vm_ok_kalloc(2) [OF ok xs] by blast
  let ?row = "\<lambda>i. if 256 \<le> i \<and> i < 512 then vm_pte s (kpgdir s) i else 0"
  let ?s = "s\<lparr>vm_k := k, vm_pte := (vm_pte s)(n := ?row)\<rparr>" and ?use = "use(n := Some 4)"
  have run: "setupkvm s = Some (n, ?s)" using k(1) n(5) by (simp add: setupkvm_def fun_upd_def cong: if_cong)
  have row: "\<not> present (vm_pte ?s n i)" if "i < 256" for i using that by (simp add: present_def)
  have sl: "slot ?use ?s t i l \<longleftrightarrow> slot use s t i l" for t i l
    using n(1) by (auto simp: slot_def present_def)
  have ch: "vm_pte ?s t i = vm_pte s t i" "child ?s t i = child s t i" "child s t i \<noteq> n" if "slot use s t i l" for t i l
    using that n(1) vm_okD(8) [OF ok that] by (auto simp: slot_def child_def)
  have "vm_ok ?use ?s ys"
    unfolding vm_ok_def sl
  proof (intro conjI allI impI ballI)
    show "kmem_rep (vm_k ?s) ys" using vm_okD(1) [OF k(2)] by simp
    fix x assume "x \<in> set ys"
    then show "?use x = None" "dm_page x" using n(2) vm_okD(2,3) [OF k(2), of x] by auto
  next
    fix p l assume "?use p = Some l"
    then show "freelist_sane (vm_k ?s) p" "dm_page p" "l = 0 \<Longrightarrow> length (vm_data ?s p) = 4096"
      using vm_okD(4-6) [OF k(2), of p] n by (auto split: if_splits)
  next
    fix t i l assume a: "slot use s t i l"
    show "\<not> large (vm_pte ?s t i)" "?use (child ?s t i) = Some l" using ch [OF a] vm_okD(7,8) [OF ok a] by auto
    fix t' i' l' assume b: "slot use s t' i' l'" "child ?s t i = child ?s t' i'"
    then show "t = t'" "i = i'" using ch(2) [OF a] ch(2) [OF b(1)] vm_okD(9) [OF ok a b(1)] by auto
  qed
  moreover have "tidy ?use ?s" if "tidy use s"
    unfolding tidy_def sl
  proof (intro allI impI)
    fix p l assume "?use p = Some l"
    then show "l \<le> 4 \<and> (l = 4 \<or> (\<exists>t i. slot use s t i l \<and> child ?s t i = p))"
      using tidyD [OF that, of p l] ch(2) by (auto split: if_splits) metis
  qed
  moreover have "space ?s n = (\<lambda>m. None)"
  proof
    fix m
    have "xlat ?s n va = None" if "uaddr va" for va
      using row [OF uaddr_ptx4 [OF that]] by (simp add: xlat_def leaf_of_root)
    then show "space ?s n m = None" using vpn_page(2) [of m] by (simp add: space_def)
  qed
  moreover have "space ?s r = space s r" if "use r = Some 4" for r
    using n(1) that by (intro space_used [OF ok]) auto
  ultimately show "\<exists>s'. setupkvm s = Some (n, s') \<and> n \<noteq> 0 \<and> use n = None \<and> vm_ok (use(n := Some 4)) s' ys \<and>
       freelist_sane (vm_k s') = freelist_sane (vm_k s) \<and> (tidy use s \<longrightarrow> tidy (use(n := Some 4)) s') \<and> space s' n = (\<lambda>m. None) \<and>
       (\<forall>r. use r = Some 4 \<longrightarrow> space s' r = space s r) \<and> (\<forall>i. 256 \<le> i \<and> i < 512 \<longrightarrow> vm_pte s' n i = vm_pte s (kpgdir s) i)"
    using run n k(3) by (intro exI [of _ ?s]) simp
qed

lemma entry_flags:
  assumes "present e" "\<not> large e"
  shows "pte_flags e OR PTE_P = pte_flags e" "unat (pte_flags e) < 4096" "pte_flags e AND PTE_PS = 0"
proof -
  have f: "pte_flags e = take_bit 12 e" by (simp add: pte_flags_def take_bit_eq_mask mask_eq_exp_minus_1)
  have "odd (pte_flags e)" using assms(1) by (simp add: f present_odd even_take_bit_eq)
  then show "pte_flags e OR PTE_P = pte_flags e" by (simp add: or_one_eq)
  show "unat (pte_flags e) < 4096" unfolding f by (simp add: unat_take)
  show "pte_flags e AND PTE_PS = 0" using assms(2) and_small [of PTE_PS e] by (simp add: f large_def)
qed

definition copy_post :: "(u64 \<Rightarrow> nat option) \<Rightarrow> 'a vm_state_scheme \<Rightarrow> u64 list \<Rightarrow> u64 \<Rightarrow> u64 \<Rightarrow> nat \<Rightarrow> u64 \<Rightarrow> bool \<times> 'a vm_state_scheme \<Rightarrow> bool" where
  "copy_post use s xs d r from sz res \<longleftrightarrow> (\<exists>use' xs'. vm_evo use s xs use' (snd res) xs' \<and>
     (\<forall>r'. use r' = Some 4 \<and> r' \<noteq> d \<longrightarrow> space (snd res) r' = space s r') \<and>
     (\<forall>m. space (snd res) d m = None \<or> space (snd res) d m = space s d m \<or> from \<le> m \<and> m < pages sz) \<and>
     (if fst res then space (snd res) d = (\<lambda>m. if from \<le> m \<and> m < pages sz then space s r m else space s d m)
      else length xs < 4 * (pages sz - from)))"

lemma copy_post_step:
  assumes e: "vm_evo use s xs use2 s2 xs2"
    and sp: "\<And>r'. use r' = Some 4 \<Longrightarrow> r' \<noteq> d \<Longrightarrow> space s2 r' = space s r'" "space s2 d = (space s d)(v := space s r v)" "space s2 r = space s r"
    and post: "copy_post use2 s2 xs2 d r (Suc v) sz res" and v: "v < pages sz" and len: "length xs \<le> length xs2 + 4"
  shows "copy_post use s xs d r v sz res"
proof -
  have roots: "use2 p = Some 4 \<longleftrightarrow> use p = Some 4" for p by (rule vm_evoD(2) [OF e])
  from post obtain use' xs' where p: "vm_evo use2 s2 xs2 use' (snd res) xs'"
    "\<forall>r'. use r' = Some 4 \<and> r' \<noteq> d \<longrightarrow> space (snd res) r' = space s2 r'"
    "\<forall>m. space (snd res) d m = None \<or> space (snd res) d m = space s2 d m \<or> Suc v \<le> m \<and> m < pages sz"
    "if fst res then space (snd res) d = (\<lambda>m. if Suc v \<le> m \<and> m < pages sz then space s2 r m else space s2 d m)
      else length xs2 < 4 * (pages sz - Suc v)"
    unfolding copy_post_def roots by blast
  have n: "pages sz - v = Suc (pages sz - Suc v)" using v by simp
  have "(\<lambda>m. if Suc v \<le> m \<and> m < pages sz then space s2 r m else space s2 d m) =
      (\<lambda>m. if v \<le> m \<and> m < pages sz then space s r m else space s d m)"
    using v by (auto simp: fun_eq_iff sp(2,3) Suc_le_eq)
  then have "if fst res then space (snd res) d = (\<lambda>m. if v \<le> m \<and> m < pages sz then space s r m else space s d m)
      else length xs < 4 * (pages sz - v)" using p(4) len n by (auto split: if_splits)
  moreover have "space (snd res) d m = None \<or> space (snd res) d m = space s d m \<or> v \<le> m \<and> m < pages sz" for m
    using p(3) [rule_format, of m] v by (auto simp: sp(2) split: if_splits)
  moreover have "\<forall>r'. use r' = Some 4 \<and> r' \<noteq> d \<longrightarrow> space (snd res) r' = space s r'" using p(2) sp(1) by simp
  ultimately show ?thesis unfolding copy_post_def
    by (intro exI [of _ use'] exI [of _ xs'] conjI allI) (use vm_evo_trans [OF e p(1)] in simp_all)
qed

lemma copy_loop_spec:
  assumes "vm_ok use s xs" "use r = Some 4" "use d = Some 4" "r \<noteq> d" "unat i mod 4096 = 0" "unat sz \<le> 2 ^ 47"
    "\<forall>m. vpn i \<le> m \<longrightarrow> m < pages sz \<longrightarrow> space s d m = None" "\<forall>m<pages sz. space s r m \<noteq> None"
  shows "\<exists>res. copy_loop d r i sz s = Some res \<and> copy_post use s xs d r (vpn i) sz res"
  using assms(1-3,5,7,8)
proof (induction "pages sz - vpn i" arbitrary: i use s xs rule: less_induct)
  case less
  note below = below_pages [OF less.prems(4) assms(6)]
  show ?case
  proof (cases "i < sz")
    case False
    then have "copy_loop d r i sz s = Some (True, s)" by (subst copy_loop.simps) simp
    then show ?thesis using False below(1) vm_evo_refl [OF less.prems(1)]
      by (intro exI [of _ "(True, s)"]) (auto simp: copy_post_def fun_eq_iff)
  next
    case i: True
    have ui: "uaddr i" by (rule below(2) [OF i])
    note nx = next_page [OF less.prems(4) ui]
    have fr: "vpn i < pages sz" using i below(1) by simp
    obtain e where e: "xlat s r i = Some e" using less.prems(6) fr space_vpn [OF ui, of s r] by (cases "xlat s r i") auto
    obtain t j where tj: "leaf_of s 4 r i = Some (t, j)" "slot use s t j 0" "e = vm_pte s t j" "use (P2V (pte_addr e)) = Some 0" "present e"
      using xlat_slot [OF less.prems(1,2) ui e] by metis
    note ef = entry_flags [OF tj(5) vm_okD(7) [OF less.prems(1) tj(2), folded tj(3)]]
    have spe: "space s r (vpn i) = Some (pte_flags e, vm_data s (P2V (pte_addr e)))" using space_vpn [OF ui, of s r] e by simp
    have lk: "walkpgdir r i False s = Some (Some (t, j), s)" using walkpgdir_lookup [OF less.prems(1,2) ui] tj(1) by simp
    have pe: "pte_at s (t, j) = e" using tj(3) by (simp add: pte_at_def)
    have step: "copy_loop d r i sz s = do {
         (mem, s) \<leftarrow> vm_kalloc s;
         if mem = 0 then Some (False, s)
         else do {
           (ok, s) \<leftarrow> mappages d i 4096 (V2P mem) (pte_flags e) (set_page mem (vm_data s (P2V (pte_addr e))) s);
           if ok then copy_loop d r (i + PGSIZE) sz s else do { s \<leftarrow> vm_kfree mem s; Some (False, s) } } }"
      using i lk pe tj(5) by (subst copy_loop.simps) (simp add: Let_def cong: if_cong)
    show ?thesis
    proof (cases xs)
      case Nil
      have "copy_loop d r i sz s = Some (False, s)" unfolding step using vm_ok_kalloc(1) [OF less.prems(1) Nil] by simp
      then show ?thesis using Nil fr vm_evo_refl [OF less.prems(1)] by (intro exI [of _ "(False, s)"]) (auto simp: copy_post_def)
    next
      case (Cons n ys)
      obtain k where k: "vm_kalloc s = Some (n, s\<lparr>vm_k := k\<rparr>)" "vm_ok use (s\<lparr>vm_k := k\<rparr>) ys"
          "freelist_sane k = freelist_sane (vm_k s)"
        and n: "use n = None" "n \<notin> set ys" "dm_page n" "freelist_sane k n" "n \<noteq> 0"
        using vm_ok_kalloc(2) [OF less.prems(1) Cons] by blast
      let ?D = "vm_data s (P2V (pte_addr e))"
      let ?s1 = "set_page n ?D (s\<lparr>vm_k := k\<rparr>)"
      have ok1: "vm_ok use ?s1 ys" by (rule unused_page(1) [OF k(2) n(1)])
      have sp1: "space ?s1 r' = space s r'" if "use r' = Some 4" for r' using unused_page(2) [OF k(2) n(1) that] by simp
      have td1: "tidy use ?s1 \<longleftrightarrow> tidy use s" by (rule tidy_cong) simp
      have free: "space ?s1 d (vpn i) = None" using less.prems(3,5) fr sp1 [OF less.prems(3)] by simp
      have f: "unat (pte_flags e OR PTE_P) < 4096" "pte_flags e AND PTE_PS = 0" using ef by simp_all
      have n1: "freelist_sane (vm_k ?s1) n" "length (vm_data ?s1 n) = 4096" using n(4) vm_okD(6) [OF less.prems(1) tj(4)] by simp_all
      obtain b s2 use2 xs2 where m: "mappages d i 4096 (V2P n) (pte_flags e) ?s1 = Some (b, s2)" "vm_ok use2 s2 xs2"
        "freelist_sane (vm_k s2) = freelist_sane (vm_k ?s1)" "vm_data s2 = vm_data ?s1"
        "n \<notin> set xs2" "use2 n = (if b then Some 0 else None)" "dom use2 \<union> set xs2 \<union> {n} = dom use \<union> set ys \<union> {n}"
        "\<forall>p. use2 p = Some 4 \<longleftrightarrow> use p = Some 4" "tidy use ?s1 \<longrightarrow> tidy use2 s2"
        "length ys \<le> length xs2 + 3" "\<not> b \<longrightarrow> xs2 = [] \<and> length ys < 3"
        and msp: "\<forall>r'. use r' = Some 4 \<longrightarrow> space s2 r' =
          (if b \<and> r' = d then (space ?s1 d)(vpn i \<mapsto> (pte_flags e OR PTE_P, vm_data ?s1 n)) else space ?s1 r')"
        by (rule mappages_page [OF ok1 less.prems(3) ui less.prems(4) free n(1-3) n1 f])
      show ?thesis
      proof (cases b)
        case True
        have "n \<in> dom use2" using m(6) True by auto
        then have ev: "vm_evo use s xs use2 s2 xs2" using m(2,3,7-9) k(3) Cons td1 unfolding vm_evo_def by (auto simp: insert_absorb)
        have sp2: "space s2 r' = (if r' = d then (space s d)(vpn i := space s r (vpn i)) else space s r')" if "use r' = Some 4" for r'
          using msp sp1 that less.prems(3) True spe ef(1) by simp
        have d2: "space s2 d = (space s d)(vpn i := space s r (vpn i))" and r2: "space s2 r = space s r"
          using sp2 less.prems(2,3) assms(4) by simp_all
        have "\<forall>m. vpn (i + PGSIZE) \<le> m \<longrightarrow> m < pages sz \<longrightarrow> space s2 d m = None" using less.prems(5) d2 nx(2) by simp
        moreover have "pages sz - vpn (i + PGSIZE) < pages sz - vpn i" using fr nx(2) by simp
        moreover have "use2 r = Some 4" "use2 d = Some 4" using m(8) less.prems(2,3) by simp_all
        ultimately obtain res where res: "copy_loop d r (i + PGSIZE) sz s2 = Some res"
          "copy_post use2 s2 xs2 d r (vpn (i + PGSIZE)) sz res"
          using less.hyps [OF _ m(2) _ _ nx(3)] less.prems(6) r2 by metis
        have "copy_loop d r i sz s = Some res" unfolding step using k(1) n(5) m(1) True res(1) by simp
        moreover have "copy_post use s xs d r (vpn i) sz res"
          by (rule copy_post_step [OF ev _ d2 r2 res(2) [unfolded nx(2)] fr]) (use sp2 m(10) Cons in auto)
        ultimately show ?thesis by blast
      next
        case False
        have n2: "use2 n = None" using m(6) False by simp
        have "freelist_sane (vm_k s2) n" using m(3) n(4) by simp
        then obtain k4 where k4: "vm_kfree n s2 = Some (s2\<lparr>vm_k := k4\<rparr>)" "vm_ok use2 (s2\<lparr>vm_k := k4\<rparr>) (n # xs2)"
          "freelist_sane k4 = freelist_sane (vm_k s2)" using vm_kfree_push [OF m(2) n2 m(5) n(3)] by metis
        have "vm_evo use s xs use2 (s2\<lparr>vm_k := k4\<rparr>) (n # xs2)"
          using k4(2,3) m(3,7-9) k(3) Cons td1 tidy_cong [of use2 "s2\<lparr>vm_k := k4\<rparr>" s2] unfolding vm_evo_def by auto
        moreover have "copy_loop d r i sz s = Some (False, s2\<lparr>vm_k := k4\<rparr>)"
          unfolding step using k(1) n(5) m(1) False k4(1) by simp
        moreover have "length xs < 4 * (pages sz - vpn i)" using m(11) False Cons fr by auto
        ultimately show ?thesis using msp sp1 False less.prems(3)
          by (intro exI [of _ "(False, s2\<lparr>vm_k := k4\<rparr>)"]) (auto simp: copy_post_def)
      qed
    qed
  qed
qed

lemma copyuvm_core:
  assumes ok: "vm_ok use s xs" "tidy use s" and r: "use r = Some 4" "unat sz \<le> 2 ^ 47" "\<forall>m<pages sz. space s r m \<noteq> None"
  shows "\<exists>d s' use' xs'. copyuvm r sz s = Some (d, s') \<and> vm_ok use' s' xs' \<and> tidy use' s' \<and>
    dom use' \<union> set xs' = dom use \<union> set xs \<and> (\<forall>r'. use r' = Some 4 \<longrightarrow> space s' r' = space s r') \<and>
    (if d = 0 then length xs \<le> 4 * pages sz \<and> (\<forall>p. use' p = Some 4 \<longleftrightarrow> use p = Some 4)
     else use d = None \<and> (\<forall>p. use' p = Some 4 \<longleftrightarrow> use p = Some 4 \<or> p = d) \<and>
       space s' d = (\<lambda>m. if m < pages sz then space s r m else None))"
proof (cases xs)
  case Nil
  then have "copyuvm r sz s = Some (0, s)" using setupkvm_spec(1) [OF ok(1) Nil] by (simp add: copyuvm_def)
  then show ?thesis using ok Nil by (intro exI [of _ 0] exI [of _ s] exI [of _ use] exI [of _ xs]) simp
next
  case (Cons d ys)
  obtain s0 where s0: "setupkvm s = Some (d, s0)" "d \<noteq> 0" "use d = None" "vm_ok (use(d := Some 4)) s0 ys"
    "freelist_sane (vm_k s0) = freelist_sane (vm_k s)" "tidy (use(d := Some 4)) s0" "space s0 d = (\<lambda>m. None)"
    "\<forall>r. use r = Some 4 \<longrightarrow> space s0 r = space s r" using setupkvm_spec(2) [OF ok(1) Cons] ok(2) by auto
  let ?use = "use(d := Some 4)"
  have rd: "r \<noteq> d" "?use r = Some 4" "?use d = Some 4" using s0(3) r(1) by auto
  have v0: "vpn 0 = 0" by (simp add: vpn_def)
  have "\<exists>res. copy_loop d r 0 sz s0 = Some res \<and> copy_post ?use s0 ys d r (vpn 0) sz res"
    by (rule copy_loop_spec [OF s0(4) rd(2,3,1) _ r(2)]) (use s0(7,8) r(1,3) in auto)
  then obtain b s1 where b: "copy_loop d r 0 sz s0 = Some (b, s1)" "copy_post ?use s0 ys d r 0 sz (b, s1)"
    unfolding v0 by (metis surj_pair)
  then obtain use1 xs1 where p: "vm_evo ?use s0 ys use1 s1 xs1" "\<forall>r'. ?use r' = Some 4 \<and> r' \<noteq> d \<longrightarrow> space s1 r' = space s0 r'"
    "\<forall>m. space s1 d m = None \<or> space s1 d m = space s0 d m \<or> m < pages sz"
    "if b then space s1 d = (\<lambda>m. if m < pages sz then space s0 r m else space s0 d m) else length ys < 4 * pages sz"
    by (auto simp only: copy_post_def fst_conv snd_conv diff_zero le0 simp_thms)
  note ev = vm_evoD [OF p(1)]
  have sp1: "space s1 r' = space s r'" if "use r' = Some 4" for r' using p(2) s0(3,8) that by auto
  have cons: "dom use1 \<union> set xs1 = dom use \<union> set xs" using ev(4) Cons by auto
  show ?thesis
  proof (cases b)
    case True
    have "copyuvm r sz s = Some (d, s1)" using s0(1,2) b(1) True by (simp add: copyuvm_def)
    moreover have "space s1 d = (\<lambda>m. if m < pages sz then space s r m else None)" using p(4) True s0(7,8) r(1) by auto
    ultimately show ?thesis using s0(2,3) ev(1,2) ev(3) [OF s0(6)] cons sp1
      by (intro exI [of _ d] exI [of _ s1] exI [of _ use1] exI [of _ xs1]) auto
  next
    case False
    have d1: "use1 d = Some 4" using ev(2) by simp
    have "\<forall>m. pages sz \<le> m \<longrightarrow> space s1 d m = None" using p(3) s0(7) by (metis not_le)
    then obtain s2 use2 xs2 where f: "freevm d sz s1 = Some s2" "vm_ok use2 s2 xs2" "tidy use2 s2" "dom use2 \<union> set xs2 = dom use1 \<union> set xs1"
      "freelist_sane (vm_k s2) = freelist_sane (vm_k s1)" "use2 d = None" "\<forall>p. p \<noteq> d \<longrightarrow> (use2 p = Some 4 \<longleftrightarrow> use1 p = Some 4)"
      "\<forall>r'. use1 r' = Some 4 \<and> r' \<noteq> d \<longrightarrow> space s2 r' = space s1 r'"
      by (rule freevm_spec [OF ev(1) ev(3) [OF s0(6)] d1 r(2)])
    have "copyuvm r sz s = Some (0, s2)" using s0(1,2) b(1) False f(1) by (simp add: copyuvm_def)
    moreover have "use2 p = Some 4 \<longleftrightarrow> use p = Some 4" for p using f(6,7) ev(2) s0(3) by (cases "p = d") auto
    moreover have "space s2 r' = space s r'" if "use r' = Some 4" for r' using f(8) ev(2) sp1 that s0(3) by auto
    moreover have "length xs \<le> 4 * pages sz" using p(4) False Cons by simp
    ultimately show ?thesis using f(2-4) cons by (intro exI [of _ 0] exI [of _ s2] exI [of _ use2] exI [of _ xs2]) auto
  qed
qed

end
