(* ===== verification/Vm_Facts.thy ===== *)
theory Vm_Facts
  imports Vm_Spaces
begin

text \<open>
  User memory as bytes, \<^verbatim>\<open>copyout\<close> and \<^verbatim>\<open>copyin\<close> of \<^verbatim>\<open>kern/vm.c\<close>, and the properties of
  virtual memory.
\<close>

section \<open>Copying to and from user memory\<close>

text \<open>The byte a user program sees at an address, if it may access it.\<close>

definition umem :: "'a vm_state_scheme \<Rightarrow> u64 \<Rightarrow> nat \<Rightarrow> u8 option" where
  "umem s r a = (case space s r (a div 4096) of None \<Rightarrow> None
     | Some (f, d) \<Rightarrow> if f AND PTE_U = 0 then None else Some (d ! (a mod 4096)))"

lemma flags_user: "pte_flags e AND PTE_U = e AND PTE_U"
proof -
  have "take_bit 12 e AND PTE_U = e AND PTE_U" using and_small [of PTE_U e] by simp
  then show ?thesis by (simp add: pte_flags_def take_bit_eq_mask mask_eq_exp_minus_1)
qed

lemma uva2ka_spec:
  assumes ok: "vm_ok use s xs" and r: "use r = Some 4" "uaddr va"
  shows "uva2ka r va s = Some (case xlat s r va of None \<Rightarrow> 0 | Some e \<Rightarrow> if e AND PTE_U = 0 then 0 else P2V (pte_addr e), s)"
  using walkpgdir_lookup [OF ok r]
  by (auto simp: uva2ka_def xlat_def entry_of_def split: option.splits)

lemma user_page:
  assumes ok: "vm_ok use s xs" and r: "use r = Some 4" "unat va < 2 ^ 47"
  obtains (no) "uva2ka r (pgrounddown va) s = Some (0, s)" "\<And>a. a div 4096 = vpn va \<Longrightarrow> umem s r a = None"
  | (yes) e where "uva2ka r (pgrounddown va) s = Some (P2V (pte_addr e), s)" "P2V (pte_addr e) \<noteq> 0"
      "xlat s r (pgrounddown va) = Some e" "pte_flags e AND PTE_U \<noteq> 0" "length (vm_data s (P2V (pte_addr e))) = 4096"
      "\<And>a. a div 4096 = vpn va \<Longrightarrow> umem s r a = Some (vm_data s (P2V (pte_addr e)) ! (a mod 4096))"
proof -
  have "unat (pgrounddown va) \<le> unat va" by (simp add: unat_pgrounddown vpn_def)
  then have u: "uaddr (pgrounddown va)" using r(2) by (simp add: uaddr_def)
  note sp = space_vpn [OF u, of s r, simplified]
  note ka = uva2ka_spec [OF ok r(1) u]
  show ?thesis
  proof (cases "\<exists>e. xlat s r (pgrounddown va) = Some e \<and> pte_flags e AND PTE_U \<noteq> 0")
    case False
    then show ?thesis using ka sp by (intro no) (auto simp: umem_def flags_user split: option.splits)
  next
    case True
    then obtain e where e: "xlat s r (pgrounddown va) = Some e" "pte_flags e AND PTE_U \<noteq> 0" by blast
    have "use (P2V (pte_addr e)) = Some 0" using xlat_slot [OF ok r(1) u e(1)] by metis
    then have "dm_page (P2V (pte_addr e))" "length (vm_data s (P2V (pte_addr e))) = 4096"
      using vm_okD(5,6) [OF ok] by blast+
    then show ?thesis using ka sp e by (intro yes [of e]) (auto simp: umem_def flags_user dm_page_def)
  qed
qed

text \<open>A chunk of a copy stays inside the page of its first byte.\<close>

lemma page_off_alt: "page_off va = unat va mod 4096"
proof -
  have "pgrounddown va \<le> va" by (simp add: pgrounddown_def word_and_le2)
  then show ?thesis by (simp add: page_off_def unat_sub unat_pgrounddown vpn_def minus_div_mult_eq_mod)
qed

lemma chunk_next:
  assumes "unat va + len \<le> 2 ^ 47" "0 < len"
  defines "n \<equiv> chunk_len (page_off va) len"
  shows "0 < n" "n \<le> len" "page_off va + n \<le> 4096"
    "n < len \<Longrightarrow> unat (pgrounddown va + PGSIZE) = unat va + n"
    "i < n \<Longrightarrow> (unat va + i) div 4096 = vpn va" "i < n \<Longrightarrow> (unat va + i) mod 4096 = page_off va + i"
    "unat va \<le> a \<Longrightarrow> a div 4096 = vpn va \<Longrightarrow> a - unat va < 4096 - page_off va"
proof -
  have o: "page_off va < 4096" by simp
  have "n \<le> 4096 - page_off va" by (simp add: n_def chunk_len_def)
  then have n3: "page_off va + n \<le> 4096" using o by linarith
  show n: "0 < n" "n \<le> len" "page_off va + n \<le> 4096" using n3 assms(2) by (simp_all add: n_def chunk_len_def)
  have dm: "unat va = vpn va * 4096 + page_off va" by (simp add: vpn_def page_off_alt)
  show "unat (pgrounddown va + PGSIZE) = unat va + n" if "n < len"
  proof -
    have "n = 4096 - page_off va" using that by (auto simp: n_def chunk_len_def)
    moreover have "page_off va + (4096 - page_off va) = 4096" using o by linarith
    moreover have "vpn va * 4096 + 4096 < 2 ^ 64" using assms(1) dm by simp
    ultimately show ?thesis using unat_word_ariths(1) [of "pgrounddown va" PGSIZE] dm by (simp add: unat_pgrounddown)
  qed
  assume "i < n"
  then have "page_off va + i < 4096" using n(3) by simp
  then show "(unat va + i) div 4096 = vpn va" "(unat va + i) mod 4096 = page_off va + i"
    unfolding dm by (simp_all add: add.assoc)
next
  assume "unat va \<le> a" "a div 4096 = vpn va"
  moreover have "unat va = vpn va * 4096 + page_off va" by (simp add: vpn_def page_off_alt)
  moreover have "a < (a div 4096 + 1) * 4096" by (simp add: dividend_less_div_times)
  ultimately show "a - unat va < 4096 - page_off va" by simp
qed

lemma write_umem:
  assumes ok: "vm_ok use s xs" and r: "use r = Some 4" "unat va < 2 ^ 47"
    and e: "xlat s r (pgrounddown va) = Some e" "pte_flags e AND PTE_U \<noteq> 0" "length (vm_data s (P2V (pte_addr e))) = 4096"
    and ys: "page_off va + length ys \<le> 4096"
  defines "s1 \<equiv> set_page (P2V (pte_addr e)) (put_bytes (vm_data s (P2V (pte_addr e))) (page_off va) ys) s"
  shows "vm_ok use s1 xs"
    "use r' = Some 4 \<Longrightarrow> umem s1 r' a = (if r' = r \<and> unat va \<le> a \<and> a < unat va + length ys then Some (ys ! (a - unat va)) else umem s r' a)"
proof -
  let ?d = "put_bytes (vm_data s (P2V (pte_addr e))) (page_off va) ys"
  have "unat (pgrounddown va) \<le> unat va" by (simp add: unat_pgrounddown vpn_def)
  then have u: "uaddr (pgrounddown va)" using r(2) by (simp add: uaddr_def)
  have d: "length ?d = 4096" using ys e(3) by simp
  note w = write_page [OF ok r(1) u e(1) d]
  show "vm_ok use s1 xs" unfolding s1_def by (rule w(1))
  assume r': "use r' = Some 4"
  have sp: "space s1 r' = (if r' = r then (space s r)(vpn va \<mapsto> (pte_flags e, ?d)) else space s r')"
    using w(2) [OF r'] by (simp add: s1_def)
  have old: "space s r (vpn va) = Some (pte_flags e, vm_data s (P2V (pte_addr e)))"
    using space_vpn [OF u, of s r] e(1) by simp
  show "umem s1 r' a = (if r' = r \<and> unat va \<le> a \<and> a < unat va + length ys then Some (ys ! (a - unat va)) else umem s r' a)"
  proof (cases "r' = r \<and> a div 4096 = vpn va")
    case True
    have dm: "unat va = vpn va * 4096 + page_off va" by (simp add: vpn_def page_off_alt)
    have am: "a = vpn va * 4096 + a mod 4096" using True by (metis div_mult_mod_eq)
    have "unat va \<le> a \<and> a < unat va + length ys \<longleftrightarrow> page_off va \<le> a mod 4096 \<and> a mod 4096 < page_off va + length ys"
      "a - unat va = a mod 4096 - page_off va" using dm am by linarith+
    moreover have "?d ! (a mod 4096) = (if page_off va \<le> a mod 4096 \<and> a mod 4096 < page_off va + length ys
        then ys ! (a mod 4096 - page_off va) else vm_data s (P2V (pte_addr e)) ! (a mod 4096))"
      using ys e(3) by (simp add: put_bytes_nth)
    ultimately show ?thesis using True sp old e(2) by (simp add: umem_def)
  next
    case False
    have "\<not> (unat va \<le> a \<and> a < unat va + length ys)" if "a div 4096 \<noteq> vpn va"
    proof
      assume "unat va \<le> a \<and> a < unat va + length ys"
      then have "a < vpn va * 4096 + 4096" "vpn va * 4096 \<le> a"
        using ys div_mult_mod_eq [of "unat va" 4096] by (simp_all only: vpn_def page_off_alt) linarith+
      then show False using that by (simp add: div_nat_eqI mult.commute)
    qed
    then show ?thesis using False sp by (auto simp: umem_def)
  qed
qed

lemma copyout_core:
  assumes "vm_ok use s xs" "use r = Some 4" "unat va + length buf \<le> 2 ^ 47"
  shows "\<exists>ok s' k. copyout r va buf s = Some (ok, s') \<and> vm_ok use s' xs \<and> k \<le> length buf \<and> (ok \<longleftrightarrow> k = length buf) \<and>
    (\<forall>i<k. umem s r (unat va + i) \<noteq> None) \<and> (k < length buf \<longrightarrow> umem s r (unat va + k) = None) \<and>
    (\<forall>r' a. use r' = Some 4 \<longrightarrow> umem s' r' a =
       (if r' = r \<and> unat va \<le> a \<and> a < unat va + k then Some (buf ! (a - unat va)) else umem s r' a))"
  using assms(1,3)
proof (induction "length buf" arbitrary: va buf s rule: less_induct)
  case less
  show ?case
  proof (cases "buf = []")
    case True
    then have "copyout r va buf s = Some (True, s)" by (simp add: copyout.simps)
    then show ?thesis using True less.prems by (intro exI [of _ True] exI [of _ s] exI [of _ 0]) auto
  next
    case False
    let ?n = "chunk_len (page_off va) (length buf)"
    have len: "0 < length buf" using False by simp
    note cn = chunk_next [OF less.prems(2) len]
    have va: "unat va < 2 ^ 47" using less.prems(2) len by linarith
    from less.prems(1) assms(2) va show ?thesis
    proof (cases rule: user_page)
      case no
      have "copyout r va buf s = Some (False, s)" using no(1) False by (subst copyout.simps) simp
      moreover have "umem s r (unat va) = None" using no(2) [of "unat va"] by (simp add: vpn_def)
      ultimately show ?thesis using less.prems len by (intro exI [of _ False] exI [of _ s] exI [of _ 0]) auto
    next
      case (yes e)
      let ?p = "P2V (pte_addr e)" and ?s1 = "set_page (P2V (pte_addr e)) (put_bytes (vm_data s (P2V (pte_addr e))) (page_off va) (take ?n buf)) s"
      have lt: "length (take ?n buf) = ?n" using cn(2) by simp
      have ys: "page_off va + length (take ?n buf) \<le> 4096" unfolding lt by (rule cn(3))
      note w = write_umem [OF less.prems(1) assms(2) va yes(3-5) ys, unfolded lt]
      have here: "umem s r (unat va + i) \<noteq> None" if "i < ?n" for i using yes(6) [OF cn(5) [OF that]] by simp
      have run: "copyout r va buf s = copyout r (pgrounddown va + PGSIZE) (drop ?n buf) ?s1"
        using yes(1,2) False by (subst copyout.simps) (simp add: Let_def)
      show ?thesis
      proof (cases "?n = length buf")
        case True
        then have "copyout r va buf s = Some (True, ?s1)" unfolding run by (simp add: copyout.simps)
        then show ?thesis using w True here by (intro exI [of _ True] exI [of _ ?s1] exI [of _ "length buf"]) auto
      next
        case more: False
        then have nx: "unat (pgrounddown va + PGSIZE) = unat va + ?n" using cn(2,4) by simp
        have ld: "length (drop ?n buf) < length buf" "unat (pgrounddown va + PGSIZE) + length (drop ?n buf) \<le> 2 ^ 47"
          using cn(1,2) len less.prems(2) nx by simp_all
        obtain ok s' k where i: "copyout r (pgrounddown va + PGSIZE) (drop ?n buf) ?s1 = Some (ok, s')" "vm_ok use s' xs"
          "k \<le> length (drop ?n buf)" "ok \<longleftrightarrow> k = length (drop ?n buf)" "\<forall>i<k. umem ?s1 r (unat va + ?n + i) \<noteq> None"
          "k < length (drop ?n buf) \<longrightarrow> umem ?s1 r (unat va + ?n + k) = None"
          "\<forall>r' a. use r' = Some 4 \<longrightarrow> umem s' r' a =
            (if r' = r \<and> unat va + ?n \<le> a \<and> a < unat va + ?n + k then Some (drop ?n buf ! (a - (unat va + ?n))) else umem ?s1 r' a)"
          using less.hyps [OF ld(1) w(1) ld(2)] unfolding nx by blast
        have rest: "umem ?s1 r (unat va + ?n + i) = umem s r (unat va + ?n + i)" for i using w(2) [OF assms(2)] by simp
        have mapped: "umem s r (unat va + i) \<noteq> None" if "i < ?n + k" for i
        proof (cases "i < ?n")
          case False
          then have "umem ?s1 r (unat va + ?n + (i - ?n)) \<noteq> None" using i(5) that by (metis add_diff_inverse_nat nat_add_left_cancel_less)
          then show ?thesis using rest [of "i - ?n"] False by simp
        qed (rule here)
        have val: "umem s' r' a = (if r' = r \<and> unat va \<le> a \<and> a < unat va + (?n + k) then Some (buf ! (a - unat va)) else umem s r' a)"
          if "use r' = Some 4" for r' a
          using i(7) [rule_format, OF that, of a] w(2) [OF that, of a] cn(2) by (auto simp: add.assoc)
        show ?thesis using run i(1-4,6) mapped val cn(2) rest [of k]
          by (intro exI [of _ ok] exI [of _ s'] exI [of _ "?n + k"]) (auto simp: add.assoc)
      qed
    qed
  qed
qed

lemma copyin_core:
  assumes ok: "vm_ok use s xs" "use r = Some 4" and len: "unat va + len \<le> 2 ^ 47"
  shows "\<exists>b bs. copyin r va len s = Some (b, bs, s) \<and> length bs \<le> len \<and> (b \<longleftrightarrow> length bs = len) \<and>
    (\<forall>i<length bs. umem s r (unat va + i) = Some (bs ! i)) \<and> (length bs < len \<longrightarrow> umem s r (unat va + length bs) = None)"
  using len
proof (induction len arbitrary: va rule: less_induct)
  case (less len)
  show ?case
  proof (cases "len = 0")
    case True
    then have "copyin r va len s = Some (True, [], s)" by (simp add: copyin.simps)
    then show ?thesis using True by auto
  next
    case False
    let ?n = "chunk_len (page_off va) len"
    have l: "0 < len" using False by simp
    note cn = chunk_next [OF less.prems l]
    have va: "unat va < 2 ^ 47" using less.prems l by linarith
    from ok va show ?thesis
    proof (cases rule: user_page)
      case no
      have "copyin r va len s = Some (False, [], s)" using no(1) False by (subst copyin.simps) simp
      moreover have "umem s r (unat va) = None" using no(2) [of "unat va"] by (simp add: vpn_def)
      ultimately show ?thesis using l by auto
    next
      case (yes e)
      let ?bs = "get_bytes (vm_data s (P2V (pte_addr e))) (page_off va) ?n"
      have lb: "length ?bs = ?n" using cn(3) yes(5) by simp
      have here: "umem s r (unat va + i) = Some (?bs ! i)" if "i < ?n" for i
        using yes(6) [OF cn(5) [OF that]] cn(6) [OF that] cn(3) yes(5) that by (simp add: get_bytes_nth)
      have lt: "len - ?n < len" using cn(1) l by simp
      show ?thesis
      proof (cases "?n = len")
        case True
        have "copyin r (pgrounddown va + PGSIZE) 0 s = Some (True, [], s)" by (simp add: copyin.simps)
        then have "copyin r va len s = Some (True, ?bs, s)" using yes(1,2) False True by (subst copyin.simps) (simp add: Let_def)
        then show ?thesis using lb here True by (intro exI [of _ True] exI [of _ ?bs]) simp
      next
        case more: False
        then have nx: "unat (pgrounddown va + PGSIZE) = unat va + ?n" using cn(2,4) by simp
        have "unat (pgrounddown va + PGSIZE) + (len - ?n) \<le> 2 ^ 47" unfolding nx using less.prems cn(2) by simp
        from less.IH [OF lt this, unfolded nx] obtain b cs where i: "copyin r (pgrounddown va + PGSIZE) (len - ?n) s = Some (b, cs, s)"
          "length cs \<le> len - ?n" "b \<longleftrightarrow> length cs = len - ?n" "\<forall>i<length cs. umem s r (unat va + ?n + i) = Some (cs ! i)"
          "length cs < len - ?n \<longrightarrow> umem s r (unat va + ?n + length cs) = None" by blast
        have "copyin r va len s = Some (b, ?bs @ cs, s)" using yes(1,2) False i(1) by (subst copyin.simps) (simp add: Let_def)
        moreover have "umem s r (unat va + j) = Some ((?bs @ cs) ! j)" if "j < ?n + length cs" for j
        proof (cases "j < ?n")
          case False
          then show ?thesis using i(4) [rule_format, of "j - ?n"] that lb by (simp add: nth_append add.assoc)
        qed (use here lb in \<open>simp add: nth_append\<close>)
        ultimately show ?thesis using i lb cn(2) by (auto simp: add.assoc)
      qed
    qed
  qed
qed

section \<open>Properties\<close>

text \<open>A machine with nine free pages and one empty address space.\<close>

definition demo_root :: u64 where
  "demo_root = P2V 0x500000"

definition demo_pages :: "u64 list" where
  "demo_pages = [P2V 0x400000, P2V 0x401000, P2V 0x402000, P2V 0x403000, P2V 0x404000, P2V 0x405000, P2V 0x406000, P2V 0x407000, P2V 0x408000]"

definition demo_vm :: vm_state where
  "demo_vm = \<lparr>vm_k = demo_kmem\<lparr>k_links := (\<lambda>p. if p = P2V 0x408000 then 0 else p + PGSIZE)\<rparr>,
     vm_pte = (\<lambda>t i. 0), vm_data = (\<lambda>p. zero_page), have_1g = False, kpgdir = 0, iomap_next = IOMAP_BASE\<rparr>"

definition demo_use :: "u64 \<Rightarrow> nat option" where
  "demo_use = [demo_root \<mapsto> 4]"

lemma demo_vm_ok: "vm_ok demo_use demo_vm demo_pages" "tidy demo_use demo_vm" "demo_use demo_root = Some 4"
  "space demo_vm demo_root m = None" "length demo_pages = 9"
proof -
  have sane: "freelist_sane (vm_k demo_vm) x \<longleftrightarrow> freelist_sane demo_kmem x" for x by (simp add: demo_vm_def freelist_sane_def)
  have ok: "freelist_sane demo_kmem x \<and> dm_page x \<and> x \<noteq> demo_root" if "x \<in> set demo_pages" for x
    using that by (auto simp: demo_pages_def demo_root_def freelist_sane_def demo_kmem_def dm_page_def P2V_def V2P_def)
  have root: "freelist_sane demo_kmem demo_root" "dm_page demo_root"
    by (simp_all add: demo_root_def freelist_sane_def demo_kmem_def dm_page_def P2V_def V2P_def)
  have no: "\<not> slot use demo_vm t i l" for use t i l by (simp add: slot_def demo_vm_def present_def)
  have "kmem_rep (vm_k demo_vm) demo_pages"
    unfolding kmem_rep_def sane using ok
    by (simp_all add: demo_vm_def demo_pages_def demo_kmem_def P2V_def)
  then show "vm_ok demo_use demo_vm demo_pages"
    unfolding vm_ok_def using no ok root sane by (auto simp: demo_use_def split: if_splits)
  show "tidy demo_use demo_vm" by (simp add: tidy_def demo_use_def)
  show "demo_use demo_root = Some 4" by (simp add: demo_use_def)
  show "space demo_vm demo_root m = None" by (simp add: space_def xlat_def leaf_of_root) (simp add: demo_vm_def present_def)
  show "length demo_pages = 9" by (simp add: demo_pages_def)
qed

text \<open>C2. \<^verbatim>\<open>allocuvm\<close> is all or nothing and cannot panic.  Growing an address space by
  unmapped pages either gives every page of the range fresh zeroed memory with the flags
  present, writable and user, or, only when fewer than four pages per new page are free, it
  fails and leaves the address space as it was.  No other address space changes and no page
  is lost.\<close>

theorem allocuvm_all_or_nothing:
  assumes "vm_ok use s xs" "use r = Some 4" "unat newsz \<le> 2 ^ 47" "oldsz \<le> newsz"
    "\<forall>m. pages oldsz \<le> m \<and> m < pages newsz \<longrightarrow> space s r m = None"
  shows "\<exists>v s' use' xs'. allocuvm r oldsz newsz s = Some (v, s') \<and> vm_ok use' s' xs' \<and>
    dom use' \<union> set xs' = dom use \<union> set xs \<and> (\<forall>r'. use r' = Some 4 \<and> r' \<noteq> r \<longrightarrow> space s' r' = space s r') \<and>
    (v = ucast newsz \<and> space s' r = (\<lambda>m. if pages oldsz \<le> m \<and> m < pages newsz then Some (7, zero_page) else space s r m) \<or>
     v = 0 \<and> length xs < 4 * (pages newsz - pages oldsz) \<and> space s' r = space s r)"
proof -
  obtain v s' where a: "allocuvm r oldsz newsz s = Some (v, s')" "alloc_post use s xs r (pages oldsz) (pages oldsz) newsz (v, s')"
    using allocuvm_core [OF assms] by (metis surj_pair)
  obtain use' xs' where e: "vm_evo use s xs use' s' xs'" and
    c: "v = ucast newsz \<and> (\<forall>r'. use r' = Some 4 \<longrightarrow> space s' r' =
         (if r' = r then (\<lambda>m. if pages oldsz \<le> m \<and> m < pages newsz then Some (7, zero_page) else space s r m) else space s r')) \<or>
       v = 0 \<and> length xs < 4 * (pages newsz - pages oldsz) \<and> (\<forall>r'. use r' = Some 4 \<longrightarrow> space s' r' =
         (if r' = r then (\<lambda>m. if pages oldsz \<le> m \<and> m < pages newsz then None else space s r m) else space s r'))"
    using a(2) unfolding alloc_post_def fst_conv snd_conv by blast
  have "(\<lambda>m. if pages oldsz \<le> m \<and> m < pages newsz then None else space s r m) = space s r" using assms(5) by auto
  then have "(\<forall>r'. use r' = Some 4 \<and> r' \<noteq> r \<longrightarrow> space s' r' = space s r') \<and>
    (v = ucast newsz \<and> space s' r = (\<lambda>m. if pages oldsz \<le> m \<and> m < pages newsz then Some (7, zero_page) else space s r m) \<or>
     v = 0 \<and> length xs < 4 * (pages newsz - pages oldsz) \<and> space s' r = space s r)"
    using c assms(2) by auto
  then show ?thesis using a(1) vm_evoD(1,4) [OF e] by blast
qed

theorem allocuvm_all_or_nothing_witness:
  "\<exists>s'. allocuvm demo_root 0 4096 demo_vm = Some (4096, s') \<and> space s' demo_root 0 = Some (7, zero_page) \<and> space s' demo_root 1 = None"
  using allocuvm_all_or_nothing [OF demo_vm_ok(1,3), of 4096 0] demo_vm_ok(4,5) by (auto simp: pages_def)

text \<open>C3. \<^verbatim>\<open>copyuvm\<close>, the copy made by \<^verbatim>\<open>fork\<close>.  Given a process all of whose pages
  below its size are mapped, it returns either a new address space with the same contents and
  flags page by page, or 0 when fewer than one page plus four per page of the process are free; in
  that case everything allocated on the way is given back.  In both cases every existing
  address space is unchanged, the new one shares no page with any other (the invariant), and
  every page is in use or free.\<close>

theorem copyuvm_copies:
  assumes "vm_ok use s xs" "tidy use s" "use r = Some 4" "unat sz \<le> 2 ^ 47" "\<forall>m<pages sz. space s r m \<noteq> None"
  shows "\<exists>d s' use' xs'. copyuvm r sz s = Some (d, s') \<and> vm_ok use' s' xs' \<and> tidy use' s' \<and>
    dom use' \<union> set xs' = dom use \<union> set xs \<and> (\<forall>r'. use r' = Some 4 \<longrightarrow> space s' r' = space s r') \<and>
    (if d = 0 then length xs \<le> 4 * pages sz \<and> (\<forall>p. use' p = Some 4 \<longleftrightarrow> use p = Some 4)
     else use d = None \<and> (\<forall>p. use' p = Some 4 \<longleftrightarrow> use p = Some 4 \<or> p = d) \<and>
       space s' d = (\<lambda>m. if m < pages sz then space s r m else None))"
  by (rule copyuvm_core [OF assms])

lemma demo_grown:
  obtains s :: vm_state and use xs where "vm_ok use s xs" "tidy use s" "use demo_root = Some 4" "space s demo_root = (\<lambda>m. if m < 1 then Some (7, zero_page) else None)"
proof -
  have free: "\<forall>m. pages 0 \<le> m \<and> m < pages 4096 \<longrightarrow> space demo_vm demo_root m = None" by (simp add: demo_vm_ok)
  obtain v s' where a: "alloc_post demo_use demo_vm demo_pages demo_root (pages 0) (pages 0) 4096 (v, s')"
    using allocuvm_core [OF demo_vm_ok(1,3) _ _ free] by auto
  have p: "pages 0 = 0" "pages 4096 = 1" by (simp_all add: pages_def)
  obtain use' xs' where e: "vm_evo demo_use demo_vm demo_pages use' s' xs'"
    "space s' demo_root = (\<lambda>m. if m < 1 then Some (7, zero_page) else None)"
  proof -
    have eq: "(\<lambda>m. if 0 \<le> m \<and> m < 1 then Some (7, zero_page) else space demo_vm demo_root m) =
        (\<lambda>m :: nat. if m < 1 then Some (7, zero_page) else None)" by (auto simp: demo_vm_ok(4))
    show ?thesis using a demo_vm_ok(3,5) that unfolding alloc_post_def p fst_conv snd_conv eq by auto
  qed
  show ?thesis using that [OF vm_evoD(1) [OF e(1)] vm_evoD(3) [OF e(1) demo_vm_ok(2)]] vm_evoD(2) [OF e(1)] demo_vm_ok(3) e(2) by simp
qed

theorem copyuvm_copies_witness:
  "\<exists>s :: vm_state. \<exists>d s'. space s demo_root 0 = Some (7, zero_page) \<and> copyuvm demo_root 4096 s = Some (d, s') \<and> space s' demo_root = space s demo_root \<and>
     (d = 0 \<or> space s' d = space s demo_root)"
proof -
  obtain s :: vm_state and use xs where s: "vm_ok use s xs" "tidy use s" "use demo_root = Some 4"
    "space s demo_root = (\<lambda>m. if m < 1 then Some (7, zero_page) else None)" by (rule demo_grown)
  have p: "pages 4096 = 1" by (simp add: pages_def)
  have "\<exists>d s' use' xs'. copyuvm demo_root 4096 s = Some (d, s') \<and> vm_ok use' s' xs' \<and> tidy use' s' \<and>
    dom use' \<union> set xs' = dom use \<union> set xs \<and> (\<forall>r'. use r' = Some 4 \<longrightarrow> space s' r' = space s r') \<and>
    (if d = 0 then length xs \<le> 4 * pages 4096 \<and> (\<forall>p. use' p = Some 4 \<longleftrightarrow> use p = Some 4)
     else use d = None \<and> (\<forall>p. use' p = Some 4 \<longleftrightarrow> use p = Some 4 \<or> p = d) \<and>
       space s' d = (\<lambda>m. if m < pages 4096 then space s demo_root m else None))"
    by (rule copyuvm_copies [OF s(1-3)]) (simp_all add: p s(4))
  then obtain d s' where d: "copyuvm demo_root 4096 s = Some (d, s')" "\<forall>r'. use r' = Some 4 \<longrightarrow> space s' r' = space s r'"
    "if d = 0 then True else space s' d = (\<lambda>m. if m < 1 then space s demo_root m else None)" unfolding p by (auto split: if_splits)
  then have "space s' demo_root = space s demo_root" "d = 0 \<or> space s' d = (\<lambda>m. if m < 1 then space s demo_root m else None)"
    using s(3) by (simp_all split: if_splits)
  moreover have "(\<lambda>m. if m < 1 then space s demo_root m else None) = space s demo_root" using s(4) by auto
  ultimately show ?thesis using s(4) d(1) by (intro exI [of _ s] exI [of _ d] exI [of _ s']) auto
qed

text \<open>C7. \<^verbatim>\<open>freevm\<close> of an address space with nothing mapped above the given size
  does not panic and leaks nothing: its root, its tables and its pages all go back to the free list,
  since afterwards again every page in use is the root of, or has an entry in, another address
  space.  The other address spaces are unchanged.\<close>

theorem freevm_leaks_nothing:
  assumes "vm_ok use s xs" "tidy use s" "use r = Some 4" "unat utop \<le> 2 ^ 47" "\<forall>m. pages utop \<le> m \<longrightarrow> space s r m = None"
  shows "\<exists>s' use' xs'. freevm r utop s = Some s' \<and> vm_ok use' s' xs' \<and> tidy use' s' \<and> dom use' \<union> set xs' = dom use \<union> set xs \<and>
    (\<forall>p. use' p = Some 4 \<longleftrightarrow> use p = Some 4 \<and> p \<noteq> r) \<and> (\<forall>r'. use r' = Some 4 \<and> r' \<noteq> r \<longrightarrow> space s' r' = space s r')"
proof -
  obtain s' use' xs' where f: "freevm r utop s = Some s'" "vm_ok use' s' xs'" "tidy use' s'" "dom use' \<union> set xs' = dom use \<union> set xs"
    "freelist_sane (vm_k s') = freelist_sane (vm_k s)"
    "use' r = None" "\<forall>p. p \<noteq> r \<longrightarrow> (use' p = Some 4 \<longleftrightarrow> use p = Some 4)" "\<forall>r'. use r' = Some 4 \<and> r' \<noteq> r \<longrightarrow> space s' r' = space s r'"
    by (rule freevm_spec [OF assms])
  have "use' p = Some 4 \<longleftrightarrow> use p = Some 4 \<and> p \<noteq> r" for p using f(6,7) by (cases "p = r") auto
  then show ?thesis using f by blast
qed

theorem freevm_leaks_nothing_witness:
  "\<exists>(s :: vm_state) s' use' xs'. space s demo_root 0 = Some (7, zero_page) \<and> freevm demo_root 4096 s = Some s' \<and> vm_ok use' s' xs' \<and> use' demo_root \<noteq> Some 4"
proof -
  obtain s :: vm_state and use xs where s: "vm_ok use s xs" "tidy use s" "use demo_root = Some 4"
    "space s demo_root = (\<lambda>m. if m < 1 then Some (7, zero_page) else None)" by (rule demo_grown)
  have "\<forall>m. pages 4096 \<le> m \<longrightarrow> space s demo_root m = None" by (simp add: s(4) pages_def)
  then obtain s' use' xs' where "freevm demo_root 4096 s = Some s'" "vm_ok use' s' xs'" "\<forall>p. use' p = Some 4 \<longleftrightarrow> use p = Some 4 \<and> p \<noteq> demo_root"
    using freevm_leaks_nothing [OF s(1-3), of 4096] by auto
  moreover have "space s demo_root 0 = Some (7, zero_page)" by (simp add: s(4))
  ultimately show ?thesis by blast
qed

text \<open>C9. \<^verbatim>\<open>copyout\<close> and \<^verbatim>\<open>copyin\<close> on the lower half.  \<^verbatim>\<open>copyout\<close> writes the longest prefix
  of the buffer that lies in memory the user may access, and succeeds exactly if that is all
  of it; no other byte of this address space and no byte of another one changes.  After a success
  \<^verbatim>\<open>copyin\<close> of the range gives the buffer back.\<close>

theorem copyout_copyin:
  assumes "vm_ok use s xs" "use r = Some 4" "unat va + length buf \<le> 2 ^ 47"
  shows "\<exists>ok s' k. copyout r va buf s = Some (ok, s') \<and> vm_ok use s' xs \<and> k \<le> length buf \<and> (ok \<longleftrightarrow> k = length buf) \<and>
    (\<forall>i<k. umem s r (unat va + i) \<noteq> None) \<and> (k < length buf \<longrightarrow> umem s r (unat va + k) = None) \<and>
    (\<forall>r' a. use r' = Some 4 \<longrightarrow> umem s' r' a =
       (if r' = r \<and> unat va \<le> a \<and> a < unat va + k then Some (buf ! (a - unat va)) else umem s r' a)) \<and>
    (ok \<longrightarrow> copyin r va (length buf) s' = Some (True, buf, s'))"
proof -
  obtain ok s' k where c: "copyout r va buf s = Some (ok, s')" "vm_ok use s' xs" "k \<le> length buf" "ok \<longleftrightarrow> k = length buf"
    "\<forall>i<k. umem s r (unat va + i) \<noteq> None" "k < length buf \<longrightarrow> umem s r (unat va + k) = None"
    and v: "\<forall>r' a. use r' = Some 4 \<longrightarrow> umem s' r' a =
       (if r' = r \<and> unat va \<le> a \<and> a < unat va + k then Some (buf ! (a - unat va)) else umem s r' a)"
    using copyout_core [OF assms] by blast
  have "copyin r va (length buf) s' = Some (True, buf, s')" if ok
  proof -
    obtain b bs where i: "copyin r va (length buf) s' = Some (b, bs, s')" "length bs \<le> length buf" "b \<longleftrightarrow> length bs = length buf"
      "\<forall>i<length bs. umem s' r (unat va + i) = Some (bs ! i)" "length bs < length buf \<longrightarrow> umem s' r (unat va + length bs) = None"
      using copyin_core [OF c(2) assms(2,3)] by blast
    have val: "umem s' r (unat va + j) = Some (buf ! j)" if "j < length buf" for j using v assms(2) c(4) \<open>ok\<close> that by simp
    then have len: "length bs = length buf" using i(2,5) by (metis le_eq_less_or_eq option.distinct(1))
    moreover have "bs = buf" using len i(4) val by (intro nth_equalityI) simp_all
    ultimately show ?thesis using i(1,3) by simp
  qed
  then show ?thesis using c v by blast
qed

theorem copyout_copyin_witness:
  "\<exists>(s :: vm_state) s'. copyout demo_root 100 [1, 2, 3] s = Some (True, s') \<and> copyin demo_root 100 3 s' = Some (True, [1, 2, 3], s')"
proof -
  obtain s :: vm_state and use xs where s: "vm_ok use s xs" "tidy use s" "use demo_root = Some 4"
    "space s demo_root = (\<lambda>m. if m < 1 then Some (7, zero_page) else None)" by (rule demo_grown)
  have m: "umem s demo_root (100 + k) \<noteq> None" if "k < 3" for k using that by (simp add: umem_def s(4))
  obtain ok s' k where c: "copyout demo_root 100 [1, 2, 3] s = Some (ok, s')" "k \<le> 3" "ok \<longleftrightarrow> k = 3"
    "k < 3 \<longrightarrow> umem s demo_root (100 + k) = None" "ok \<longrightarrow> copyin demo_root 100 3 s' = Some (True, [1, 2, 3], s')"
  proof -
    have l: "length [1, 2, 3 :: u8] = 3" "unat (100 :: u64) = 100" by simp_all
    show ?thesis using copyout_copyin [OF s(1,3), of 100 "[1, 2, 3]", unfolded l] that by auto
  qed
  have "k = 3" using c(2,4) m [of k] by (cases "k < 3") auto
  then show ?thesis using c by auto
qed

end
