(* ===== verification/Spec2Isabelle.thy ===== *)
theory Spec2Isabelle
  imports Strings Kalloc Locks Blockdev Log Ufs2_Dirs Fs_Facts Pipe Console_Facts Printf Vm_Facts
begin

text \<open>
  A verification library for OpenProninx, a Unix-like kernel for 64-bit PCs with its user
  programs. The library is a shallow embedding: a function of the C source is a HOL
  function of the same name where HOL has the name free, its state an explicit record
  that is passed and returned.

  \<^bold>\<open>The program.\<close> The boot code hands the kernel a memory map, from which \<^verbatim>\<open>kern/kalloc.c\<close>
  builds the free list of pages; \<^verbatim>\<open>kern/vm.c\<close> builds page tables on those pages.
  \<^verbatim>\<open>kern/spinlock.c\<close> and \<^verbatim>\<open>kern/sleeplock.c\<close> protect the shared tables. Storage is a stack:
  the disk drivers, the device switch of \<^verbatim>\<open>kern/blockdev.c\<close>, the buffer cache of
  \<^verbatim>\<open>kern/bio.c\<close>, the write-ahead log of \<^verbatim>\<open>kern/log.c\<close>, the volumes of \<^verbatim>\<open>kern/ufs2.c\<close> and
  \<^verbatim>\<open>kern/fat32.c\<close>, and the inodes, directories and paths of \<^verbatim>\<open>kern/fs.c\<close>, which send an
  operation to the native format, to UFS2, to FAT32 or to a device. Processes also meet in
  \<^verbatim>\<open>kern/pipe.c\<close> and at the terminals of \<^verbatim>\<open>kern/console.c\<close>. User programs print through
  \<^verbatim>\<open>user/printf.c\<close>.

  \<^bold>\<open>Conventions.\<close> A result of type \<open>option\<close> is \<open>None\<close> where the C code does not come back:
  a panic, a write outside an object, a sleep that only another process can end, a loop that
  does not end. An error that the C code returns is a value of the model. C integers are
  words of their width where they can wrap, and \<open>int\<close> or \<open>nat\<close> elsewhere. A loop whose
  bound is data is a structural recursion; a loop over a chain on the disk or in memory is
  a \<^verbatim>\<open>partial_function\<close>, and a claim that it returns is proved as such. No definition of the
  model uses fuel. The state records of the storage stack extend each other (\<^verbatim>\<open>bio_state\<close>,
  \<^verbatim>\<open>log_state\<close>, \<^verbatim>\<open>fat_state\<close>, \<^verbatim>\<open>fs_state\<close>) and every operation is polymorphic in the rest of the
  record, so that the lower layer's lemmas apply to the state of the upper one.

  \<^bold>\<open>The theories.\<close>

  \<^item> \<^verbatim>\<open>Prelude\<close>: word types, byte lists, little-endian fields, generic lemmas.

  \<^item> \<^verbatim>\<open>Strings\<close> (\<^verbatim>\<open>lib/string.c\<close>): the memory and string functions over a byte memory with
    64-bit addresses. \<^verbatim>\<open>memmove\<close> is right for overlapping ranges; \<^verbatim>\<open>strncpy\<close> overruns its
    target.

  \<^item> \<^verbatim>\<open>Kalloc\<close> (\<^verbatim>\<open>kern/bootinfo.c\<close>, \<^verbatim>\<open>kern/kalloc.c\<close>): memory detection, the page free list
    threaded through the pages, the console arena. A locale states the contract of a page
    pool; the allocator interprets it.

  \<^item> \<^verbatim>\<open>Locks\<close> (\<^verbatim>\<open>kern/spinlock.c\<close>, \<^verbatim>\<open>kern/sleeplock.c\<close>): step relations of competing
    processors and processes, mutual exclusion by rule induction, interrupt nesting.

  \<^item> \<^verbatim>\<open>Bio\<close>, \<^verbatim>\<open>Blockdev\<close> (\<^verbatim>\<open>kern/bio.c\<close>, \<^verbatim>\<open>kern/blockdev.c\<close>, the request entry points of
    the drivers): the cache invariant, coherence of reads, write-through, byte ranges.

  \<^item> \<^verbatim>\<open>Log\<close> (\<^verbatim>\<open>kern/log.c\<close>): a commit interrupted after any prefix of its disk writes is
    recovered to the state before or after the whole transaction.

  \<^item> \<^verbatim>\<open>Ufs2\<close>, \<^verbatim>\<open>Ufs2_Facts\<close>, \<^verbatim>\<open>Ufs2_Dirs\<close> (\<^verbatim>\<open>kern/ufs2.c\<close>): probing, allocation maps, inodes,
    file blocks, directories. Inode round trip, exact offsets, directory insertion as a
    refinement of insertion into a list of names.

  \<^item> \<^verbatim>\<open>Txn\<close>, \<^verbatim>\<open>Fat32\<close>, \<^verbatim>\<open>Fs\<close>, \<^verbatim>\<open>Fs_Facts\<close> (\<^verbatim>\<open>kern/fat32.c\<close>, \<^verbatim>\<open>kern/fs.c\<close>, \<^verbatim>\<open>kern/storage.c\<close>):
    the two ways the file systems touch blocks and their laws, the FAT32 driver, the inode
    cache, block allocation, paths.

  \<^item> \<^verbatim>\<open>Ring\<close>, \<^verbatim>\<open>Pipe\<close> (\<^verbatim>\<open>kern/pipe.c\<close>): ring buffers with free-running counters; readers and
    writers of a pipe as a step relation with sleeping and waking.

  \<^item> \<^verbatim>\<open>Console\<close>, \<^verbatim>\<open>Console_Facts\<close> (\<^verbatim>\<open>kern/console.c\<close>): terminals, escape sequences, the line
    editor; every byte keeps the cursor on the screen.

  \<^item> \<^verbatim>\<open>Printf\<close> (\<^verbatim>\<open>user/printf.c\<close>, \<^verbatim>\<open>cprintf\<close>): formats against their text.

  \<^item> \<^verbatim>\<open>Vm\<close>, \<^verbatim>\<open>Vm_Inv\<close>, \<^verbatim>\<open>Vm_Spaces\<close>, \<^verbatim>\<open>Vm_Facts\<close> (\<^verbatim>\<open>kern/vm.c\<close>): four-level page tables over the
    page allocator, the ownership of every page, address spaces as maps from page numbers to
    flags and bytes; growing, copying and freeing an address space, and the copies between
    kernel and user memory, against that map.

  \<^bold>\<open>Not modelled.\<close> Code that programs hardware (interrupt controllers, PCI, the disk, display
  and network controllers, clocks, power), assembly and boot code, the glyph table, and the
  third-party network stacks: their effect is outside any state the kernel's C code reads
  back.
\<close>

end
